(* ===== verification/Prelude.thy ===== *)
theory Prelude
  imports Main "HOL-Library.Word"
begin

text \<open>
  What the components share: the names of the C integer types, the result type of code that
  may trap or never return, and the simplification rules for it.

  A C function that can dereference an invalid pointer, hit a \<^verbatim>\<open>BUG_ON\<close> or spin for ever is
  modelled by a function into \<open>outcome\<close>. \<open>Fault\<close> is an access outside the modelled memory,
  \<open>Bug\<close> a failed kernel assertion, and \<open>Hang\<close> a loop that is never left.
\<close>

section \<open>Integer types\<close>

type_synonym u8 = "8 word"
type_synonym u16 = "16 word"
type_synonym u32 = "32 word"
type_synonym u64 = "64 word"
type_synonym ulong = "64 word"
type_synonym phys_addr_t = "64 word"

section \<open>Outcomes\<close>

datatype 'r outcome = Ret 'r | Fault | Bug | Hang

fun bnd :: "'a outcome \<Rightarrow> ('a \<Rightarrow> 'b outcome) \<Rightarrow> 'b outcome" where
  "bnd (Ret x) f = f x"
| "bnd Fault f = Fault"
| "bnd Bug f = Bug"
| "bnd Hang f = Hang"

fun returns :: "'a outcome \<Rightarrow> bool" where
  "returns (Ret x) = True"
| "returns _ = False"

named_theorems outcome_simps \<open>rules that evaluate outcomes\<close>

lemma bnd_eq_Ret [outcome_simps]: "bnd m f = Ret y \<longleftrightarrow> (\<exists>x. m = Ret x \<and> f x = Ret y)"
  by (cases m) auto

lemma bnd_assoc [outcome_simps]: "bnd (bnd m f) g = bnd m (\<lambda>x. bnd (f x) g)"
  by (cases m) auto

lemma returns_iff: "returns m \<longleftrightarrow> (\<exists>x. m = Ret x)"
  by (cases m) auto

lemma case_Ret: "(case m of Ret x \<Rightarrow> P x | _ \<Rightarrow> False) \<longleftrightarrow> (\<exists>x. m = Ret x \<and> P x)"
  by (cases m) simp_all

lemma bnd_cong [fundef_cong]:
  "m = m' \<Longrightarrow> (\<And>x. m' = Ret x \<Longrightarrow> f x = f' x) \<Longrightarrow> bnd m f = bnd m' f'"
  by (cases m') auto

text \<open>What a loop comes to: a loop that does not end is a hang.\<close>

definition loop_end :: "'a outcome option \<Rightarrow> 'a outcome" where
  "loop_end r = (case r of None \<Rightarrow> Hang | Some x \<Rightarrow> x)"

text \<open>A step of a loop that may fail.\<close>

definition bndo :: "'a outcome \<Rightarrow> ('a \<Rightarrow> 'b outcome option) \<Rightarrow> 'b outcome option" where
  "bndo m f = (case m of Ret x \<Rightarrow> f x | Fault \<Rightarrow> Some Fault | Bug \<Rightarrow> Some Bug | Hang \<Rightarrow> Some Hang)"

lemma bndo_Ret [simp]: "bndo (Ret x) f = f x"
  by (simp add: bndo_def)

lemma bndo_mono [partial_function_mono]:
  "(\<And>x. mono_option (\<lambda>f. B x f)) \<Longrightarrow> mono_option (\<lambda>f. bndo m (\<lambda>x. B x f))"
  by (cases m) (simp_all add: bndo_def option.const_mono)

text \<open>Reading words as numbers.\<close>

lemma unat_of_nat_small: "n < 2 ^ 64 \<Longrightarrow> unat (of_nat n :: ulong) = n"
  by (simp add: unsigned_of_nat take_bit_nat_eq_self)

lemma unat_word_inv: "of_nat (unat (w :: ulong)) = w"
  by simp

lemma unat_exp: "k < 64 \<Longrightarrow> unat (2 ^ k :: ulong) = 2 ^ k"
proof -
  assume "k < 64"
  then have "(2 :: nat) ^ k < 2 ^ 64" by (intro power_strict_increasing) simp_all
  from unat_of_nat_small [OF this] show ?thesis by simp
qed

lemma shift_less: "drop_bit (Suc n) (w :: u64) \<noteq> 0 \<Longrightarrow> unat (drop_bit (Suc n) w) < unat w"
proof -
  assume *: "drop_bit (Suc n) w \<noteq> 0"
  have "unat (drop_bit (Suc n) w) = unat w div 2 ^ Suc n"
    by (subst unat_drop_bit_eq) (simp add: drop_bit_eq_div)
  moreover have "w \<noteq> 0" using * by auto
  then have "0 < unat w" by (simp add: unat_gt_0 word_neq_0_conv)
  moreover have "1 < (2 :: nat) ^ Suc n" using one_less_power [of "2 :: nat" "Suc n"] by simp
  ultimately show ?thesis using div_less_dividend [of "2 ^ Suc n" "unat w"] by simp
qed

lemma width_field_less:
  "0 < signed_take_bit 23 (w - 1 :: int) \<Longrightarrow> nat (take_bit 24 (signed_take_bit 23 (w - 1))) < nat (take_bit 24 w)"
proof -
  assume *: "0 < signed_take_bit 23 (w - 1)"
  define v where "v = signed_take_bit 23 (w - 1)"
  have lt: "v < 2 ^ 23" unfolding v_def by (rule signed_take_bit_int_less_exp)
  have "take_bit 24 v = take_bit 24 (w - 1)" unfolding v_def by (simp add: take_bit_signed_take_bit)
  moreover have "take_bit 24 v = v" using * lt unfolding v_def [symmetric] by (intro take_bit_int_eq_self) simp_all
  ultimately have "v = (w - 1) mod 2 ^ 24" by (simp add: take_bit_eq_mod)
  then have "(v + 1) mod 2 ^ 24 = w mod 2 ^ 24" by (metis diff_add_cancel mod_add_left_eq)
  then have "take_bit 24 w = v + 1" using * lt by (simp add: take_bit_eq_mod v_def)
  then show ?thesis using * \<open>take_bit 24 v = v\<close> unfolding v_def [symmetric] by simp
qed

text \<open>Pages.\<close>

definition PAGE_SHIFT :: nat where "PAGE_SHIFT = 12"
definition PAGE_SIZE :: ulong where "PAGE_SIZE = push_bit PAGE_SHIFT 1"

text \<open>An error number that several components return, negated.\<close>

definition EINVAL :: int where "EINVAL = 22"

end
