(* ===== verification/Double_List.thy ===== *)
theory Double_List
  imports Prelude
begin

text \<open>
  The intrusive doubly linked lists of \<^verbatim>\<open>mykernel/lib/list/double_list.h\<close>.

  A \<^verbatim>\<open>List_s\<close> lives at an address of type \<open>'a\<close>; a heap maps every address to its two link
  fields. The pointers a link field can hold are the addresses, \<^verbatim>\<open>NULL\<close> and the two poison
  values, which are not addresses: following one of those is a \<open>Fault\<close>. The validity checks of
  the source spin (\<^verbatim>\<open>while (cond);\<close>) when they fail, so a failed check is \<open>Hang\<close>. A
  \<^verbatim>\<open>List_hdr_s\<close> is named by the address of its anchor; its \<^verbatim>\<open>count\<close> is a 64-bit word.

  The relation \<open>dlist h a xs\<close> says that the ring anchored at \<open>a\<close> holds the nodes \<open>xs\<close>; every
  operation is shown to act on \<open>xs\<close> as the list operation it stands for, and to leave the rest
  of the heap alone.
\<close>

section \<open>Pointers and heaps\<close>

datatype 'a ptr = NULL | LIST_POISON1 | LIST_POISON2 | At 'a

record 'a list_head =
  nxt :: "'a ptr"
  prv :: "'a ptr"

type_synonym 'a heap = "'a \<Rightarrow> 'a list_head"

fun rd_next :: "'a heap \<Rightarrow> 'a ptr \<Rightarrow> 'a ptr outcome" where
  "rd_next h (At a) = Ret (nxt (h a))"
| "rd_next h _ = Fault"

fun rd_prev :: "'a heap \<Rightarrow> 'a ptr \<Rightarrow> 'a ptr outcome" where
  "rd_prev h (At a) = Ret (prv (h a))"
| "rd_prev h _ = Fault"

fun wr_next :: "'a ptr \<Rightarrow> 'a ptr \<Rightarrow> 'a heap \<Rightarrow> 'a heap outcome" where
  "wr_next (At a) p h = Ret (h(a := (h a)\<lparr>nxt := p\<rparr>))"
| "wr_next _ p h = Fault"

fun wr_prev :: "'a ptr \<Rightarrow> 'a ptr \<Rightarrow> 'a heap \<Rightarrow> 'a heap outcome" where
  "wr_prev (At a) p h = Ret (h(a := (h a)\<lparr>prv := p\<rparr>))"
| "wr_prev _ p h = Fault"

section \<open>The list operations\<close>

definition INIT_LIST_S :: "'a ptr \<Rightarrow> 'a heap \<Rightarrow> 'a heap outcome" where
  "INIT_LIST_S l h = bnd (wr_next l l h) (\<lambda>h. wr_prev l l h)"

definition list_add_valid :: "'a ptr \<Rightarrow> 'a ptr \<Rightarrow> 'a ptr \<Rightarrow> 'a heap \<Rightarrow> bool outcome" where
  "list_add_valid new prev next h =
     (if prev = NULL \<or> next = NULL then Hang
      else bnd (rd_prev h next) (\<lambda>np. if np \<noteq> prev then Hang
      else bnd (rd_next h prev) (\<lambda>pn. if pn \<noteq> next then Hang
      else if new = prev \<or> new = next then Hang
      else Ret True)))"

definition list_del_entry_valid :: "'a ptr \<Rightarrow> 'a heap \<Rightarrow> bool outcome" where
  "list_del_entry_valid entry h =
     bnd (rd_prev h entry) (\<lambda>prev. bnd (rd_next h entry) (\<lambda>next.
       if next = NULL \<or> prev = NULL \<or> next = LIST_POISON1 \<or> prev = LIST_POISON2 then Hang
       else bnd (rd_next h prev) (\<lambda>pn. if pn \<noteq> entry then Hang
       else bnd (rd_prev h next) (\<lambda>np. if np \<noteq> entry then Hang
       else Ret True))))"

definition list_add_between :: "'a ptr \<Rightarrow> 'a ptr \<Rightarrow> 'a ptr \<Rightarrow> 'a heap \<Rightarrow> 'a heap outcome" where
  "list_add_between new prev next h =
     bnd (list_add_valid new prev next h) (\<lambda>ok.
       if \<not> ok then Ret h
       else bnd (wr_prev next new h) (\<lambda>h. bnd (wr_next new next h) (\<lambda>h.
            bnd (wr_prev new prev h) (\<lambda>h. wr_next prev new h))))"

definition list_add_to_next :: "'a ptr \<Rightarrow> 'a ptr \<Rightarrow> 'a heap \<Rightarrow> 'a heap outcome" where
  "list_add_to_next new head h = bnd (rd_next h head) (\<lambda>n. list_add_between new head n h)"

definition list_add_to_prev :: "'a ptr \<Rightarrow> 'a ptr \<Rightarrow> 'a heap \<Rightarrow> 'a heap outcome" where
  "list_add_to_prev new head h = bnd (rd_prev h head) (\<lambda>p. list_add_between new p head h)"

definition list_del_links :: "'a ptr \<Rightarrow> 'a ptr \<Rightarrow> 'a heap \<Rightarrow> 'a heap outcome" where
  "list_del_links prev next h = bnd (wr_prev next prev h) (\<lambda>h. wr_next prev next h)"

definition list_del_clearprev :: "'a ptr \<Rightarrow> 'a heap \<Rightarrow> 'a heap outcome" where
  "list_del_clearprev entry h =
     bnd (rd_prev h entry) (\<lambda>p. bnd (rd_next h entry) (\<lambda>n.
     bnd (list_del_links p n h) (\<lambda>h. wr_prev entry NULL h)))"

definition list_del_entry :: "'a ptr \<Rightarrow> 'a heap \<Rightarrow> 'a heap outcome" where
  "list_del_entry entry h =
     bnd (list_del_entry_valid entry h) (\<lambda>ok.
       if \<not> ok then Ret h
       else bnd (rd_prev h entry) (\<lambda>p. bnd (rd_next h entry) (\<lambda>n. list_del_links p n h)))"

definition list_del :: "'a ptr \<Rightarrow> 'a heap \<Rightarrow> 'a heap outcome" where
  "list_del entry h =
     bnd (list_del_entry entry h) (\<lambda>h.
     bnd (wr_next entry LIST_POISON1 h) (\<lambda>h. wr_prev entry LIST_POISON2 h))"

definition list_del_init :: "'a ptr \<Rightarrow> 'a heap \<Rightarrow> 'a heap outcome" where
  "list_del_init entry h = bnd (list_del_entry entry h) (\<lambda>h. INIT_LIST_S entry h)"

definition list_move :: "'a ptr \<Rightarrow> 'a ptr \<Rightarrow> 'a heap \<Rightarrow> 'a heap outcome" where
  "list_move l head h = bnd (list_del_entry l h) (\<lambda>h. list_add_to_next l head h)"

definition list_move_tail :: "'a ptr \<Rightarrow> 'a ptr \<Rightarrow> 'a heap \<Rightarrow> 'a heap outcome" where
  "list_move_tail l head h = bnd (list_del_entry l h) (\<lambda>h. list_add_to_prev l head h)"

definition list_bulk_move_tail ::
    "'a ptr \<Rightarrow> 'a ptr \<Rightarrow> 'a ptr \<Rightarrow> 'a heap \<Rightarrow> 'a heap outcome" where
  "list_bulk_move_tail head ent1 ent2 h =
     bnd (rd_prev h ent1) (\<lambda>fp. bnd (rd_next h ent2) (\<lambda>ln. bnd (wr_next fp ln h) (\<lambda>h.
     bnd (rd_next h ent2) (\<lambda>ln. bnd (rd_prev h ent1) (\<lambda>fp. bnd (wr_prev ln fp h) (\<lambda>h.
     bnd (rd_prev h head) (\<lambda>hp. bnd (wr_next hp ent1 h) (\<lambda>h.
     bnd (rd_prev h head) (\<lambda>hp. bnd (wr_prev ent1 hp h) (\<lambda>h.
     bnd (wr_next ent2 head h) (\<lambda>h. wr_prev head ent2 h)))))))))))"

definition list_is_first_entry :: "'a ptr \<Rightarrow> 'a ptr \<Rightarrow> 'a heap \<Rightarrow> bool outcome" where
  "list_is_first_entry l head h = bnd (rd_prev h l) (\<lambda>p. Ret (p = head))"

definition list_is_last_entry :: "'a ptr \<Rightarrow> 'a ptr \<Rightarrow> 'a heap \<Rightarrow> bool outcome" where
  "list_is_last_entry l head h = bnd (rd_next h l) (\<lambda>n. Ret (n = head))"

definition list_is_head_anchor :: "'a ptr \<Rightarrow> 'a ptr \<Rightarrow> bool" where
  "list_is_head_anchor l head \<longleftrightarrow> l = head"

definition list_is_empty_entry :: "'a ptr \<Rightarrow> 'a heap \<Rightarrow> bool outcome" where
  "list_is_empty_entry head h = bnd (rd_next h head) (\<lambda>n. Ret (n = head))"

section \<open>List headers with a count\<close>

record 'a lists =
  mem :: "'a heap"
  count :: "'a \<Rightarrow> ulong"

definition INIT_LIST_HEADER_S :: "'a \<Rightarrow> 'a lists \<Rightarrow> 'a lists outcome" where
  "INIT_LIST_HEADER_S a s =
     (let s = s\<lparr>count := (count s)(a := 0)\<rparr>
      in bnd (INIT_LIST_S (At a) (mem s)) (\<lambda>h. Ret (s\<lparr>mem := h\<rparr>)))"

definition list_header_is_empty :: "'a \<Rightarrow> 'a lists \<Rightarrow> bool" where
  "list_header_is_empty a s \<longleftrightarrow> count s a = 0"

text \<open>The \<^verbatim>\<open>list_for_each\<close> walk of \<^verbatim>\<open>list_header_contains\<close>; \<open>None\<close> is a walk that never ends.\<close>

partial_function (option) list_walk :: "'a heap \<Rightarrow> 'a \<Rightarrow> 'a ptr \<Rightarrow> 'a ptr \<Rightarrow> bool outcome option" where
  "list_walk h a l pos =
     (if list_is_head_anchor pos (At a) then Some (Ret False)
      else if pos = l then Some (Ret True)
      else (case rd_next h pos of Ret n \<Rightarrow> list_walk h a l n | _ \<Rightarrow> Some Fault))"

definition list_header_contains :: "'a \<Rightarrow> 'a ptr \<Rightarrow> 'a lists \<Rightarrow> bool outcome" where
  "list_header_contains a l s =
     (case list_walk (mem s) a l (nxt (mem s a)) of None \<Rightarrow> Hang | Some r \<Rightarrow> r)"

definition list_header_add_to_head :: "'a \<Rightarrow> 'a ptr \<Rightarrow> 'a lists \<Rightarrow> 'a lists outcome" where
  "list_header_add_to_head a l s =
     bnd (list_add_to_next l (At a) (mem s)) (\<lambda>h.
     Ret (s\<lparr>mem := h, count := (count s)(a := count s a + 1)\<rparr>))"

definition list_header_add_to_tail :: "'a \<Rightarrow> 'a ptr \<Rightarrow> 'a lists \<Rightarrow> 'a lists outcome" where
  "list_header_add_to_tail a l s =
     bnd (list_add_to_prev l (At a) (mem s)) (\<lambda>h.
     Ret (s\<lparr>mem := h, count := (count s)(a := count s a + 1)\<rparr>))"

definition list_header_remove_head :: "'a \<Rightarrow> 'a lists \<Rightarrow> ('a ptr \<times> 'a lists) outcome" where
  "list_header_remove_head a s =
     (if count s a > 0
      then (let ret_val = nxt (mem s a)
            in bnd (list_del_init ret_val (mem s)) (\<lambda>h.
               Ret (ret_val, s\<lparr>mem := h, count := (count s)(a := count s a - 1)\<rparr>)))
      else Ret (NULL, s))"

definition list_header_remove_tail :: "'a \<Rightarrow> 'a lists \<Rightarrow> ('a ptr \<times> 'a lists) outcome" where
  "list_header_remove_tail a s =
     (if count s a > 0
      then (let ret_val = prv (mem s a)
            in bnd (list_del_init ret_val (mem s)) (\<lambda>h.
               Ret (ret_val, s\<lparr>mem := h, count := (count s)(a := count s a - 1)\<rparr>)))
      else Ret (NULL, s))"

definition list_header_delete_node :: "'a \<Rightarrow> 'a ptr \<Rightarrow> 'a lists \<Rightarrow> ('a ptr \<times> 'a lists) outcome" where
  "list_header_delete_node a l s =
     bnd (list_header_contains a l s) (\<lambda>found.
       if found
       then bnd (list_del_init l (mem s)) (\<lambda>h.
            Ret (l, s\<lparr>mem := h, count := (count s)(a := count s a - 1)\<rparr>))
       else Ret (NULL, s))"

section \<open>The ring a header anchors\<close>

definition linked :: "'a heap \<Rightarrow> 'a \<Rightarrow> 'a \<Rightarrow> bool" where
  "linked h u v \<longleftrightarrow> nxt (h u) = At v \<and> prv (h v) = At u"

definition dlist :: "'a heap \<Rightarrow> 'a \<Rightarrow> 'a list \<Rightarrow> bool" where
  "dlist h a xs \<longleftrightarrow> distinct (a # xs) \<and> successively (linked h) (a # xs @ [a])"

named_theorems dl_defs \<open>definitions of the list operations\<close>

lemmas [dl_defs] = INIT_LIST_S_def list_add_valid_def list_del_entry_valid_def
  list_add_between_def list_add_to_next_def list_add_to_prev_def list_del_links_def
  list_del_clearprev_def list_del_entry_def list_del_def list_del_init_def
  list_move_def list_move_tail_def

lemma successively_linked_frame:
  assumes "successively (linked h) ws"
    and "\<And>p. p \<in> set (butlast ws) \<Longrightarrow> nxt (h' p) = nxt (h p)"
    and "\<And>q. q \<in> set (tl ws) \<Longrightarrow> prv (h' q) = prv (h q)"
  shows "successively (linked h') ws"
  using assms
proof (induction ws)
  case (Cons u ws)
  then show ?case
    by (cases ws) (auto simp: linked_def split: if_splits)
qed simp

lemma dlist_frame:
  assumes "dlist h a xs" and "\<And>p. p \<in> set (a # xs) \<Longrightarrow> h' p = h p"
  shows "dlist h' a xs"
  unfolding dlist_def
proof (intro conjI)
  show "distinct (a # xs)" using assms(1) by (simp add: dlist_def)
  show "successively (linked h') (a # xs @ [a])"
    by (rule successively_linked_frame [of h])
       (use assms in \<open>auto simp: dlist_def butlast_append split: if_splits dest: in_set_butlastD\<close>)
qed

text \<open>
  A ring cut at a node: the link in the middle joins the last node on the left to the first
  one on the right.
\<close>

lemma dlist_cut:
  "dlist h a (xs @ ys) \<longleftrightarrow> distinct (a # xs @ ys)
     \<and> successively (linked h) (a # xs) \<and> successively (linked h) (ys @ [a])
     \<and> linked h (last (a # xs)) (hd (ys @ [a]))"
proof -
  have "a # (xs @ ys) @ [a] = (a # xs) @ (ys @ [a])" by simp
  then show ?thesis unfolding dlist_def
    by (simp only: successively_append_iff) auto
qed

lemma set_butlast_distinct: "distinct ws \<Longrightarrow> ws \<noteq> [] \<Longrightarrow> set (butlast ws) = set ws - {last ws}"
  by (induction ws rule: rev_induct) auto

lemma set_tl_distinct: "distinct ws \<Longrightarrow> ws \<noteq> [] \<Longrightarrow> set (tl ws) = set ws - {hd ws}"
  by (cases ws) auto

lemma dlist_ends:
  assumes "distinct (a # xs @ ys)"
  shows "last (a # xs) \<notin> set (butlast (a # xs))" "hd (ys @ [a]) \<notin> set xs"
    "last (a # xs) \<notin> set ys" "hd (ys @ [a]) \<notin> set (tl (ys @ [a]))"
  using assms by (induction xs rule: rev_induct; cases ys; auto)+

text \<open>Insertion of a fresh node.\<close>

definition ins_heap :: "'a \<Rightarrow> 'a \<Rightarrow> 'a \<Rightarrow> 'a heap \<Rightarrow> 'a heap" where
  "ins_heap n u v h p = \<lparr>nxt = if p = u then At n else if p = n then At v else nxt (h p),
                          prv = if p = n then At u else if p = v then At n else prv (h p)\<rparr>"

lemma list_add_between_eq:
  assumes "linked h u v" "n \<noteq> u" "n \<noteq> v"
  shows "list_add_between (At n) (At u) (At v) h = Ret (ins_heap n u v h)"
  using assms
  by (auto simp: linked_def dl_defs ins_heap_def fun_eq_iff)

lemma linked_ins_heap:
  assumes "u \<noteq> n" "v \<noteq> n"
  shows "linked (ins_heap n u v h) u n" "linked (ins_heap n u v h) n v"
  using assms by (auto simp: linked_def ins_heap_def)

lemma dlist_ins_heap:
  assumes "dlist h a (xs @ ys)" "n \<notin> set (a # xs @ ys)"
  shows "dlist (ins_heap n (last (a # xs)) (hd (ys @ [a])) h) a (xs @ n # ys)"
proof -
  let ?u = "last (a # xs)" and ?v = "hd (ys @ [a])"
  let ?h = "ins_heap n ?u ?v h"
  from assms(1) have d: "distinct (a # xs @ ys)" and l: "successively (linked h) (a # xs)"
    and r: "successively (linked h) (ys @ [a])" by (simp_all add: dlist_cut)
  note ends = dlist_ends [OF d]
  have un: "?u \<in> set (a # xs)" by (rule last_in_set) simp
  have vn: "?v \<in> set (ys @ [a])" by (rule hd_in_set) simp
  from un vn assms(2) have ne: "?u \<noteq> n" "?v \<noteq> n" by auto
  have "successively (linked ?h) (a # xs)"
  proof (rule successively_linked_frame [OF l])
    fix p assume "p \<in> set (butlast (a # xs))"
    with ends(1) assms(2) have "p \<noteq> ?u" "p \<noteq> n" by (auto dest: in_set_butlastD split: if_splits)
    then show "nxt (?h p) = nxt (h p)" by (simp add: ins_heap_def)
  next
    fix q assume "q \<in> set (tl (a # xs))"
    with ends(2) assms(2) have "q \<noteq> ?v" "q \<noteq> n" by auto
    then show "prv (?h q) = prv (h q)" by (simp add: ins_heap_def)
  qed
  moreover have "successively (linked ?h) (ys @ [a])"
  proof (rule successively_linked_frame [OF r])
    fix p assume "p \<in> set (butlast (ys @ [a]))"
    with ends(3) assms(2) have "p \<noteq> ?u" "p \<noteq> n" by auto
    then show "nxt (?h p) = nxt (h p)" by (simp add: ins_heap_def)
  next
    fix q assume q: "q \<in> set (tl (ys @ [a]))"
    then have "q \<in> set (ys @ [a])" by (cases ys) auto
    with q ends(4) assms(2) have "q \<noteq> ?v" "q \<noteq> n" by auto
    then show "prv (?h q) = prv (h q)" by (simp add: ins_heap_def)
  qed
  moreover have "linked ?h ?u n" "linked ?h n ?v" by (rule linked_ins_heap [OF ne])+
  ultimately have "successively (linked ?h) ((n # ys) @ [a])"
    by (cases ys) simp_all
  with \<open>successively (linked ?h) (a # xs)\<close> \<open>linked ?h ?u n\<close>
  have "dlist ?h a (xs @ (n # ys)) \<longleftrightarrow> distinct (a # xs @ n # ys)"
    unfolding dlist_cut by simp
  with d assms(2) show ?thesis by auto
qed

text \<open>Removal of a node.\<close>

definition del_heap :: "'a \<Rightarrow> 'a \<Rightarrow> 'a heap \<Rightarrow> 'a heap" where
  "del_heap u v h p = \<lparr>nxt = if p = u then At v else nxt (h p),
                       prv = if p = v then At u else prv (h p)\<rparr>"

lemma list_del_links_eq: "list_del_links (At u) (At v) h = Ret (del_heap u v h)"
  by (auto simp: dl_defs del_heap_def fun_eq_iff)

lemma list_del_entry_eq:
  assumes "linked h u n" "linked h n v"
  shows "list_del_entry (At n) h = Ret (del_heap u v h)"
  using assms by (simp add: list_del_entry_def list_del_entry_valid_def linked_def list_del_links_eq)

lemma dlist_around:
  assumes "dlist h a (xs @ n # ys)"
  shows "linked h (last (a # xs)) n" "linked h n (hd (ys @ [a]))"
    "distinct (a # xs @ n # ys)" "successively (linked h) (a # xs)"
    "successively (linked h) (ys @ [a])"
proof -
  from assms have *: "distinct (a # xs @ n # ys)" "successively (linked h) (a # xs)"
    "successively (linked h) ((n # ys) @ [a])" "linked h (last (a # xs)) n"
    unfolding dlist_cut by simp_all
  then show "linked h (last (a # xs)) n" "distinct (a # xs @ n # ys)"
    "successively (linked h) (a # xs)" by blast+
  from *(3) show "linked h n (hd (ys @ [a]))" "successively (linked h) (ys @ [a])"
    by (cases ys; simp)+
qed

lemma dlist_del_heap:
  assumes "dlist h a (xs @ n # ys)"
  shows "dlist (del_heap (last (a # xs)) (hd (ys @ [a])) h) a (xs @ ys)"
proof -
  let ?u = "last (a # xs)" and ?v = "hd (ys @ [a])"
  let ?h = "del_heap ?u ?v h"
  note ar = dlist_around [OF assms]
  from ar(3) have d: "distinct (a # xs @ ys)" by auto
  note ends = dlist_ends [OF d]
  have "successively (linked ?h) (a # xs)"
    by (rule successively_linked_frame [OF ar(4)]) (use ends(1,2) in \<open>auto simp: del_heap_def\<close>)
  moreover have "successively (linked ?h) (ys @ [a])"
    by (rule successively_linked_frame [OF ar(5)]) (use ends(3,4) in \<open>auto simp: del_heap_def\<close>)
  moreover have "linked ?h ?u ?v" by (simp add: linked_def del_heap_def)
  ultimately show ?thesis using d by (simp add: dlist_cut)
qed

lemma INIT_LIST_S_eq: "INIT_LIST_S (At a) h = Ret (h(a := \<lparr>nxt = At a, prv = At a\<rparr>))"
  by (auto simp: INIT_LIST_S_def fun_eq_iff intro: list_head.equality)

lemma dlist_self: "dlist h a [] \<longleftrightarrow> nxt (h a) = At a \<and> prv (h a) = At a"
  by (simp add: dlist_def linked_def)

text \<open>What each operation does to the ring, and what it leaves alone.\<close>

lemma list_add_to_next_ring:
  assumes "dlist h a (xs @ ys)" "n \<notin> set (a # xs @ ys)" "u = last (a # xs)"
  shows "\<exists>h'. list_add_to_next (At n) (At u) h = Ret h' \<and> dlist h' a (xs @ n # ys)
     \<and> (\<forall>p. p \<notin> set (a # xs @ n # ys) \<longrightarrow> h' p = h p)"
proof -
  let ?v = "hd (ys @ [a])"
  from assms(1) have l: "linked h u ?v" unfolding assms(3) dlist_cut by simp
  have un: "u \<in> set (a # xs)" unfolding assms(3) by (rule last_in_set) simp
  have vn: "?v \<in> set (ys @ [a])" by (rule hd_in_set) simp
  from un vn assms(2) have "n \<noteq> u" "n \<noteq> ?v" by auto
  with l have "list_add_to_next (At n) (At u) h = Ret (ins_heap n u ?v h)"
    by (simp add: list_add_to_next_def list_add_between_eq linked_def)
  moreover have "ins_heap n u ?v h p = h p" if "p \<notin> set (a # xs @ n # ys)" for p
    using un vn that by (auto simp: ins_heap_def split: if_splits)
  ultimately show ?thesis using dlist_ins_heap [OF assms(1,2)] unfolding assms(3) by blast
qed

lemma list_add_to_prev_ring:
  assumes "dlist h a (xs @ ys)" "n \<notin> set (a # xs @ ys)" "v = hd (ys @ [a])"
  shows "\<exists>h'. list_add_to_prev (At n) (At v) h = Ret h' \<and> dlist h' a (xs @ n # ys)
     \<and> (\<forall>p. p \<notin> set (a # xs @ n # ys) \<longrightarrow> h' p = h p)"
proof -
  let ?u = "last (a # xs)"
  from assms(1) have l: "linked h ?u v" unfolding assms(3) dlist_cut by simp
  have un: "?u \<in> set (a # xs)" by (rule last_in_set) simp
  have vn: "v \<in> set (ys @ [a])" unfolding assms(3) by (rule hd_in_set) simp
  from un vn assms(2) have "n \<noteq> ?u" "n \<noteq> v" by auto
  with l have "list_add_to_prev (At n) (At v) h = Ret (ins_heap n ?u v h)"
    by (simp add: list_add_to_prev_def list_add_between_eq linked_def)
  moreover have "ins_heap n ?u v h p = h p" if "p \<notin> set (a # xs @ n # ys)" for p
    using un vn that by (auto simp: ins_heap_def split: if_splits)
  ultimately show ?thesis using dlist_ins_heap [OF assms(1,2)] unfolding assms(3) by blast
qed

lemma list_del_entry_ring:
  assumes "dlist h a (xs @ n # ys)"
  shows "\<exists>h'. list_del_entry (At n) h = Ret h' \<and> dlist h' a (xs @ ys)
     \<and> (\<forall>p. p \<notin> set (a # xs @ ys) \<longrightarrow> h' p = h p)"
proof -
  let ?u = "last (a # xs)" and ?v = "hd (ys @ [a])"
  note ar = dlist_around [OF assms]
  have un: "?u \<in> set (a # xs)" by (rule last_in_set) simp
  have vn: "?v \<in> set (ys @ [a])" by (rule hd_in_set) simp
  have "del_heap ?u ?v h p = h p" if "p \<notin> set (a # xs @ ys)" for p
    using un vn that by (auto simp: del_heap_def split: if_splits)
  then show ?thesis using list_del_entry_eq [OF ar(1,2)] dlist_del_heap [OF assms] by blast
qed

lemma list_del_init_ring:
  assumes "dlist h a (xs @ n # ys)"
  shows "\<exists>h'. list_del_init (At n) h = Ret h' \<and> dlist h' a (xs @ ys) \<and> dlist h' n []
     \<and> (\<forall>p. p \<notin> set (a # xs @ n # ys) \<longrightarrow> h' p = h p)"
proof -
  obtain h1 where h1: "list_del_entry (At n) h = Ret h1" "dlist h1 a (xs @ ys)"
    "\<forall>p. p \<notin> set (a # xs @ ys) \<longrightarrow> h1 p = h p" using list_del_entry_ring [OF assms] by blast
  let ?h = "h1(n := \<lparr>nxt = At n, prv = At n\<rparr>)"
  have n: "n \<notin> set (a # xs @ ys)" using dlist_around(3) [OF assms] by auto
  then have "dlist ?h a (xs @ ys)" using h1(2) by (auto intro: dlist_frame)
  with h1 show ?thesis by (simp add: list_del_init_def INIT_LIST_S_eq dlist_self)
qed

lemma list_move_ring:
  assumes "dlist h a (xs @ n # ys)"
  shows "\<exists>h'. list_move (At n) (At a) h = Ret h' \<and> dlist h' a (n # xs @ ys)
     \<and> (\<forall>p. p \<notin> set (a # xs @ n # ys) \<longrightarrow> h' p = h p)"
proof -
  obtain h1 where h1: "list_del_entry (At n) h = Ret h1" "dlist h1 a (xs @ ys)"
    "\<forall>p. p \<notin> set (a # xs @ ys) \<longrightarrow> h1 p = h p" using list_del_entry_ring [OF assms] by blast
  have "n \<notin> set (a # [] @ xs @ ys)" using dlist_around(3) [OF assms] by auto
  moreover have "dlist h1 a ([] @ xs @ ys)" using h1(2) by simp
  ultimately obtain h2 where "list_add_to_next (At n) (At a) h1 = Ret h2" "dlist h2 a ([] @ n # xs @ ys)"
    "\<forall>p. p \<notin> set (a # [] @ n # xs @ ys) \<longrightarrow> h2 p = h1 p"
    using list_add_to_next_ring [of h1 a "[]" "xs @ ys" n a] by auto
  with h1 show ?thesis by (auto simp: list_move_def)
qed

lemma list_move_tail_ring:
  assumes "dlist h a (xs @ n # ys)"
  shows "\<exists>h'. list_move_tail (At n) (At a) h = Ret h' \<and> dlist h' a (xs @ ys @ [n])
     \<and> (\<forall>p. p \<notin> set (a # xs @ n # ys) \<longrightarrow> h' p = h p)"
proof -
  obtain h1 where h1: "list_del_entry (At n) h = Ret h1" "dlist h1 a (xs @ ys)"
    "\<forall>p. p \<notin> set (a # xs @ ys) \<longrightarrow> h1 p = h p" using list_del_entry_ring [OF assms] by blast
  have "n \<notin> set (a # (xs @ ys) @ [])" using dlist_around(3) [OF assms] by auto
  moreover have "dlist h1 a ((xs @ ys) @ [])" using h1(2) by simp
  ultimately obtain h2 where "list_add_to_prev (At n) (At a) h1 = Ret h2" "dlist h2 a ((xs @ ys) @ [n])"
    "\<forall>p. p \<notin> set (a # (xs @ ys) @ [n]) \<longrightarrow> h2 p = h1 p"
    using list_add_to_prev_ring [of h1 a "xs @ ys" "[]" n a] by auto
  with h1 show ?thesis by (auto simp: list_move_tail_def)
qed

lemma list_walk_ring:
  assumes "successively (linked h) (xs @ [a])" "a \<notin> set xs" "xs @ [a] = w # ws"
  shows "list_walk h a (At l) (At w) = Some (Ret (l \<in> set xs))"
  using assms
proof (induction xs arbitrary: w ws)
  case Nil
  then show ?case by (simp add: list_walk.simps list_is_head_anchor_def)
next
  case (Cons x xs)
  obtain y ys where y: "xs @ [a] = y # ys" by (cases xs) auto
  with Cons.prems have "nxt (h x) = At y" "w = x" by (auto simp: linked_def)
  moreover have "list_walk h a (At l) (At y) = Some (Ret (l \<in> set xs))"
    using Cons.IH [of y ys] Cons.prems y by (cases xs) auto
  ultimately show ?case using Cons.prems(2)
    by (subst list_walk.simps) (auto simp: list_is_head_anchor_def)
qed

lemma list_header_contains_ring:
  assumes "dlist (mem s) a xs"
  shows "list_header_contains a (At l) s = Ret (l \<in> set xs)"
proof -
  obtain w ws where w: "xs @ [a] = w # ws" by (cases xs) auto
  with assms have "nxt (mem s a) = At w" "successively (linked (mem s)) (xs @ [a])" "a \<notin> set xs"
    by (auto simp: dlist_def linked_def)
  with list_walk_ring [OF this(2,3) w, of l] show ?thesis by (simp add: list_header_contains_def)
qed

section \<open>A family of counted lists\<close>

text \<open>
  \<open>hdrs s D L\<close>: the headers anchored at the addresses \<open>D\<close> hold the lists \<open>L\<close>, their counts are
  right, and no node is in two of them or is an anchor.
\<close>

definition hdrs :: "'a lists \<Rightarrow> 'a set \<Rightarrow> ('a \<Rightarrow> 'a list) \<Rightarrow> bool" where
  "hdrs s D L \<longleftrightarrow>
     (\<forall>a\<in>D. dlist (mem s) a (L a) \<and> unat (count s a) = length (L a))
     \<and> (\<forall>a\<in>D. \<forall>b\<in>D. a \<noteq> b \<longrightarrow> set (a # L a) \<inter> set (b # L b) = {})"

definition fresh :: "'a set \<Rightarrow> ('a \<Rightarrow> 'a list) \<Rightarrow> 'a \<Rightarrow> bool" where
  "fresh D L n \<longleftrightarrow> (\<forall>a\<in>D. n \<notin> set (a # L a))"

lemma hdrs_one: "hdrs l {a} L \<longleftrightarrow> dlist (mem l) a (L a) \<and> unat (count l a) = length (L a)"
  by (auto simp: hdrs_def)

lemma hdrsI:
  assumes "hdrs s D L" "a \<in> D" "dlist (mem s') a xs" "unat (count s' a) = length xs"
    and "\<And>p. p \<notin> set (a # L a) \<union> N \<Longrightarrow> mem s' p = mem s p"
    and "\<And>b. b \<noteq> a \<Longrightarrow> count s' b = count s b"
    and "set xs \<subseteq> set (L a) \<union> N" "\<And>n. n \<in> N \<Longrightarrow> n \<in> set (L a) \<or> fresh D L n"
  shows "hdrs s' D (L(a := xs))"
proof -
  have disj: "set (a # L a) \<inter> set (b # L b) = {}" "N \<inter> set (b # L b) = {}" if "b \<in> D" "b \<noteq> a" for b
  proof -
    show 1: "set (a # L a) \<inter> set (b # L b) = {}"
      using assms(1,2) that unfolding hdrs_def by blast
    show "N \<inter> set (b # L b) = {}"
      using assms(8) that 1 unfolding fresh_def by fastforce
  qed
  have "dlist (mem s') b (L b)" "unat (count s' b) = length (L b)" if "b \<in> D" "b \<noteq> a" for b
  proof -
    have "dlist (mem s) b (L b)" using assms(1) that by (simp add: hdrs_def)
    then show "dlist (mem s') b (L b)"
      by (rule dlist_frame) (use disj [OF that] assms(5) in blast)
    show "unat (count s' b) = length (L b)" using assms(1,6) that by (simp add: hdrs_def)
  qed
  moreover have "set (b # (L(a := xs)) b) \<inter> set (c # (L(a := xs)) c) = {}"
    if "b \<in> D" "c \<in> D" "b \<noteq> c" for b c
  proof (cases "b = a")
    case True
    with disj [of c] that assms(7) show ?thesis by auto
  next
    case False
    show ?thesis
    proof (cases "c = a")
      case True
      with disj [of b] that assms(7) False show ?thesis by auto
    next
      case False
      with \<open>b \<noteq> a\<close> that assms(1) show ?thesis by (simp add: hdrs_def)
    qed
  qed
  ultimately show ?thesis using assms(3,4) unfolding hdrs_def by simp
qed

lemma unat_Suc: "unat (w :: ulong) = n \<Longrightarrow> Suc n < 2 ^ 64 \<Longrightarrow> unat (w + 1) = Suc n"
  by (simp add: unat_word_ariths)

lemma unat_pred: "unat (w :: ulong) = Suc n \<Longrightarrow> unat (w - 1) = n"
  by (metis diff_Suc_1 unat_minus_one unat_0 old.nat.distinct(2))

lemma header_count_pos: "unat (w :: ulong) = length xs \<Longrightarrow> (w > 0) = (xs \<noteq> [])"
  by (metis length_0_conv unat_gt_0 unat_eq_zero word_neq_0_conv)

lemma hdrs_add_to_head:
  assumes "hdrs s D L" "a \<in> D" "fresh D L n" "Suc (length (L a)) < 2 ^ 64"
  shows "\<exists>s'. list_header_add_to_head a (At n) s = Ret s' \<and> hdrs s' D (L(a := n # L a))"
proof -
  from assms have d: "dlist (mem s) a ([] @ L a)" and c: "unat (count s a) = length (L a)"
    and n: "n \<notin> set (a # [] @ L a)" by (auto simp: hdrs_def fresh_def)
  from list_add_to_next_ring [OF d n, of a] obtain h' where
    h': "list_add_to_next (At n) (At a) (mem s) = Ret h'" "dlist h' a (n # L a)"
      "\<forall>p. p \<notin> set (a # n # L a) \<longrightarrow> h' p = mem s p" by auto
  let ?s = "s\<lparr>mem := h', count := (count s)(a := count s a + 1)\<rparr>"
  have "hdrs ?s D (L(a := n # L a))"
    by (rule hdrsI [OF assms(1,2), where N = "{n}"])
       (use h'(2,3) assms(3) unat_Suc [OF c assms(4)] in auto)
  with h'(1) show ?thesis by (simp add: list_header_add_to_head_def)
qed

lemma hdrs_add_to_tail:
  assumes "hdrs s D L" "a \<in> D" "fresh D L n" "Suc (length (L a)) < 2 ^ 64"
  shows "\<exists>s'. list_header_add_to_tail a (At n) s = Ret s' \<and> hdrs s' D (L(a := L a @ [n]))"
proof -
  from assms have d: "dlist (mem s) a (L a @ [])" and c: "unat (count s a) = length (L a)"
    and n: "n \<notin> set (a # L a @ [])" by (auto simp: hdrs_def fresh_def)
  from list_add_to_prev_ring [OF d n, of a] obtain h' where
    h': "list_add_to_prev (At n) (At a) (mem s) = Ret h'" "dlist h' a (L a @ [n])"
      "\<forall>p. p \<notin> set (a # L a @ [n]) \<longrightarrow> h' p = mem s p" by auto
  let ?s = "s\<lparr>mem := h', count := (count s)(a := count s a + 1)\<rparr>"
  have "hdrs ?s D (L(a := L a @ [n]))"
    by (rule hdrsI [OF assms(1,2), where N = "{n}"])
       (use h'(2,3) assms(3) unat_Suc [OF c assms(4)] in auto)
  with h'(1) show ?thesis by (simp add: list_header_add_to_tail_def)
qed

text \<open>Taking a known member out of its list, wherever it stands.\<close>

lemma hdrs_del_init:
  assumes "hdrs s D L" "a \<in> D" "L a = xs @ n # ys"
  shows "\<exists>h'. list_del_init (At n) (mem s) = Ret h'
     \<and> hdrs (s\<lparr>mem := h', count := (count s)(a := count s a - 1)\<rparr>) D (L(a := xs @ ys))"
proof -
  from assms have d: "dlist (mem s) a (xs @ n # ys)" and c: "unat (count s a) = Suc (length (xs @ ys))"
    by (auto simp: hdrs_def)
  obtain h' where h': "list_del_init (At n) (mem s) = Ret h'" "dlist h' a (xs @ ys)"
    "\<forall>p. p \<notin> set (a # xs @ n # ys) \<longrightarrow> h' p = mem s p"
    using list_del_init_ring [OF d] by blast
  have "hdrs (s\<lparr>mem := h', count := (count s)(a := count s a - 1)\<rparr>) D (L(a := xs @ ys))"
    by (rule hdrsI [OF assms(1,2), where N = "{}"])
       (use h'(2,3) unat_pred [OF c] assms(3) in auto)
  with h'(1) show ?thesis by blast
qed

lemma hdrs_remove_head:
  assumes "hdrs s D L" "a \<in> D"
  shows "L a = [] \<Longrightarrow> list_header_remove_head a s = Ret (NULL, s)"
    and "L a = n # xs \<Longrightarrow>
      \<exists>s'. list_header_remove_head a s = Ret (At n, s') \<and> hdrs s' D (L(a := xs))"
proof -
  have pos: "(count s a > 0) = (L a \<noteq> [])"
    using assms by (auto simp: hdrs_def intro!: header_count_pos)
  then show "L a = [] \<Longrightarrow> list_header_remove_head a s = Ret (NULL, s)"
    by (simp add: list_header_remove_head_def)
  assume L: "L a = n # xs"
  then have "nxt (mem s a) = At n" using assms by (auto simp: hdrs_def dlist_def linked_def)
  with hdrs_del_init [OF assms, of "[]" n xs] L pos
  show "\<exists>s'. list_header_remove_head a s = Ret (At n, s') \<and> hdrs s' D (L(a := xs))"
    by (auto simp: list_header_remove_head_def)
qed

lemma hdrs_remove_tail:
  assumes "hdrs s D L" "a \<in> D"
  shows "L a = [] \<Longrightarrow> list_header_remove_tail a s = Ret (NULL, s)"
    and "L a = xs @ [n] \<Longrightarrow>
      \<exists>s'. list_header_remove_tail a s = Ret (At n, s') \<and> hdrs s' D (L(a := xs))"
proof -
  have pos: "(count s a > 0) = (L a \<noteq> [])"
    using assms by (auto simp: hdrs_def intro!: header_count_pos)
  then show "L a = [] \<Longrightarrow> list_header_remove_tail a s = Ret (NULL, s)"
    by (simp add: list_header_remove_tail_def)
  assume L: "L a = xs @ [n]"
  then have "dlist (mem s) a (xs @ n # [])" using assms by (auto simp: hdrs_def)
  then have "prv (mem s a) = At n" by (drule_tac dlist_around(2)) (simp add: linked_def)
  with hdrs_del_init [OF assms, of xs n "[]"] L pos
  show "\<exists>s'. list_header_remove_tail a s = Ret (At n, s') \<and> hdrs s' D (L(a := xs))"
    by (auto simp: list_header_remove_tail_def)
qed

lemma hdrs_delete_node:
  assumes "hdrs s D L" "a \<in> D"
  shows "n \<notin> set (L a) \<Longrightarrow> list_header_delete_node a (At n) s = Ret (NULL, s)"
    and "n \<in> set (L a) \<Longrightarrow>
      \<exists>s'. list_header_delete_node a (At n) s = Ret (At n, s') \<and> hdrs s' D (L(a := remove1 n (L a)))"
proof -
  from assms have d: "dlist (mem s) a (L a)" by (simp add: hdrs_def)
  then show "n \<notin> set (L a) \<Longrightarrow> list_header_delete_node a (At n) s = Ret (NULL, s)"
    by (simp add: list_header_delete_node_def list_header_contains_ring)
  assume n: "n \<in> set (L a)"
  then obtain xs ys where L: "L a = xs @ n # ys" by (auto dest: split_list)
  with d have "n \<notin> set xs" by (auto simp: dlist_def)
  with L have r: "remove1 n (L a) = xs @ ys" by (simp add: remove1_append)
  show "\<exists>s'. list_header_delete_node a (At n) s = Ret (At n, s') \<and> hdrs s' D (L(a := remove1 n (L a)))"
    using hdrs_del_init [OF assms L] n unfolding r
    by (auto simp: list_header_delete_node_def list_header_contains_ring [OF d])
qed

lemma in_set_tlD: "q \<in> set (tl ms) \<Longrightarrow> q \<in> set ms"
  by (cases ms) auto

text \<open>Moving a segment of a ring to its tail.\<close>

lemma dlist_segment:
  assumes "dlist h a (xs @ ms @ ys)" "ms \<noteq> []"
  shows "linked h (last (a # xs)) (hd ms)" "linked h (last ms) (hd (ys @ [a]))"
    "distinct (a # xs @ ms @ ys)" "successively (linked h) (a # xs)" "successively (linked h) ms"
    "successively (linked h) (ys @ [a])"
proof -
  from assms have *: "distinct (a # xs @ ms @ ys)" "successively (linked h) (a # xs)"
    "successively (linked h) (ms @ ys @ [a])" "linked h (last (a # xs)) (hd ms)"
    unfolding dlist_cut by simp_all
  then show "linked h (last (a # xs)) (hd ms)" "distinct (a # xs @ ms @ ys)"
    "successively (linked h) (a # xs)" by blast+
  from *(3) assms(2) show "linked h (last ms) (hd (ys @ [a]))" "successively (linked h) ms"
    "successively (linked h) (ys @ [a])" by (simp_all add: successively_append_iff)
qed

lemma dlist_del_segment:
  assumes "dlist h a (xs @ ms @ ys)" "ms \<noteq> []"
  defines "h' \<equiv> del_heap (last (a # xs)) (hd (ys @ [a])) h"
  shows "dlist h' a (xs @ ys)" "successively (linked h') ms"
proof -
  let ?u = "last (a # xs)" and ?v = "hd (ys @ [a])"
  note seg = dlist_segment [OF assms(1,2)]
  from seg(3) have d: "distinct (a # xs @ ys)" by auto
  note ends = dlist_ends [OF d]
  have "successively (linked h') (a # xs)"
    by (rule successively_linked_frame [OF seg(4)]) (use ends(1,2) in \<open>auto simp: h'_def del_heap_def\<close>)
  moreover have "successively (linked h') (ys @ [a])"
    by (rule successively_linked_frame [OF seg(6)]) (use ends(3,4) in \<open>auto simp: h'_def del_heap_def\<close>)
  moreover have "linked h' ?u ?v" by (simp add: linked_def h'_def del_heap_def)
  ultimately show "dlist h' a (xs @ ys)" using d by (simp add: dlist_cut)
  have "?u \<in> set (a # xs)" by (rule last_in_set) simp
  moreover have "?v \<in> set (ys @ [a])" by (rule hd_in_set) simp
  ultimately have "?u \<notin> set ms" "?v \<notin> set ms" using seg(3) by auto
  then show "successively (linked h') ms"
    by (intro successively_linked_frame [OF seg(5)])
       (auto simp: h'_def del_heap_def dest: in_set_butlastD in_set_tlD)
qed

definition app_heap :: "'a \<Rightarrow> 'a \<Rightarrow> 'a \<Rightarrow> 'a \<Rightarrow> 'a heap \<Rightarrow> 'a heap" where
  "app_heap w f l a h p = \<lparr>nxt = if p = l then At a else if p = w then At f else nxt (h p),
                           prv = if p = a then At l else if p = f then At w else prv (h p)\<rparr>"

lemma dlist_app_heap:
  assumes "dlist h a zs" "successively (linked h) ms" "ms \<noteq> []" "distinct ms"
    "set ms \<inter> set (a # zs) = {}"
  shows "dlist (app_heap (last (a # zs)) (hd ms) (last ms) a h) a (zs @ ms)"
proof -
  let ?w = "last (a # zs)" and ?f = "hd ms" and ?l = "last ms"
  let ?h = "app_heap ?w ?f ?l a h"
  have w: "?w \<in> set (a # zs)" by (rule last_in_set) simp
  have fl: "?f \<in> set ms" "?l \<in> set ms" using assms(3) by simp_all
  have dz: "distinct (a # zs)" and lz: "successively (linked h) (a # zs)"
    using assms(1) dlist_cut [of h a zs "[]"] by simp_all
  have nw: "?w \<notin> set (butlast (a # zs))" using dlist_ends(1) [of a zs "[]"] dz by simp
  have "successively (linked ?h) (a # zs)"
    by (rule successively_linked_frame [OF lz])
       (use nw fl assms(5) dz in \<open>auto simp: app_heap_def split: if_splits dest: in_set_butlastD\<close>)
  moreover have "successively (linked ?h) ms"
  proof (rule successively_linked_frame [OF assms(2)])
    fix p assume "p \<in> set (butlast ms)"
    then have "p \<in> set ms - {?l}" using set_butlast_distinct [OF assms(4,3)] by simp
    then show "nxt (?h p) = nxt (h p)" using w assms(5) by (auto simp: app_heap_def)
  next
    fix q assume "q \<in> set (tl ms)"
    then have "q \<in> set ms - {?f}" using set_tl_distinct [OF assms(4,3)] by simp
    then show "prv (?h q) = prv (h q)" using assms(5) by (auto simp: app_heap_def)
  qed
  moreover have "linked ?h ?w ?f" "linked ?h ?l a"
    using w fl assms(5) by (auto simp: linked_def app_heap_def)
  ultimately have "successively (linked ?h) (ms @ [a])" using assms(3)
    by (simp add: successively_append_iff)
  then show ?thesis unfolding dlist_cut
    using \<open>successively (linked ?h) (a # zs)\<close> \<open>linked ?h ?w ?f\<close> dz assms(3,4,5) by auto
qed

lemma bulk1:
  assumes "linked h u f" "linked h l v" "u \<noteq> l"
  shows "bnd (rd_prev h (At f)) (\<lambda>fp. bnd (rd_next h (At l)) (\<lambda>ln. bnd (wr_next fp ln h) (\<lambda>h.
     bnd (rd_next h (At l)) (\<lambda>ln. bnd (rd_prev h (At f)) (\<lambda>fp. bnd (wr_prev ln fp h) K))))) = K (del_heap u v h)"
proof -
  let ?h1 = "h(u := h u\<lparr>nxt := At v\<rparr>)" let ?h2 = "?h1(v := ?h1 v\<lparr>prv := At u\<rparr>)"
  have "prv (h f) = At u" "nxt (h l) = At v" "nxt (?h1 l) = At v" "prv (?h1 f) = At u"
    using assms by (auto simp: linked_def)
  then have "bnd (rd_prev h (At f)) (\<lambda>fp. bnd (rd_next h (At l)) (\<lambda>ln. bnd (wr_next fp ln h) (\<lambda>h.
     bnd (rd_next h (At l)) (\<lambda>ln. bnd (rd_prev h (At f)) (\<lambda>fp. bnd (wr_prev ln fp h) K))))) = K ?h2"
    by (simp only: rd_prev.simps rd_next.simps wr_next.simps wr_prev.simps bnd.simps)
  moreover have "?h2 = del_heap u v h"
    by (rule ext) (simp add: del_heap_def)
  ultimately show ?thesis by simp
qed
lemma bulk2:
  assumes "prv (g a) = At w" "f \<noteq> a"
  shows "bnd (rd_prev g (At a)) (\<lambda>hp. bnd (wr_next hp (At f) g) (\<lambda>h.
     bnd (rd_prev h (At a)) (\<lambda>hp. bnd (wr_prev (At f) hp h) (\<lambda>h.
     bnd (wr_next (At l) (At a) h) (\<lambda>h. wr_prev (At a) (At l) h))))) = Ret (app_heap w f l a g)"
proof -
  let ?h3 = "g(w := g w\<lparr>nxt := At f\<rparr>)" let ?h4 = "?h3(f := ?h3 f\<lparr>prv := At w\<rparr>)"
  let ?h5 = "?h4(l := ?h4 l\<lparr>nxt := At a\<rparr>)" let ?h6 = "?h5(a := ?h5 a\<lparr>prv := At l\<rparr>)"
  have "prv (?h3 a) = At w" using assms by auto
  then have "bnd (rd_prev g (At a)) (\<lambda>hp. bnd (wr_next hp (At f) g) (\<lambda>h.
     bnd (rd_prev h (At a)) (\<lambda>hp. bnd (wr_prev (At f) hp h) (\<lambda>h.
     bnd (wr_next (At l) (At a) h) (\<lambda>h. wr_prev (At a) (At l) h))))) = Ret ?h6"
    using assms(1) by (simp only: rd_prev.simps wr_next.simps wr_prev.simps bnd.simps)
  moreover have "?h6 = app_heap w f l a g"
  proof
    fix p
    have "nxt (?h6 p) = nxt (app_heap w f l a g p)" by (simp add: app_heap_def)
    moreover have "prv (?h6 p) = prv (app_heap w f l a g p)" by (simp add: app_heap_def)
    ultimately show "?h6 p = app_heap w f l a g p" by (intro list_head.equality) simp_all
  qed
  ultimately show ?thesis by simp
qed

lemma list_bulk_move_tail_eq:
  assumes "linked h u f" "linked h l v" "prv (del_heap u v h a) = At w" "u \<noteq> l" "f \<noteq> a"
  shows "list_bulk_move_tail (At a) (At f) (At l) h = Ret (app_heap w f l a (del_heap u v h))"
  unfolding list_bulk_move_tail_def bulk1 [OF assms(1,2,4)]
  using assms(3,5) by (rule bulk2 [where g = "del_heap u v h"])

lemma list_bulk_move_tail_ring:
  assumes "dlist h a (xs @ ms @ ys)" "ms \<noteq> []"
  shows "\<exists>h'. list_bulk_move_tail (At a) (At (hd ms)) (At (last ms)) h = Ret h'
     \<and> dlist h' a (xs @ ys @ ms) \<and> (\<forall>p. p \<notin> set (a # xs @ ms @ ys) \<longrightarrow> h' p = h p)"
proof -
  let ?u = "last (a # xs)" and ?v = "hd (ys @ [a])" and ?w = "last (a # xs @ ys)"
  let ?h1 = "del_heap ?u ?v h" let ?h2 = "app_heap ?w (hd ms) (last ms) a ?h1"
  note seg = dlist_segment [OF assms] and del = dlist_del_segment [OF assms]
  have u: "?u \<in> set (a # xs)" by (rule last_in_set) simp
  have v: "?v \<in> set (ys @ [a])" by (rule hd_in_set) simp
  have w: "?w \<in> set (a # xs @ ys)" by (rule last_in_set) simp
  have ms: "hd ms \<in> set ms" "last ms \<in> set ms" using assms(2) by simp_all
  have "linked ?h1 ?w a"
    using dlist_cut [of ?h1 a "xs @ ys" "[]"] del(1) by simp
  moreover have "?u \<noteq> last ms" "hd ms \<noteq> a" using u ms seg(3) by auto
  ultimately have "list_bulk_move_tail (At a) (At (hd ms)) (At (last ms)) h = Ret ?h2"
    using list_bulk_move_tail_eq [OF seg(1,2)] by (simp add: linked_def)
  moreover have "dlist ?h2 a ((xs @ ys) @ ms)"
    by (rule dlist_app_heap [OF del assms(2)]) (use seg(3) in auto)
  moreover have "?h2 p = h p" if "p \<notin> set (a # xs @ ms @ ys)" for p
  proof -
    have "p \<noteq> ?u" "p \<noteq> ?v" "p \<noteq> ?w" "p \<noteq> hd ms" "p \<noteq> last ms" "p \<noteq> a"
      using u v w ms that by auto
    then show ?thesis by (simp add: app_heap_def del_heap_def del: last.simps)
  qed
  ultimately show ?thesis unfolding append_assoc by blast
qed

section \<open>The interface the clients use\<close>

text \<open>
  The contract of a family of counted lists: the operations a client calls and what each of
  them does to the lists the family represents.
\<close>

locale counted_lists =
  fixes rep :: "'s \<Rightarrow> 'a set \<Rightarrow> ('a \<Rightarrow> 'a list) \<Rightarrow> bool"
    and add_head :: "'a \<Rightarrow> 'a ptr \<Rightarrow> 's \<Rightarrow> 's outcome"
    and add_tail :: "'a \<Rightarrow> 'a ptr \<Rightarrow> 's \<Rightarrow> 's outcome"
    and remove_head :: "'a \<Rightarrow> 's \<Rightarrow> ('a ptr \<times> 's) outcome"
    and remove_tail :: "'a \<Rightarrow> 's \<Rightarrow> ('a ptr \<times> 's) outcome"
    and delete_node :: "'a \<Rightarrow> 'a ptr \<Rightarrow> 's \<Rightarrow> ('a ptr \<times> 's) outcome"
  assumes rep_distinct: "rep s D L \<Longrightarrow> a \<in> D \<Longrightarrow> distinct (a # L a)"
    and rep_disjoint: "rep s D L \<Longrightarrow> a \<in> D \<Longrightarrow> b \<in> D \<Longrightarrow> a \<noteq> b \<Longrightarrow>
      set (a # L a) \<inter> set (b # L b) = {}"
    and add_head: "rep s D L \<Longrightarrow> a \<in> D \<Longrightarrow> fresh D L n \<Longrightarrow> Suc (length (L a)) < 2 ^ 64 \<Longrightarrow>
      \<exists>s'. add_head a (At n) s = Ret s' \<and> rep s' D (L(a := n # L a))"
    and add_tail: "rep s D L \<Longrightarrow> a \<in> D \<Longrightarrow> fresh D L n \<Longrightarrow> Suc (length (L a)) < 2 ^ 64 \<Longrightarrow>
      \<exists>s'. add_tail a (At n) s = Ret s' \<and> rep s' D (L(a := L a @ [n]))"
    and remove_head_Nil: "rep s D L \<Longrightarrow> a \<in> D \<Longrightarrow> L a = [] \<Longrightarrow> remove_head a s = Ret (NULL, s)"
    and remove_head_Cons: "rep s D L \<Longrightarrow> a \<in> D \<Longrightarrow> L a = n # xs \<Longrightarrow>
      \<exists>s'. remove_head a s = Ret (At n, s') \<and> rep s' D (L(a := xs))"
    and remove_tail_Nil: "rep s D L \<Longrightarrow> a \<in> D \<Longrightarrow> L a = [] \<Longrightarrow> remove_tail a s = Ret (NULL, s)"
    and remove_tail_snoc: "rep s D L \<Longrightarrow> a \<in> D \<Longrightarrow> L a = xs @ [n] \<Longrightarrow>
      \<exists>s'. remove_tail a s = Ret (At n, s') \<and> rep s' D (L(a := xs))"
    and delete_absent: "rep s D L \<Longrightarrow> a \<in> D \<Longrightarrow> n \<notin> set (L a) \<Longrightarrow>
      delete_node a (At n) s = Ret (NULL, s)"
    and delete_member: "rep s D L \<Longrightarrow> a \<in> D \<Longrightarrow> n \<in> set (L a) \<Longrightarrow>
      \<exists>s'. delete_node a (At n) s = Ret (At n, s') \<and> rep s' D (L(a := remove1 n (L a)))"

text \<open>Adding a sequence of nodes, and removing a number of them.\<close>

fun run_adds :: "('a ptr \<Rightarrow> 's \<Rightarrow> 's outcome) \<Rightarrow> 'a list \<Rightarrow> 's \<Rightarrow> 's outcome" where
  "run_adds f [] s = Ret s"
| "run_adds f (n # ns) s = bnd (f (At n) s) (\<lambda>s. run_adds f ns s)"

fun run_removes :: "('s \<Rightarrow> ('a ptr \<times> 's) outcome) \<Rightarrow> nat \<Rightarrow> 's \<Rightarrow> ('a ptr list \<times> 's) outcome" where
  "run_removes f 0 s = Ret ([], s)"
| "run_removes f (Suc k) s =
     bnd (f s) (\<lambda>(p, s). bnd (run_removes f k s) (\<lambda>(ps, s). Ret (p # ps, s)))"

lemma fun_upd_twice: "(\<lambda>b. if b = a then x else if b = a then y else f b) = f(a := x)"
  and fun_upd_once: "(\<lambda>b. if b = a then x else f b) = f(a := x)"
  by auto

context counted_lists
begin

lemma run_add_tail:
  assumes "rep s D L" "a \<in> D" "distinct ns" "\<forall>n \<in> set ns. fresh D L n"
    "length (L a) + length ns < 2 ^ 64"
  shows "\<exists>s'. run_adds (add_tail a) ns s = Ret s' \<and> rep s' D (L(a := L a @ ns))"
  using assms
proof (induction ns arbitrary: s L)
  case (Cons n ns)
  obtain s1 where s1: "add_tail a (At n) s = Ret s1" "rep s1 D (L(a := L a @ [n]))"
    using add_tail [OF Cons.prems(1,2), of n] Cons.prems(4,5) by auto
  have "\<forall>m \<in> set ns. fresh D (L(a := L a @ [n])) m"
    using Cons.prems(2,3,4) by (auto simp: fresh_def)
  from Cons.IH [OF s1(2) Cons.prems(2) _ this] Cons.prems(3,5) s1(1) show ?case
    by (simp add: fun_upd_twice fun_upd_once)
qed auto

lemma run_add_head:
  assumes "rep s D L" "a \<in> D" "distinct ns" "\<forall>n \<in> set ns. fresh D L n"
    "length (L a) + length ns < 2 ^ 64"
  shows "\<exists>s'. run_adds (add_head a) ns s = Ret s' \<and> rep s' D (L(a := rev ns @ L a))"
  using assms
proof (induction ns arbitrary: s L)
  case (Cons n ns)
  obtain s1 where s1: "add_head a (At n) s = Ret s1" "rep s1 D (L(a := n # L a))"
    using add_head [OF Cons.prems(1,2), of n] Cons.prems(4,5) by auto
  have "\<forall>m \<in> set ns. fresh D (L(a := n # L a)) m"
    using Cons.prems(2,3,4) by (auto simp: fresh_def)
  from Cons.IH [OF s1(2) Cons.prems(2) _ this] Cons.prems(3,5) s1(1) show ?case
    by (simp add: fun_upd_twice fun_upd_once)
qed auto

lemma run_remove_head:
  assumes "rep s D L" "a \<in> D" "L a = ns @ xs"
  shows "\<exists>s'. run_removes (remove_head a) (length ns) s = Ret (map At ns, s') \<and> rep s' D (L(a := xs))"
  using assms
proof (induction ns arbitrary: s L)
  case (Cons n ns)
  obtain s1 where s1: "remove_head a s = Ret (At n, s1)" "rep s1 D (L(a := ns @ xs))"
    using remove_head_Cons [OF Cons.prems(1,2), of n "ns @ xs"] Cons.prems(3) by auto
  from Cons.IH [OF s1(2) Cons.prems(2)] s1(1) show ?case
    by (fastforce simp: fun_upd_twice fun_upd_once)
qed (auto simp: fun_upd_idem)

text \<open>Nodes put in at the tail come out at the head in the same order; put in at the head, in
  the opposite order. In both cases the family is back where it was.\<close>

lemma fifo:
  assumes "rep s D L" "a \<in> D" "L a = []" "distinct ns" "\<forall>n \<in> set ns. fresh D L n"
    "length ns < 2 ^ 64"
  shows "\<exists>s1 s2. run_adds (add_tail a) ns s = Ret s1
     \<and> run_removes (remove_head a) (length ns) s1 = Ret (map At ns, s2) \<and> rep s2 D L"
proof -
  obtain s1 where s1: "run_adds (add_tail a) ns s = Ret s1" "rep s1 D (L(a := ns))"
    using run_add_tail [OF assms(1,2,4,5)] assms(3,6) by auto
  then show ?thesis
    using run_remove_head [OF s1(2) assms(2), of ns "[]"] assms(3) by (auto simp: fun_upd_idem)
qed

lemma lifo:
  assumes "rep s D L" "a \<in> D" "distinct ns" "\<forall>n \<in> set ns. fresh D L n"
    "length (L a) + length ns < 2 ^ 64"
  shows "\<exists>s1 s2. run_adds (add_head a) ns s = Ret s1
     \<and> run_removes (remove_head a) (length ns) s1 = Ret (map At (rev ns), s2) \<and> rep s2 D L"
proof -
  obtain s1 where s1: "run_adds (add_head a) ns s = Ret s1" "rep s1 D (L(a := rev ns @ L a))"
    using run_add_head [OF assms] by auto
  then show ?thesis
    using run_remove_head [OF s1(2) assms(2), of "rev ns" "L a"] by (auto simp: fun_upd_idem)
qed

end

interpretation lh: counted_lists hdrs list_header_add_to_head list_header_add_to_tail
  list_header_remove_head list_header_remove_tail list_header_delete_node
proof unfold_locales
  show "distinct (a # L a)" if "hdrs s D L" "a \<in> D" for s D L and a :: 'a
    using that by (simp add: hdrs_def dlist_def)
  show "set (a # L a) \<inter> set (b # L b) = {}" if "hdrs s D L" "a \<in> D" "b \<in> D" "a \<noteq> b"
    for s D L and a b :: 'a using that unfolding hdrs_def by blast
qed (fact hdrs_add_to_head hdrs_add_to_tail hdrs_remove_head hdrs_remove_tail hdrs_delete_node)+

section \<open>Properties\<close>

definition self_linked :: "nat lists" where
  "self_linked = \<lparr>mem = \<lambda>p. \<lparr>nxt = At p, prv = At p\<rparr>, count = \<lambda>_. 0\<rparr>"

lemma hdrs_self_linked: "hdrs self_linked D (\<lambda>_. [])"
  by (simp add: hdrs_def self_linked_def dlist_self)

text \<open>
  C20. A counted list is a queue: nodes added at the tail of an empty list come out at the head
  in the order they went in, none of the calls traps or spins, and the whole family of lists
  is back in the state it represented before.
\<close>

theorem list_header_fifo:
  assumes "hdrs s D L" "a \<in> D" "L a = []" "distinct ns" "\<forall>n \<in> set ns. fresh D L n"
    "length ns < 2 ^ 64"
  shows "\<exists>s1 s2. run_adds (list_header_add_to_tail a) ns s = Ret s1
     \<and> run_removes (list_header_remove_head a) (length ns) s1 = Ret (map At ns, s2) \<and> hdrs s2 D L"
  using assms by (rule lh.fifo)

theorem list_header_fifo_witness:
  "\<exists>s1 s2. run_adds (list_header_add_to_tail 0) [7, 5, 9] self_linked = Ret s1
     \<and> run_removes (list_header_remove_head 0) (length [7, 5, 9 :: nat]) s1
         = Ret (map At [7, 5, 9], s2) \<and> hdrs s2 {0, 1} (\<lambda>_. [])"
  by (rule list_header_fifo) (simp_all add: hdrs_self_linked fresh_def)

text \<open>
  A counted list is a stack: nodes added at the head come out at the head in the opposite
  order, on top of whatever the list held.
\<close>

theorem list_header_lifo:
  assumes "hdrs s D L" "a \<in> D" "distinct ns" "\<forall>n \<in> set ns. fresh D L n"
    "length (L a) + length ns < 2 ^ 64"
  shows "\<exists>s1 s2. run_adds (list_header_add_to_head a) ns s = Ret s1
     \<and> run_removes (list_header_remove_head a) (length ns) s1 = Ret (map At (rev ns), s2)
     \<and> hdrs s2 D L"
  using assms by (rule lh.lifo)

theorem list_header_lifo_witness:
  "\<exists>s1 s2. run_adds (list_header_add_to_head 1) [7, 5] self_linked = Ret s1
     \<and> run_removes (list_header_remove_head 1) (length [7, 5 :: nat]) s1
         = Ret (map At (rev [7, 5]), s2) \<and> hdrs s2 {0, 1} (\<lambda>_. [])"
  by (rule list_header_lifo) (simp_all add: hdrs_self_linked fresh_def)

text \<open>
  C37. \<^verbatim>\<open>list_header_delete_node\<close> decides membership by walking the ring, and the walk always
  ends on a well-formed family: a member is unlinked (every other list keeps its contents), and
  for a node that is not in the list nothing changes and \<^verbatim>\<open>NULL\<close> is returned.
\<close>

theorem list_header_delete_node_correct:
  assumes "hdrs s D L" "a \<in> D"
  shows "\<exists>p s'. list_header_delete_node a (At n) s = Ret (p, s')
     \<and> hdrs s' D (L(a := remove1 n (L a)))
     \<and> p = (if n \<in> set (L a) then At n else NULL) \<and> (n \<notin> set (L a) \<longrightarrow> s' = s)"
proof (cases "n \<in> set (L a)")
  case True
  with lh.delete_member [OF assms True] show ?thesis by auto
next
  case False
  with lh.delete_absent [OF assms False] assms(1) show ?thesis
    by (simp add: remove1_idem)
qed

theorem list_header_delete_node_correct_witness:
  "\<exists>p s'. list_header_delete_node 0 (At 4) self_linked = Ret (p, s')
     \<and> hdrs s' {0 :: nat} ((\<lambda>_. [])(0 := remove1 4 []))
     \<and> p = (if 4 \<in> set ([] :: nat list) then At 4 else NULL)
     \<and> (4 \<notin> set ([] :: nat list) \<longrightarrow> s' = self_linked)"
  by (rule list_header_delete_node_correct) (simp_all add: hdrs_self_linked)

text \<open>
  \<^verbatim>\<open>list_del\<close> unlinks its entry and poisons it: the ring loses exactly that node, and a
  second \<^verbatim>\<open>list_del\<close> of the same entry is caught by the validity check, which never lets go.
\<close>

theorem list_del_twice_hangs:
  assumes "dlist h a (xs @ n # ys)"
  shows "\<exists>h'. list_del (At n) h = Ret h' \<and> dlist h' a (xs @ ys) \<and> list_del (At n) h' = Hang"
proof -
  obtain h1 where h1: "list_del_entry (At n) h = Ret h1" "dlist h1 a (xs @ ys)"
    using list_del_entry_ring [OF assms] by blast
  let ?h = "h1(n := \<lparr>nxt = LIST_POISON1, prv = LIST_POISON2\<rparr>)"
  have "n \<notin> set (a # xs @ ys)" using dlist_around(3) [OF assms] by auto
  then have "dlist ?h a (xs @ ys)" using h1(2) by (auto intro: dlist_frame)
  moreover have "list_del (At n) h = Ret ?h"
    using h1(1) by (auto simp: list_del_def fun_eq_iff)
  moreover have "list_del (At n) ?h = Hang"
    by (simp add: list_del_def list_del_entry_def list_del_entry_valid_def)
  ultimately show ?thesis by blast
qed

theorem list_del_twice_hangs_witness:
  "\<exists>h'. list_del (At 1) (\<lambda>p. \<lparr>nxt = At (1 - p), prv = At (1 - p)\<rparr>) = Ret h'
     \<and> dlist h' (0 :: nat) ([] @ []) \<and> list_del (At 1) h' = Hang"
  by (rule list_del_twice_hangs) (simp add: dlist_def linked_def)

text \<open>
  \<^verbatim>\<open>list_bulk_move_tail\<close> moves the segment between two entries to the tail of the ring,
  keeps the order of everything else and touches no other node.
\<close>

theorem list_bulk_move_tail_correct:
  assumes "dlist h a (xs @ ms @ ys)" "ms \<noteq> []"
  shows "\<exists>h'. list_bulk_move_tail (At a) (At (hd ms)) (At (last ms)) h = Ret h'
     \<and> dlist h' a (xs @ ys @ ms) \<and> (\<forall>p. p \<notin> set (a # xs @ ms @ ys) \<longrightarrow> h' p = h p)"
  using assms by (rule list_bulk_move_tail_ring)

theorem list_bulk_move_tail_correct_witness:
  "\<exists>h'. list_bulk_move_tail (At 0) (At (hd [1])) (At (last [1]))
        (\<lambda>p. \<lparr>nxt = At ((p + 1) mod 3), prv = At ((p + 2) mod 3)\<rparr>) = Ret h'
     \<and> dlist h' (0 :: nat) ([] @ [2] @ [1])
     \<and> (\<forall>p. p \<notin> set (0 # [] @ [1] @ [2]) \<longrightarrow>
          h' p = \<lparr>nxt = At ((p + 1) mod 3), prv = At ((p + 2) mod 3)\<rparr>)"
  by (rule list_bulk_move_tail_correct) (simp_all add: dlist_def linked_def)

end
