(* ===== verification/Memblock.thy ===== *)
theory Memblock
  imports Prelude
begin

unbundle bit_operations_syntax

text \<open>
  The early boot allocator of \<^verbatim>\<open>mykernel/mm/early/memblock.c\<close>: two sorted arrays of physical
  address ranges, \<^verbatim>\<open>memory\<close> (what the machine has) and \<^verbatim>\<open>reserved\<close> (what is taken).

  A region array is a function from indices to regions, of which the first \<^verbatim>\<open>cnt\<close> are live; the
  entries behind \<^verbatim>\<open>cnt\<close> keep what was last stored there, as in the source. Addresses, sizes and
  counts are 64-bit words and wrap as they do in C. The C \<^verbatim>\<open>int\<close> indices are \<open>int\<close>s; where the
  source compares one of them with an unsigned long it is converted first, so a negative index
  becomes a huge one. \<^verbatim>\<open>BUG_ON\<close> is the outcome \<open>Bug\<close>.
\<close>

section \<open>Regions\<close>

record mmblk_rgn =
  rgn_base :: phys_addr_t
  rgn_size :: phys_addr_t
  rgn_flags :: u32

record mmblk_type =
  cnt :: ulong
  max_cnt :: ulong
  total_size :: phys_addr_t
  regions :: "nat \<Rightarrow> mmblk_rgn"

record memblock =
  bottom_up :: bool
  current_limit :: phys_addr_t
  memory :: mmblk_type
  reserved :: mmblk_type

definition MEMBLOCK_NONE :: u32 where "MEMBLOCK_NONE = 0x0"
definition MEMBLOCK_HOTPLUG :: u32 where "MEMBLOCK_HOTPLUG = 0x1"
definition MEMBLOCK_MIRROR :: u32 where "MEMBLOCK_MIRROR = 0x2"
definition MEMBLOCK_NOMAP :: u32 where "MEMBLOCK_NOMAP = 0x4"
definition MEMBLOCK_DRIVER_MANAGED :: u32 where "MEMBLOCK_DRIVER_MANAGED = 0x8"

definition PHYS_ADDR_MAX :: phys_addr_t where "PHYS_ADDR_MAX = NOT 0"
definition MEMBLOCK_ALLOC_ANYWHERE :: phys_addr_t where "MEMBLOCK_ALLOC_ANYWHERE = NOT 0"
definition MEMBLOCK_ALLOC_ACCESSIBLE :: phys_addr_t where "MEMBLOCK_ALLOC_ACCESSIBLE = 0"
definition MEMBLOCK_ALLOC_NOLEAKTRACE :: phys_addr_t where "MEMBLOCK_ALLOC_NOLEAKTRACE = 1"
definition MEMBLOCK_LOW_LIMIT :: phys_addr_t where "MEMBLOCK_LOW_LIMIT = 0"
definition INIT_MEMBLOCK_REGIONS :: ulong where "INIT_MEMBLOCK_REGIONS = 128"

definition SMP_CACHE_BYTES :: ulong where "SMP_CACHE_BYTES = push_bit 6 1"
definition MAX_DMA_PFN :: ulong where "MAX_DMA_PFN = drop_bit PAGE_SHIFT (16 * 1024 * 1024)"
definition MAX_DMA32_PFN :: ulong where "MAX_DMA32_PFN = push_bit (32 - PAGE_SHIFT) 1"

definition round_up :: "ulong \<Rightarrow> ulong \<Rightarrow> ulong" where
  "round_up x y = ((x - 1) OR (y - 1)) + 1"

definition round_down :: "ulong \<Rightarrow> ulong \<Rightarrow> ulong" where
  "round_down x y = x AND NOT (y - 1)"

definition PFN_UP :: "ulong \<Rightarrow> ulong" where
  "PFN_UP x = drop_bit PAGE_SHIFT (x + PAGE_SIZE - 1)"

definition PFN_DOWN :: "ulong \<Rightarrow> ulong" where
  "PFN_DOWN x = drop_bit PAGE_SHIFT x"

definition clamp :: "ulong \<Rightarrow> ulong \<Rightarrow> ulong \<Rightarrow> ulong" where
  "clamp v lo hi = min (max v lo) hi"

text \<open>The static arrays start out zeroed and empty.\<close>

definition memblock_init :: memblock where
  "memblock_init =
     (let empty = (\<lambda>n. \<lparr>cnt = 0, max_cnt = n, total_size = 0,
                         regions = (\<lambda>_. \<lparr>rgn_base = 0, rgn_size = 0, rgn_flags = 0\<rparr>)\<rparr>)
      in \<lparr>bottom_up = True, current_limit = MEMBLOCK_ALLOC_ANYWHERE,
          memory = empty INIT_MEMBLOCK_REGIONS, reserved = empty (2 * INIT_MEMBLOCK_REGIONS)\<rparr>)"

section \<open>Adding and removing regions\<close>

definition memblock_cap_size :: "phys_addr_t \<Rightarrow> phys_addr_t \<Rightarrow> phys_addr_t" where
  "memblock_cap_size base sz = min sz (PHYS_ADDR_MAX - base)"

text \<open>\<open>memmove_down\<close> and \<open>memmove_up\<close> are the two calls of \<^verbatim>\<open>memmove\<close>, in units of a region.\<close>

definition memmove_down :: "(nat \<Rightarrow> 'a) \<Rightarrow> nat \<Rightarrow> nat \<Rightarrow> (nat \<Rightarrow> 'a)" where
  "memmove_down r i n k = (if i \<le> k \<and> k < i + n then r (Suc k) else r k)"

definition memmove_up :: "(nat \<Rightarrow> 'a) \<Rightarrow> nat \<Rightarrow> nat \<Rightarrow> (nat \<Rightarrow> 'a)" where
  "memmove_up r i n k = (if i < k \<and> k \<le> i + n then r (k - 1) else r k)"

definition simple_mmblk_remove_rgn :: "nat \<Rightarrow> mmblk_type \<Rightarrow> mmblk_type" where
  "simple_mmblk_remove_rgn rgn_idx t =
     t\<lparr>total_size := total_size t - rgn_size (regions t rgn_idx),
       regions := memmove_down (regions t) rgn_idx (unat (cnt t - (of_nat rgn_idx + 1))),
       cnt := cnt t - 1\<rparr>"

lemma word_succ_less:
  fixes w e :: ulong
  shows "w < e \<Longrightarrow> unat e - unat (w + 1) < unat e - unat w"
    and "w < e \<Longrightarrow> unat (e - 1) - unat w < unat e - unat w"
  by unat_arith+

function merge_loop :: "int \<Rightarrow> ulong \<Rightarrow> mmblk_type \<Rightarrow> mmblk_type outcome" where
  "merge_loop i end_rgn t =
     (if (word_of_int i :: ulong) < end_rgn
      then (let this = regions t (nat i); next = regions t (nat (i + 1));
                this_end = rgn_base this + rgn_size this
            in if this_end \<noteq> rgn_base next \<or> rgn_flags this \<noteq> rgn_flags next
               then (if this_end > rgn_base next then Bug else merge_loop (i + 1) end_rgn t)
               else merge_loop i (end_rgn - 1)
                      (simple_mmblk_remove_rgn (nat (i + 1))
                         (t\<lparr>regions := (regions t)(nat i := this\<lparr>rgn_size := rgn_size this + rgn_size next\<rparr>),
                            total_size := total_size t + rgn_size next\<rparr>)))
      else Ret t)"
  by pat_completeness auto
termination
  by (relation "measure (\<lambda>(i, e, t). unat e - unat (word_of_int i :: ulong))")
     (simp_all add: word_succ_less)

definition simple_mmblk_merge_rgn :: "ulong \<Rightarrow> ulong \<Rightarrow> mmblk_type \<Rightarrow> mmblk_type outcome" where
  "simple_mmblk_merge_rgn start_rgn end_rgn t =
     (let i = (if start_rgn \<noteq> 0 then sint (ucast (start_rgn - 1) :: u32) else 0);
          end_rgn = min end_rgn (cnt t - 1)
      in merge_loop i end_rgn t)"

definition memblock_insert_region ::
    "nat \<Rightarrow> phys_addr_t \<Rightarrow> phys_addr_t \<Rightarrow> u32 \<Rightarrow> mmblk_type \<Rightarrow> mmblk_type outcome" where
  "memblock_insert_region idx base sz flags t =
     (if cnt t \<ge> max_cnt t then Bug
      else let r = memmove_up (regions t) idx (unat (cnt t - of_nat idx))
           in Ret (t\<lparr>regions := r(idx := (r idx)\<lparr>rgn_base := base, rgn_size := sz\<rparr>),
                     cnt := cnt t + 1, total_size := total_size t + sz\<rparr>))"

text \<open>The loop of \<^verbatim>\<open>simple_mmblk_add_range\<close>; it is left by \<^verbatim>\<open>break\<close> or past the last index.\<close>

function add_range_loop ::
    "phys_addr_t \<Rightarrow> u32 \<Rightarrow> nat \<Rightarrow> phys_addr_t \<Rightarrow> mmblk_type \<Rightarrow> mmblk_type outcome" where
  "add_range_loop end flags idx base t =
     (if idx < unat (cnt t + 1)
      then (let rgn = regions t idx; prev = regions t (idx - 1) in
        if idx > 0 \<and> base < rgn_base prev + rgn_size prev then Bug
        else let rbase = rgn_base rgn; rend = rbase + rgn_size rgn in
        if rend \<le> base \<and> idx \<noteq> unat (cnt t) then add_range_loop end flags (idx + 1) base t
        else let insert_base = base;
                 insert_size = (if idx = unat (cnt t) \<or> rbase \<ge> end then end - base else rbase - base);
                 base' = (if idx = unat (cnt t) \<or> rbase \<ge> end then end else rend) in
        bnd (memblock_insert_region idx insert_base insert_size flags t) (\<lambda>t.
        bnd (simple_mmblk_merge_rgn (of_int (int idx - 1)) (of_nat idx) t) (\<lambda>t.
        if base' \<ge> end then Ret t else add_range_loop end flags (idx + 1) base' t)))
      else Ret t)"
  by pat_completeness auto
termination
proof (relation "measures [\<lambda>(end, flags, idx, base, t). unat end - unat base,
                           \<lambda>(end, flags, idx, base, t). unat (cnt t + 1) - idx]", goal_cases)
  case 1 show ?case by simp
next
  case 2 then show ?case by auto
next
  case (3 "end" flags idx base t rgn prev rbase rend insert_base insert_size base')
  then have "base < base'" "base' < end" by (auto split: if_splits)
  then have "unat end - unat base' < unat end - unat base" by unat_arith
  then show ?case by simp
qed

definition simple_mmblk_add_range ::
    "phys_addr_t \<Rightarrow> phys_addr_t \<Rightarrow> u32 \<Rightarrow> mmblk_type \<Rightarrow> (int \<times> mmblk_type) outcome" where
  "simple_mmblk_add_range base sz flags t =
     (let sz = memblock_cap_size base sz; end = base + sz
      in if sz = 0 then Ret (0, t)
         else bnd (add_range_loop end flags 0 base t) (\<lambda>t.
              if cnt t \<ge> max_cnt t - 2 then Bug else Ret (0, t)))"

definition simple_mmblk_add :: "phys_addr_t \<Rightarrow> phys_addr_t \<Rightarrow> memblock \<Rightarrow> (int \<times> memblock) outcome" where
  "simple_mmblk_add base sz mb =
     bnd (simple_mmblk_add_range base sz 0 (memory mb)) (\<lambda>(r, t). Ret (r, mb\<lparr>memory := t\<rparr>))"

definition simple_mmblk_reserve :: "phys_addr_t \<Rightarrow> phys_addr_t \<Rightarrow> memblock \<Rightarrow> (int \<times> memblock) outcome" where
  "simple_mmblk_reserve base sz mb =
     bnd (simple_mmblk_add_range base sz 0 (reserved mb)) (\<lambda>(r, t). Ret (r, mb\<lparr>reserved := t\<rparr>))"

section \<open>Walking the free ranges\<close>

definition memblock_is_hotpluggable :: "mmblk_rgn \<Rightarrow> bool" where
  "memblock_is_hotpluggable m \<longleftrightarrow> rgn_flags m AND MEMBLOCK_HOTPLUG \<noteq> 0"

definition memblock_is_mirror :: "mmblk_rgn \<Rightarrow> bool" where
  "memblock_is_mirror m \<longleftrightarrow> rgn_flags m AND MEMBLOCK_MIRROR \<noteq> 0"

definition memblock_is_nomap :: "mmblk_rgn \<Rightarrow> bool" where
  "memblock_is_nomap m \<longleftrightarrow> rgn_flags m AND MEMBLOCK_NOMAP \<noteq> 0"

definition memblock_is_driver_managed :: "mmblk_rgn \<Rightarrow> bool" where
  "memblock_is_driver_managed m \<longleftrightarrow> rgn_flags m AND MEMBLOCK_DRIVER_MANAGED \<noteq> 0"

text \<open>The first argument says whether the walked type is \<^verbatim>\<open>memblock.memory\<close>.\<close>

definition should_skip_region :: "bool \<Rightarrow> mmblk_rgn \<Rightarrow> u32 \<Rightarrow> bool" where
  "should_skip_region is_memory m flags =
     (if \<not> is_memory then False
      else if flags AND MEMBLOCK_HOTPLUG = 0 \<and> memblock_is_hotpluggable m then True
      else if flags AND MEMBLOCK_MIRROR \<noteq> 0 \<and> \<not> memblock_is_mirror m then True
      else if flags AND MEMBLOCK_NOMAP = 0 \<and> memblock_is_nomap m then True
      else if flags AND MEMBLOCK_DRIVER_MANAGED = 0 \<and> memblock_is_driver_managed m then True
      else False)"

text \<open>
  The inner loop over the gaps between the excluded regions. \<open>Inl\<close> is the \<^verbatim>\<open>return\<close> with the
  range found and the two advanced indices, \<open>Inr\<close> the index at which the loop was left.
\<close>

function scan_gaps ::
    "mmblk_type \<Rightarrow> phys_addr_t \<Rightarrow> phys_addr_t \<Rightarrow> int \<Rightarrow> int
       \<Rightarrow> (phys_addr_t \<times> phys_addr_t \<times> int \<times> int) + int" where
  "scan_gaps ex m_start m_end idx_a idx_b =
     (if (word_of_int idx_b :: ulong) < cnt ex + 1
      then (let r = regions ex (nat idx_b); r_prev = regions ex (nat (idx_b - 1));
                r_gap_start = (if idx_b = 0 then 0 else rgn_base r_prev + rgn_size r_prev);
                r_gap_end = (if (word_of_int idx_b :: ulong) < cnt ex then rgn_base r else PHYS_ADDR_MAX)
            in if m_end \<le> r_gap_start then Inr idx_b
               else if m_start < r_gap_end
               then Inl (max m_start r_gap_start, min m_end r_gap_end,
                         (if m_end \<le> r_gap_end then idx_a + 1 else idx_a),
                         (if m_end \<le> r_gap_end then idx_b else idx_b + 1))
               else scan_gaps ex m_start m_end idx_a (idx_b + 1))
      else Inr idx_b)"
  by pat_completeness auto
termination
  by (relation "measure (\<lambda>(ex, ms, me, a, b). unat (cnt ex + 1) - unat (word_of_int b :: ulong))")
     (simp_all add: word_succ_less)

function next_range_loop ::
    "u32 \<Rightarrow> bool \<Rightarrow> mmblk_type \<Rightarrow> mmblk_type \<Rightarrow> int \<Rightarrow> int
       \<Rightarrow> (phys_addr_t \<times> phys_addr_t \<times> int \<times> int) option" where
  "next_range_loop flags is_memory within ex idx_a idx_b =
     (if (word_of_int idx_a :: ulong) < cnt within
      then (let m = regions within (nat idx_a); m_start = rgn_base m; m_end = rgn_base m + rgn_size m
            in if should_skip_region is_memory m flags
               then next_range_loop flags is_memory within ex (idx_a + 1) idx_b
               else case scan_gaps ex m_start m_end idx_a idx_b of
                      Inl found \<Rightarrow> Some found
                    | Inr idx_b' \<Rightarrow> next_range_loop flags is_memory within ex (idx_a + 1) idx_b')
      else None)"
  by pat_completeness auto
termination
  by (relation "measure (\<lambda>(f, i, w, ex, a, b). unat (cnt w) - unat (word_of_int a :: ulong))")
     (simp_all add: word_succ_less)

text \<open>
  \<^verbatim>\<open>__simple_next_mem_range\<close>: the new value of the loop variable, and the range stored through
  the two output pointers, if one is.
\<close>

definition simple_next_mem_range ::
    "u64 \<Rightarrow> u32 \<Rightarrow> bool \<Rightarrow> mmblk_type \<Rightarrow> mmblk_type \<Rightarrow> u64 \<times> (phys_addr_t \<times> phys_addr_t) option" where
  "simple_next_mem_range idx flags is_memory within ex =
     (case next_range_loop flags is_memory within ex
             (sint (ucast (idx AND 0xffffffff) :: u32)) (sint (ucast (drop_bit 32 idx) :: u32)) of
        Some (s, e, idx_a, idx_b) \<Rightarrow>
          (ucast (word_of_int idx_a :: u32) OR push_bit 32 (word_of_int idx_b), Some (s, e))
      | None \<Rightarrow> (NOT 0, None))"

text \<open>
  The \<^verbatim>\<open>for_each_free_mem_range\<close> loop of \<^verbatim>\<open>__memblock_find_range_bottom_up\<close>, from loop variable
  \<open>i\<close> on; \<open>None\<close> is a loop that never ends.
\<close>

partial_function (option) find_range_loop ::
    "memblock \<Rightarrow> phys_addr_t \<Rightarrow> phys_addr_t \<Rightarrow> phys_addr_t \<Rightarrow> phys_addr_t \<Rightarrow> u32 \<Rightarrow> u64
       \<Rightarrow> phys_addr_t option" where
  "find_range_loop mb start end sz align flags i =
     (case simple_next_mem_range i flags True (memory mb) (reserved mb) of
        (i', None) \<Rightarrow> Some 0
      | (i', Some (s, e)) \<Rightarrow>
          if i' = NOT 0 then Some 0
          else let this_start = clamp s start end; this_end = clamp e start end;
                   cand = round_up this_start align
               in if cand < this_end \<and> this_end - cand \<ge> sz then Some cand
                  else find_range_loop mb start end sz align flags i')"

definition memblock_find_range_bottom_up ::
    "phys_addr_t \<Rightarrow> phys_addr_t \<Rightarrow> phys_addr_t \<Rightarrow> phys_addr_t \<Rightarrow> u32 \<Rightarrow> memblock \<Rightarrow> phys_addr_t outcome" where
  "memblock_find_range_bottom_up start end sz align flags mb =
     (case find_range_loop mb start end sz align flags 0 of None \<Rightarrow> Hang | Some a \<Rightarrow> Ret a)"

section \<open>Allocating\<close>

definition memblock_alloc_range ::
    "phys_addr_t \<Rightarrow> phys_addr_t \<Rightarrow> phys_addr_t \<Rightarrow> phys_addr_t \<Rightarrow> memblock
       \<Rightarrow> (phys_addr_t \<times> memblock) outcome" where
  "memblock_alloc_range sz align start end mb =
     (let flags = MEMBLOCK_NONE;
          align = (if align = 0 then SMP_CACHE_BYTES else align);
          end = (if end = MEMBLOCK_ALLOC_ACCESSIBLE \<or> end = MEMBLOCK_ALLOC_NOLEAKTRACE
                 then current_limit mb else end);
          start = max start PAGE_SIZE;
          end = max start end
      in bnd (memblock_find_range_bottom_up start end sz align flags mb) (\<lambda>found.
         if found \<noteq> 0
         then bnd (simple_mmblk_reserve found sz mb) (\<lambda>(r, mb).
              if r = 0 then Ret (found, mb) else Ret (0, mb))
         else Ret (0, mb)))"

text \<open>
  The callers below turn the physical address into a virtual one and clear the block; the
  model returns the physical address, 0 for \<^verbatim>\<open>NULL\<close>.
\<close>

definition memblock_alloc_internal ::
    "phys_addr_t \<Rightarrow> phys_addr_t \<Rightarrow> phys_addr_t \<Rightarrow> phys_addr_t \<Rightarrow> memblock
       \<Rightarrow> (phys_addr_t \<times> memblock) outcome" where
  "memblock_alloc_internal sz align min_addr max_addr mb =
     (let max_addr = (if max_addr > current_limit mb then current_limit mb else max_addr)
      in bnd (memblock_alloc_range sz align min_addr max_addr mb) (\<lambda>(alloc, mb).
         if alloc = 0 \<and> min_addr \<noteq> 0 then memblock_alloc_range sz align 0 max_addr mb
         else Ret (alloc, mb)))"

definition memblock_alloc :: "phys_addr_t \<Rightarrow> phys_addr_t \<Rightarrow> memblock \<Rightarrow> (phys_addr_t \<times> memblock) outcome" where
  "memblock_alloc sz align = memblock_alloc_internal sz align MEMBLOCK_LOW_LIMIT MEMBLOCK_ALLOC_ACCESSIBLE"

definition myos_memblock_alloc_DMA32 :: "ulong \<Rightarrow> ulong \<Rightarrow> memblock \<Rightarrow> (phys_addr_t \<times> memblock) outcome" where
  "myos_memblock_alloc_DMA32 sz align =
     memblock_alloc_internal sz align (push_bit PAGE_SHIFT MAX_DMA_PFN) (push_bit PAGE_SHIFT MAX_DMA32_PFN)"

definition myos_memblock_alloc_DMA :: "ulong \<Rightarrow> ulong \<Rightarrow> memblock \<Rightarrow> (phys_addr_t \<times> memblock) outcome" where
  "myos_memblock_alloc_DMA sz align =
     memblock_alloc_internal sz align MEMBLOCK_LOW_LIMIT (push_bit PAGE_SHIFT MAX_DMA_PFN)"

definition myos_memblock_alloc_normal :: "ulong \<Rightarrow> ulong \<Rightarrow> memblock \<Rightarrow> (phys_addr_t \<times> memblock) outcome" where
  "myos_memblock_alloc_normal sz align =
     memblock_alloc_internal sz align (push_bit PAGE_SHIFT MAX_DMA_PFN) MEMBLOCK_ALLOC_ACCESSIBLE"

section \<open>Trimming, page frame ranges, hand-over\<close>

text \<open>
  \<^verbatim>\<open>memblock_trim_memory\<close> walks from the last region down. After a removal the source steps the
  region pointer back itself, on top of the step of the loop.
\<close>

datatype trim = Keep | Shrink phys_addr_t phys_addr_t | Drop

definition trim_decide :: "ulong \<Rightarrow> mmblk_rgn \<Rightarrow> trim" where
  "trim_decide align rgn =
     (let orig_start = rgn_base rgn; orig_end = rgn_base rgn + rgn_size rgn;
          start = round_up orig_start align; end = round_down orig_end align
      in if start = orig_start \<and> end = orig_end then Keep
         else if start < end then Shrink start (end - start)
         else Drop)"

function trim_loop :: "ulong \<Rightarrow> int \<Rightarrow> mmblk_type \<Rightarrow> mmblk_type" where
  "trim_loop align r t =
     (if r \<ge> 0
      then (case trim_decide align (regions t (nat r)) of
              Keep \<Rightarrow> trim_loop align (r - 1) t
            | Shrink b z \<Rightarrow> trim_loop align (r - 1)
                (t\<lparr>regions := (regions t)(nat r := (regions t (nat r))\<lparr>rgn_base := b, rgn_size := z\<rparr>)\<rparr>)
            | Drop \<Rightarrow> trim_loop align (r - 1 - 1) (simple_mmblk_remove_rgn (nat r) t))
      else t)"
  by pat_completeness auto
termination by (relation "measure (\<lambda>(a, r, t). nat (r + 1))") auto

definition memblock_trim_memory :: "phys_addr_t \<Rightarrow> memblock \<Rightarrow> memblock" where
  "memblock_trim_memory align mb =
     mb\<lparr>memory := trim_loop align (sint (cnt (memory mb) - 1)) (memory mb)\<rparr>"

text \<open>The scan of \<^verbatim>\<open>__next_mem_pfn_range\<close> for the next region that holds a whole page.\<close>

function next_pfn_idx :: "mmblk_type \<Rightarrow> int \<Rightarrow> int" where
  "next_pfn_idx t i =
     (if (word_of_int (i + 1) :: ulong) < cnt t
      then (let r = regions t (nat (i + 1))
            in if PFN_UP (rgn_base r) < PFN_DOWN (rgn_base r + rgn_size r) then i + 1
               else next_pfn_idx t (i + 1))
      else i + 1)"
  by pat_completeness auto
termination
proof (relation "measure (\<lambda>(t, i). unat (cnt t) - unat (word_of_int (i + 1) :: ulong))", goal_cases)
  case (2 t i)
  then show ?case using word_succ_less(1) [of "word_of_int (i + 1)" "cnt t"]
    by (simp only: in_measure prod.case of_int_add of_int_1)
qed simp

definition next_mem_pfn_range :: "mmblk_type \<Rightarrow> int \<Rightarrow> int \<times> (ulong \<times> ulong) option" where
  "next_mem_pfn_range t idx =
     (let idx = next_pfn_idx t idx
      in if (word_of_int idx :: ulong) \<ge> cnt t then (-1, None)
         else let r = regions t (nat idx)
              in (idx, Some (PFN_UP (rgn_base r), PFN_DOWN (rgn_base r + rgn_size r))))"

text \<open>
  \<^verbatim>\<open>memblock_free_all\<close>. The value of the \<^verbatim>\<open>bsf\<close> behind \<^verbatim>\<open>__ffs\<close> on a zero word is left open by the
  processor; it is the parameter \<open>ffs0\<close>. The calls of \<^verbatim>\<open>memblock_free_pages\<close> are the pairs of frame
  number and order, in the order they are made.
\<close>

definition ffs_word :: "nat \<Rightarrow> ulong \<Rightarrow> nat" where
  "ffs_word ffs0 w = (if w = 0 then ffs0 else length (takeWhile (\<lambda>k. \<not> bit w k) [0..<64]))"

definition MAX_ORDER :: nat where "MAX_ORDER = 10"

text \<open>The inner \<^verbatim>\<open>while\<close>; an order that would drop below 0 is a shift by a negative count.\<close>

primrec fit_order :: "ulong \<Rightarrow> ulong \<Rightarrow> nat \<Rightarrow> nat outcome" where
  "fit_order start_pfn end_pfn 0 = (if start_pfn + 1 > end_pfn then Fault else Ret 0)"
| "fit_order start_pfn end_pfn (Suc n) =
     (if start_pfn + push_bit (Suc n) 1 > end_pfn then fit_order start_pfn end_pfn n else Ret (Suc n))"

lemma fit_order_fits: "fit_order s e n = Ret k \<Longrightarrow> k \<le> n \<and> s + push_bit k 1 \<le> e"
  by (induction n) (auto split: if_splits)

partial_function (option) cut_blocks ::
    "nat \<Rightarrow> ulong \<Rightarrow> ulong \<Rightarrow> (ulong \<times> nat) list \<Rightarrow> (ulong \<times> nat) list outcome option" where
  "cut_blocks ffs0 start_pfn end_pfn calls =
     (if start_pfn < end_pfn
      then (case fit_order start_pfn end_pfn (min MAX_ORDER (ffs_word ffs0 start_pfn)) of
              Ret order \<Rightarrow> cut_blocks ffs0 (start_pfn + push_bit order 1) end_pfn (calls @ [(start_pfn, order)])
            | _ \<Rightarrow> Some Fault)
      else Some (Ret calls))"

partial_function (option) free_all_loop ::
    "nat \<Rightarrow> ulong \<Rightarrow> memblock \<Rightarrow> u64 \<Rightarrow> (ulong \<times> nat) list \<Rightarrow> (ulong \<times> nat) list outcome option" where
  "free_all_loop ffs0 max_low_pfn mb i calls =
     (case simple_next_mem_range i MEMBLOCK_NONE True (memory mb) (reserved mb) of
        (i', None) \<Rightarrow> Some (Ret calls)
      | (i', Some (s, e)) \<Rightarrow>
          if i' = NOT 0 then Some (Ret calls)
          else let start_pfn = PFN_UP s; end_pfn = min (PFN_DOWN e) max_low_pfn
               in if start_pfn \<ge> end_pfn then free_all_loop ffs0 max_low_pfn mb i' calls
                  else Option.bind (cut_blocks ffs0 start_pfn end_pfn calls) (\<lambda>out.
                       case out of Ret calls \<Rightarrow> free_all_loop ffs0 max_low_pfn mb i' calls
                                 | _ \<Rightarrow> Some Fault))"

definition memblock_free_all :: "nat \<Rightarrow> ulong \<Rightarrow> memblock \<Rightarrow> (ulong \<times> nat) list outcome" where
  "memblock_free_all ffs0 max_low_pfn mb =
     (case free_all_loop ffs0 max_low_pfn mb 0 [] of None \<Rightarrow> Hang | Some r \<Rightarrow> r)"

text \<open>
  \<^verbatim>\<open>memmap_init_reserved_pages\<close>: the arguments of the calls of \<^verbatim>\<open>reserve_bootmem_region\<close>, for every
  region the \<^verbatim>\<open>for_each_memblock_type\<close> loop visits.
\<close>

definition memmap_init_reserved_pages :: "memblock \<Rightarrow> (phys_addr_t \<times> phys_addr_t) list" where
  "memmap_init_reserved_pages mb =
     map (\<lambda>i. let region = regions (reserved mb) i in (rgn_base region, rgn_base region + rgn_size region))
       [0..<unat (cnt (reserved mb) + 1)]"

declare merge_loop.simps [simp del] add_range_loop.simps [simp del] scan_gaps.simps [simp del]
  next_range_loop.simps [simp del] trim_loop.simps [simp del] next_pfn_idx.simps [simp del]
  find_range_loop.simps [code] cut_blocks.simps [code] free_all_loop.simps [code]

section \<open>The live regions as a list\<close>

definition rgns :: "mmblk_type \<Rightarrow> mmblk_rgn list" where
  "rgns t = map (regions t) [0..<unat (cnt t)]"

definition rgn_end :: "mmblk_rgn \<Rightarrow> nat" where
  "rgn_end r = unat (rgn_base r) + unat (rgn_size r)"

definition rgn_addrs :: "mmblk_rgn \<Rightarrow> nat set" where
  "rgn_addrs r = {unat (rgn_base r)..<rgn_end r}"

definition addrs :: "mmblk_rgn list \<Rightarrow> nat set" where
  "addrs rs = \<Union> (rgn_addrs ` set rs)"

definition covers :: "mmblk_type \<Rightarrow> nat set" where
  "covers t = addrs (rgns t)"

text \<open>Live regions are not empty, do not wrap, are sorted and do not overlap.\<close>

definition wf_rgns :: "mmblk_rgn list \<Rightarrow> bool" where
  "wf_rgns rs \<longleftrightarrow> (\<forall>r \<in> set rs. rgn_size r \<noteq> 0 \<and> rgn_end r < 2 ^ 64)
     \<and> sorted_wrt (\<lambda>r s. rgn_end r \<le> unat (rgn_base s)) rs"

definition wf_type :: "mmblk_type \<Rightarrow> bool" where
  "wf_type t \<longleftrightarrow> wf_rgns (rgns t) \<and> cnt t \<le> max_cnt t \<and> unat (max_cnt t) < 2 ^ 31"

lemma length_rgns [simp]: "length (rgns t) = unat (cnt t)"
  by (simp add: rgns_def)

lemma nth_rgns [simp]: "k < unat (cnt t) \<Longrightarrow> rgns t ! k = regions t k"
  by (simp add: rgns_def)

lemma addrs_simps [simp]:
  "addrs [] = {}" "addrs (r # rs) = rgn_addrs r \<union> addrs rs" "addrs (rs @ ss) = addrs rs \<union> addrs ss"
  by (auto simp: addrs_def)

lemma unat_rgn_end: "rgn_end r < 2 ^ 64 \<Longrightarrow> unat (rgn_base r + rgn_size r) = rgn_end r"
  by (simp add: rgn_end_def unat_word_ariths)

lemma wf_rgns_append:
  "wf_rgns (rs @ ss) \<longleftrightarrow> wf_rgns rs \<and> wf_rgns ss
     \<and> (\<forall>r \<in> set rs. \<forall>s \<in> set ss. rgn_end r \<le> unat (rgn_base s))"
  by (auto simp: wf_rgns_def sorted_wrt_append)

lemma wf_rgns_Cons:
  "wf_rgns (r # rs) \<longleftrightarrow> rgn_size r \<noteq> 0 \<and> rgn_end r < 2 ^ 64 \<and> wf_rgns rs
     \<and> (\<forall>s \<in> set rs. rgn_end r \<le> unat (rgn_base s))"
  by (auto simp: wf_rgns_def)

lemma wf_rgns_Nil [simp]: "wf_rgns []"
  by (simp add: wf_rgns_def)

lemmas wf_rgns_simps = wf_rgns_append wf_rgns_Cons

text \<open>The array operations on that list.\<close>

lemma remove_rgn_frame [simp]:
  "cnt (simple_mmblk_remove_rgn i t) = cnt t - 1"
  "max_cnt (simple_mmblk_remove_rgn i t) = max_cnt t"
  "total_size (simple_mmblk_remove_rgn i t) = total_size t - rgn_size (regions t i)"
  by (simp_all add: simple_mmblk_remove_rgn_def)

lemma rgns_remove_rgn:
  assumes "i < unat (cnt t)"
  shows "rgns (simple_mmblk_remove_rgn i t) = take i (rgns t) @ drop (Suc i) (rgns t)"
proof (rule nth_equalityI)
  have c: "unat (cnt t - 1) = unat (cnt t) - 1" using assms by unat_arith
  have "unat (of_nat i :: ulong) = i" using assms by (simp add: le_unat_uoi [of _ "cnt t"])
  then have n: "unat (cnt t - (of_nat i + 1)) = unat (cnt t) - Suc i"
    using assms by unat_arith
  show l: "length (rgns (simple_mmblk_remove_rgn i t)) = length (take i (rgns t) @ drop (Suc i) (rgns t))"
    using assms c by simp
  fix k assume "k < length (rgns (simple_mmblk_remove_rgn i t))"
  then show "rgns (simple_mmblk_remove_rgn i t) ! k = (take i (rgns t) @ drop (Suc i) (rgns t)) ! k"
    using assms c n
    by (auto simp: nth_append simple_mmblk_remove_rgn_def memmove_down_def min_def)
qed

lemma rgn_upd_eq:
  "r\<lparr>rgn_base := b, rgn_size := z\<rparr> = \<lparr>rgn_base = b, rgn_size = z, rgn_flags = rgn_flags (r :: mmblk_rgn)\<rparr>"
  by simp

lemma rgns_insert_region:
  assumes "memblock_insert_region idx b z fl t = Ret t'" "idx \<le> unat (cnt t)"
  shows "\<exists>f. rgns t' = take idx (rgns t) @ \<lparr>rgn_base = b, rgn_size = z, rgn_flags = f\<rparr> # drop idx (rgns t)"
    "cnt t' = cnt t + 1" "unat (cnt t') = Suc (unat (cnt t))" "max_cnt t' = max_cnt t"
    "total_size t' = total_size t + z"
proof -
  let ?r = "memmove_up (regions t) idx (unat (cnt t - of_nat idx))"
  from assms(1) have lt: "cnt t < max_cnt t" and t': "t' = t\<lparr>regions := ?r(idx := (?r idx)\<lparr>rgn_base := b, rgn_size := z\<rparr>),
                     cnt := cnt t + 1, total_size := total_size t + z\<rparr>"
    by (auto simp: memblock_insert_region_def Let_def split: if_splits)
  from lt have c: "unat (cnt t + 1) = Suc (unat (cnt t))" by unat_arith
  with t' show "cnt t' = cnt t + 1" "unat (cnt t') = Suc (unat (cnt t))" "max_cnt t' = max_cnt t"
    "total_size t' = total_size t + z" by simp_all
  have "unat (of_nat idx :: ulong) = idx" using assms(2) by (rule le_unat_uoi)
  then have n: "unat (cnt t - of_nat idx) = unat (cnt t) - idx" using assms(2) by unat_arith
  have "rgns t' = take idx (rgns t) @ (?r idx)\<lparr>rgn_base := b, rgn_size := z\<rparr> # drop idx (rgns t)"
  proof (rule nth_equalityI)
    show "length (rgns t') = length (take idx (rgns t) @ (?r idx)\<lparr>rgn_base := b, rgn_size := z\<rparr> # drop idx (rgns t))"
      using assms(2) c t' by simp
    fix k assume k: "k < length (rgns t')"
    show "rgns t' ! k = (take idx (rgns t) @ (?r idx)\<lparr>rgn_base := b, rgn_size := z\<rparr> # drop idx (rgns t)) ! k"
    proof (cases "k \<le> idx")
      case True
      then show ?thesis using assms(2) k c t' n
        by (cases "k = idx") (auto simp: nth_append min_def memmove_up_def)
    next
      case False
      then obtain m where m: "k = Suc m" "idx \<le> m" by (cases k) auto
      then show ?thesis using assms(2) k c t' n
        by (auto simp: nth_append min_def memmove_up_def nth_Cons' Suc_diff_le)
    qed
  qed
  then show "\<exists>f. rgns t' = take idx (rgns t) @ \<lparr>rgn_base = b, rgn_size = z, rgn_flags = f\<rparr> # drop idx (rgns t)"
    unfolding rgn_upd_eq by blast
qed

text \<open>Two neighbours joined.\<close>

definition join2 :: "mmblk_rgn \<Rightarrow> mmblk_rgn \<Rightarrow> mmblk_rgn" where
  "join2 r s = r\<lparr>rgn_size := rgn_size r + rgn_size s\<rparr>"

lemma join2_facts:
  assumes "rgn_base r + rgn_size r = rgn_base s" "rgn_end r < 2 ^ 64" "rgn_end s < 2 ^ 64"
    "rgn_size r \<noteq> 0"
  shows "rgn_base (join2 r s) = rgn_base r" "rgn_end (join2 r s) = rgn_end s"
    "rgn_addrs (join2 r s) = rgn_addrs r \<union> rgn_addrs s" "rgn_size (join2 r s) \<noteq> 0"
proof -
  from assms(1,2) have b: "unat (rgn_base s) = rgn_end r" by (metis unat_rgn_end)
  then have e: "rgn_end s = unat (rgn_base r) + (unat (rgn_size r) + unat (rgn_size s))"
    by (simp add: rgn_end_def)
  with assms(3) have u: "unat (rgn_size r + rgn_size s) = unat (rgn_size r) + unat (rgn_size s)"
    by (simp add: unat_word_ariths)
  show "rgn_base (join2 r s) = rgn_base r" by (simp add: join2_def)
  show "rgn_end (join2 r s) = rgn_end s" using e u by (simp add: rgn_end_def join2_def)
  then show "rgn_addrs (join2 r s) = rgn_addrs r \<union> rgn_addrs s"
    using b e by (auto simp: rgn_addrs_def join2_def rgn_end_def)
  have "unat (rgn_size (join2 r s)) \<noteq> 0" using u assms(4) by (simp add: join2_def unat_eq_zero)
  then show "rgn_size (join2 r s) \<noteq> 0" by (simp add: unat_eq_zero)
qed

lemma wf_rgns_join2:
  assumes "wf_rgns (xs @ r # s # ys)" "rgn_base r + rgn_size r = rgn_base s"
  shows "wf_rgns (xs @ join2 r s # ys)" "addrs (xs @ join2 r s # ys) = addrs (xs @ r # s # ys)"
proof -
  from assms(1) have w: "rgn_size r \<noteq> 0" "rgn_end r < 2 ^ 64" "rgn_end s < 2 ^ 64"
    by (auto simp: wf_rgns_simps)
  note j = join2_facts [OF assms(2) w(2,3,1)]
  show "wf_rgns (xs @ join2 r s # ys)" using assms(1) j by (auto simp: wf_rgns_simps)
  show "addrs (xs @ join2 r s # ys) = addrs (xs @ r # s # ys)" using j(3) by auto
qed

declare merge_loop.simps [simp del] add_range_loop.simps [simp del]

lemma split_at2:
  assumes "Suc i < length xs"
  shows "xs = take i xs @ xs ! i # xs ! Suc i # drop (Suc (Suc i)) xs"
  using assms by (metis Cons_nth_drop_Suc Suc_lessD append_take_drop_id)

lemma rgns_join:
  assumes "Suc i < unat (cnt t)"
  defines "t' \<equiv> simple_mmblk_remove_rgn (Suc i)
     (t\<lparr>regions := (regions t)(i := (regions t i)\<lparr>rgn_size := rgn_size (regions t i) + rgn_size (regions t (Suc i))\<rparr>),
        total_size := total_size t + rgn_size (regions t (Suc i))\<rparr>)"
  shows "rgns t' = take i (rgns t) @ join2 (regions t i) (regions t (Suc i)) # drop (Suc (Suc i)) (rgns t)"
    and "total_size t' = total_size t"
proof -
  let ?t = "t\<lparr>regions := (regions t)(i := (regions t i)\<lparr>rgn_size := rgn_size (regions t i) + rgn_size (regions t (Suc i))\<rparr>),
        total_size := total_size t + rgn_size (regions t (Suc i))\<rparr>"
  have "rgns ?t = (rgns t)[i := join2 (regions t i) (regions t (Suc i))]"
    by (rule nth_equalityI) (auto simp: rgns_def join2_def nth_list_update)
  moreover have "rgns t' = take (Suc i) (rgns ?t) @ drop (Suc (Suc i)) (rgns ?t)"
    unfolding t'_def by (rule rgns_remove_rgn) (use assms(1) in simp)
  ultimately show "rgns t' = take i (rgns t) @ join2 (regions t i) (regions t (Suc i)) # drop (Suc (Suc i)) (rgns t)"
    using assms(1) by (simp add: take_Suc_conv_app_nth take_update_swap list_update_append)
  show "total_size t' = total_size t" by (simp add: t'_def)
qed

lemma merge_loop_ok:
  assumes "wf_type t" "0 \<le> i" "unat e < unat (cnt t)" "i < 2 ^ 32"
  shows "\<exists>t'. merge_loop i e t = Ret t' \<and> wf_type t' \<and> covers t' = covers t
     \<and> total_size t' = total_size t \<and> max_cnt t' = max_cnt t \<and> cnt t' \<le> cnt t"
  using assms
proof (induction i e t rule: merge_loop.induct)
  case (1 i e t)
  show ?case
  proof (cases "(word_of_int i :: ulong) < e")
    case False
    with 1 show ?thesis by (simp add: merge_loop.simps [of i e t])
  next
    case True
    have "i < 2 ^ 64" using "1.prems"(4) by simp
    then have ui: "unat (word_of_int i :: ulong) = nat i" using "1.prems"(2)
      by (simp add: unat_eq_nat_uint uint_word_of_int_eq take_bit_eq_mod)
    with True have ie: "nat i < unat e" by (simp add: word_less_nat_alt)
    have si: "nat (i + 1) = Suc (nat i)" using "1.prems"(2) by simp
    have "unat (cnt t) < 2 ^ 31" using "1.prems"(1) unfolding wf_type_def word_le_nat_alt by linarith
    with ie "1.prems"(3) have "nat i < 2 ^ 31" by linarith
    then have i32: "i + 1 < 2 ^ 32" using "1.prems"(2) by (simp add: nat_less_iff)
    let ?r = "regions t (nat i)" and ?s = "regions t (Suc (nat i))"
    let ?xs = "take (nat i) (rgns t)" and ?ys = "drop (Suc (Suc (nat i))) (rgns t)"
    have len: "Suc (nat i) < unat (cnt t)" using ie "1.prems"(3) by simp
    then have rs: "rgns t = ?xs @ ?r # ?s # ?ys" using split_at2 [of "nat i" "rgns t"] by simp
    have wf: "wf_rgns (?xs @ ?r # ?s # ?ys)" using "1.prems"(1) unfolding wf_type_def rs [symmetric] by blast
    then have ends: "rgn_end ?r < 2 ^ 64" "rgn_end ?r \<le> unat (rgn_base ?s)"
      by (auto simp: wf_rgns_simps)
    then have nb: "\<not> rgn_base ?r + rgn_size ?r > rgn_base ?s"
      by (simp add: word_less_nat_alt unat_rgn_end)
    show ?thesis
    proof (cases "rgn_base ?r + rgn_size ?r \<noteq> rgn_base ?s \<or> rgn_flags ?r \<noteq> rgn_flags ?s")
      case True
      note step = this
      have "merge_loop i e t = merge_loop (i + 1) e t"
        using \<open>word_of_int i < e\<close> nb step by (simp add: merge_loop.simps [of i e t] si Let_def)
      moreover have "\<exists>t'. merge_loop (i + 1) e t = Ret t' \<and> wf_type t' \<and> covers t' = covers t
          \<and> total_size t' = total_size t \<and> max_cnt t' = max_cnt t \<and> cnt t' \<le> cnt t"
        by (rule "1.IH"(1) [OF \<open>word_of_int i < e\<close> refl refl refl])
           (use step nb "1.prems" si i32 in auto)
      ultimately show ?thesis by simp
    next
      case False
      then have adj: "rgn_base ?r + rgn_size ?r = rgn_base ?s" by simp
      define t1 where "t1 = simple_mmblk_remove_rgn (Suc (nat i))
         (t\<lparr>regions := (regions t)(nat i := ?r\<lparr>rgn_size := rgn_size ?r + rgn_size ?s\<rparr>),
            total_size := total_size t + rgn_size ?s\<rparr>)"
      have r1: "rgns t1 = ?xs @ join2 ?r ?s # ?ys" "total_size t1 = total_size t"
        unfolding t1_def by (rule rgns_join [OF len])+
      have c1: "cnt t1 = cnt t - 1" "max_cnt t1 = max_cnt t" by (simp_all add: t1_def)
      have uc: "unat (cnt t - 1) = unat (cnt t) - 1" "cnt t - 1 \<le> cnt t" using len by unat_arith+
      have wf1: "wf_type t1"
        using wf_rgns_join2(1) [OF wf adj] "1.prems"(1) r1(1) c1 uc(2) by (auto simp: wf_type_def)
      have cov1: "covers t1 = covers t"
        using wf_rgns_join2(2) [OF wf adj] unfolding covers_def r1(1) rs [symmetric] .
      have "merge_loop i e t = merge_loop i (e - 1) t1"
        using \<open>word_of_int i < e\<close> False by (simp add: merge_loop.simps [of i e t] si Let_def t1_def)
      moreover have "\<exists>t'. merge_loop i (e - 1) t1 = Ret t' \<and> wf_type t' \<and> covers t' = covers t1
          \<and> total_size t' = total_size t1 \<and> max_cnt t' = max_cnt t1 \<and> cnt t' \<le> cnt t1"
      proof -
        have "unat (e - 1) < unat (cnt t1)" using ie "1.prems"(3) c1 uc by unat_arith
        from "1.IH"(2) [OF \<open>word_of_int i < e\<close> refl refl refl, unfolded si, folded t1_def] False wf1 "1.prems"(2,4) this
        show ?thesis by simp
      qed
      ultimately show ?thesis using cov1 r1(2) c1 uc(2) by (metis order_trans)
    qed
  qed
qed

lemma merge_rgn_ok:
  assumes "wf_type t" "idx < unat (cnt t)"
  shows "\<exists>t'. simple_mmblk_merge_rgn (of_int (int idx - 1)) (of_nat idx) t = Ret t' \<and> wf_type t'
     \<and> covers t' = covers t \<and> total_size t' = total_size t \<and> max_cnt t' = max_cnt t \<and> cnt t' \<le> cnt t"
proof (cases "idx = 0")
  case True
  have "ucast ((- 1 :: ulong) - 1) = (- 2 :: u32)" by simp
  then show ?thesis using True assms(1)
    by (simp add: simple_mmblk_merge_rgn_def merge_loop.simps)
next
  case False
  have c31: "unat (cnt t) < 2 ^ 31" using assms(1) unfolding wf_type_def word_le_nat_alt by linarith
  have w: "of_int (int idx - 1) = (of_nat (idx - 1) :: ulong)" using False by (simp add: of_nat_diff)
  have u: "unat (of_nat k :: ulong) = k" if "k \<le> idx" for k
    using that assms(2) by (intro le_unat_uoi [of _ "cnt t"]) simp
  define i where "i = (if (of_nat (idx - 1) :: ulong) \<noteq> 0 then sint (ucast (of_nat (idx - 1) - 1 :: ulong) :: u32) else 0)"
  have i: "i = int (idx - 2)"
  proof (cases "idx = 1")
    case True
    then show ?thesis by (simp add: i_def)
  next
    case False
    then obtain k where k: "idx = Suc (Suc k)" using \<open>idx \<noteq> 0\<close> by (metis One_nat_def old.nat.exhaust)
    have "(of_nat (idx - 1) :: ulong) \<noteq> 0" using u [of "idx - 1"] k by (metis diff_Suc_1 diff_le_self nat.distinct(1) unat_0)
    moreover have "of_nat (idx - 1) - 1 = (of_nat k :: ulong)" using k by simp
    moreover have "ucast (of_nat k :: ulong) = (of_nat k :: u32)" 
      using u [of k] k by (metis Suc_leD le_refl le_SucI of_nat_unat ucast_eq unsigned_of_nat word_of_int_uint uint_nat of_int_of_nat_eq)
    moreover have "sint (of_nat k :: u32) = int k"
      
      using k c31 assms(2) by (simp add: signed_of_nat signed_take_bit_int_eq_self)
    ultimately show ?thesis using k by (simp add: i_def)
  qed
  have "min (of_nat idx) (cnt t - 1) = (of_nat idx :: ulong)"
  proof -
    have "unat (cnt t - 1) = unat (cnt t) - 1" using assms(2) by unat_arith
    then have "of_nat idx \<le> cnt t - 1" using u [of idx] assms(2) unfolding word_le_nat_alt by linarith
    then show ?thesis by (rule min_absorb1)
  qed
  then have "simple_mmblk_merge_rgn (of_int (int idx - 1)) (of_nat idx) t = merge_loop i (of_nat idx) t"
    unfolding simple_mmblk_merge_rgn_def w i_def Let_def by simp
  moreover have "idx < 2 ^ 31" using assms(2) c31 by linarith
  ultimately show ?thesis
    using merge_loop_ok [OF assms(1), of i "of_nat idx"] u [of idx] assms(2) i by simp
qed

lemma insert_region_ok:
  assumes "wf_type t" "idx \<le> unat (cnt t)" "cnt t < max_cnt t"
    and "b < e" "\<And>r. r \<in> set (take idx (rgns t)) \<Longrightarrow> rgn_end r \<le> unat b"
    and "\<And>r. r \<in> set (drop idx (rgns t)) \<Longrightarrow> unat e \<le> unat (rgn_base r)"
  shows "\<exists>t'. memblock_insert_region idx b (e - b) fl t = Ret t' \<and> wf_type t'
    \<and> covers t' = covers t \<union> {unat b..<unat e} \<and> total_size t' = total_size t + (e - b)
    \<and> max_cnt t' = max_cnt t \<and> cnt t' = cnt t + 1"
proof -
  have "\<exists>t'. memblock_insert_region idx b (e - b) fl t = Ret t'"
    using assms(3) unfolding memblock_insert_region_def Let_def by (auto simp: not_le [symmetric])
  then obtain t' where t': "memblock_insert_region idx b (e - b) fl t = Ret t'" ..
  note ins = rgns_insert_region [OF t' assms(2)]
  from ins(1) obtain f where
    f: "rgns t' = take idx (rgns t) @ \<lparr>rgn_base = b, rgn_size = e - b, rgn_flags = f\<rparr> # drop idx (rgns t)" ..
  have sz: "unat b + unat (e - b) = unat e" using assms(4) by unat_arith
  then have a: "rgn_addrs \<lparr>rgn_base = b, rgn_size = e - b, rgn_flags = f\<rparr> = {unat b..<unat e}"
    and en: "rgn_end \<lparr>rgn_base = b, rgn_size = e - b, rgn_flags = f\<rparr> = unat e"
    by (auto simp: rgn_addrs_def rgn_end_def)
  have el: "unat e < 2 ^ 64" using unsigned_less [of e] by simp
  from assms(1) have "wf_rgns (take idx (rgns t) @ drop idx (rgns t))" by (simp add: wf_type_def)
  note w = this [unfolded wf_rgns_append]
  then have "wf_rgns (rgns t')" using assms(4-6) en f el by (auto simp: wf_rgns_simps)
  moreover have "cnt t' \<le> max_cnt t'" using ins(2,4) assms(3) by (metis inc_le)
  ultimately have "wf_type t'" using assms(1) ins(4) by (simp add: wf_type_def)
  moreover have "addrs (rgns t) = addrs (take idx (rgns t)) \<union> addrs (drop idx (rgns t))"
    by (metis addrs_simps(3) append_take_drop_id)
  then have "covers t' = covers t \<union> {unat b..<unat e}" using f a by (auto simp: covers_def)
  ultimately show ?thesis using t' ins by blast
qed

lemma wf_type_regionD:
  assumes "wf_type t" "k < unat (cnt t)"
  shows "unat (rgn_base (regions t k) + rgn_size (regions t k)) = rgn_end (regions t k)"
    "unat (rgn_base (regions t k)) < rgn_end (regions t k)"
    "rgn_addrs (regions t k) \<subseteq> covers t" "rgn_end (regions t k) < 2 ^ 64"
proof -
  have m: "regions t k \<in> set (rgns t)" using assms(2) by (auto simp: rgns_def)
  with assms(1) have w: "rgn_size (regions t k) \<noteq> 0" "rgn_end (regions t k) < 2 ^ 64"
    by (auto simp: wf_type_def wf_rgns_def)
  then show "unat (rgn_base (regions t k) + rgn_size (regions t k)) = rgn_end (regions t k)"
    "rgn_end (regions t k) < 2 ^ 64" by (simp_all add: unat_rgn_end)
  show "unat (rgn_base (regions t k)) < rgn_end (regions t k)"
    using w(1) by (simp add: rgn_end_def unat_gt_0)
  show "rgn_addrs (regions t k) \<subseteq> covers t" using m by (auto simp: covers_def addrs_def)
qed

lemma wf_type_sorted:
  assumes "wf_type t" "j < k" "k < unat (cnt t)"
  shows "rgn_end (regions t j) \<le> unat (rgn_base (regions t k))"
  using assms sorted_wrt_nth_less [of "\<lambda>r s. rgn_end r \<le> unat (rgn_base s)" "rgns t" j k]
  by (simp add: wf_type_def wf_rgns_def)

definition no_flags :: "mmblk_type \<Rightarrow> bool" where
  "no_flags t \<longleftrightarrow> (\<forall>k. rgn_flags (regions t k) = 0)"

lemma no_flags_remove: "no_flags t \<Longrightarrow> no_flags (simple_mmblk_remove_rgn i t)"
  by (simp add: no_flags_def simple_mmblk_remove_rgn_def memmove_down_def)

lemma no_flags_insert:
  "no_flags t \<Longrightarrow> memblock_insert_region i b z f t = Ret t' \<Longrightarrow> no_flags t'"
  by (auto simp: no_flags_def memblock_insert_region_def memmove_up_def Let_def split: if_splits)

lemma no_flags_merge_loop:
  "merge_loop i e t = Ret t' \<Longrightarrow> no_flags t \<Longrightarrow> no_flags t'"
proof (induction i e t rule: merge_loop.induct)
  case (1 i e t)
  have "no_flags (t\<lparr>regions := (regions t)(k := (regions t k)\<lparr>rgn_size := z\<rparr>), total_size := y\<rparr>)" for k z y
    using "1.prems"(2) by (simp add: no_flags_def)
  note nf = no_flags_remove [OF this]
  show ?case
    using "1.prems"(1) "1.IH"(1) [OF _ refl refl refl _ _ _ "1.prems"(2)]
      "1.IH"(2) [OF _ refl refl refl _ _ nf] "1.prems"(2)
    by (subst (asm) (1) merge_loop.simps) (auto simp: Let_def split: if_splits)
qed

lemma no_flags_merge_rgn:
  "simple_mmblk_merge_rgn a b t = Ret t' \<Longrightarrow> no_flags t \<Longrightarrow> no_flags t'"
  unfolding simple_mmblk_merge_rgn_def Let_def by (rule no_flags_merge_loop)

lemma add_range_loop_ok:
  assumes "wf_type t" "cnt t < max_cnt t" "base < end" "idx \<le> unat (cnt t)"
    and "\<And>k. k < idx \<Longrightarrow> rgn_end (regions t k) \<le> unat base"
    and "covers t \<inter> {unat base..<unat end} = {}"
  shows "\<exists>t'. add_range_loop end fl idx base t = Ret t' \<and> wf_type t'
    \<and> covers t' = covers t \<union> {unat base..<unat end} \<and> total_size t' = total_size t + (end - base)
    \<and> max_cnt t' = max_cnt t \<and> cnt t' \<le> cnt t + 1 \<and> (no_flags t \<longrightarrow> no_flags t')"
  using assms(4,5)
proof (induction "unat (cnt t) - idx" arbitrary: idx rule: less_induct)
  case less
  let ?r = "regions t idx" and ?p = "regions t (idx - 1)"
  have c1: "unat (cnt t + 1) = Suc (unat (cnt t))" using assms(2) by unat_arith
  have prev: "\<not> (idx > 0 \<and> base < rgn_base ?p + rgn_size ?p)"
  proof clarify
    assume "0 < idx" "base < rgn_base ?p + rgn_size ?p"
    moreover from this less.prems have "unat (rgn_base ?p + rgn_size ?p) = rgn_end ?p"
      by (intro wf_type_regionD [OF assms(1)]) simp
    ultimately show False using less.prems(2) [of "idx - 1"] by (simp add: word_less_nat_alt)
  qed
  show ?case
  proof (cases "rgn_base ?r + rgn_size ?r \<le> base \<and> idx \<noteq> unat (cnt t)")
    case True
    then have lt: "idx < unat (cnt t)" using less.prems(1) by simp
    have "rgn_end ?r \<le> unat base"
      using True wf_type_regionD(1) [OF assms(1) lt] by (simp add: word_le_nat_alt)
    then have "\<And>k. k < idx + 1 \<Longrightarrow> rgn_end (regions t k) \<le> unat base"
      using less.prems(2) by (metis less_Suc_eq Suc_eq_plus1)
    moreover have "add_range_loop end fl idx base t = add_range_loop end fl (idx + 1) base t"
      using True prev lt c1 by (subst add_range_loop.simps) (auto simp: Let_def)
    ultimately show ?thesis using less.hyps [of "idx + 1"] lt by simp
  next
    case False
    have stop: "idx = unat (cnt t) \<or> rgn_base ?r \<ge> end"
    proof (rule disjCI)
      assume "\<not> end \<le> rgn_base ?r"
      then have a: "unat (rgn_base ?r) < unat end" by (simp add: word_le_nat_alt)
      show "idx = unat (cnt t)"
      proof (rule ccontr)
        assume "idx \<noteq> unat (cnt t)"
        then have lt: "idx < unat (cnt t)" and "unat base < rgn_end ?r"
          using less.prems(1) False wf_type_regionD(1) [OF assms(1), of idx] by (auto simp: word_le_nat_alt)
        moreover have "unat base < unat end" using assms(3) by (simp add: word_less_nat_alt)
        ultimately have "max (unat base) (unat (rgn_base ?r)) \<in> rgn_addrs ?r \<inter> {unat base..<unat end}"
          using a wf_type_regionD(2) [OF assms(1) lt] by (auto simp: rgn_addrs_def)
        with assms(6) wf_type_regionD(3) [OF assms(1) lt] show False by blast
      qed
    qed
    have tk: "rgn_end r \<le> unat base" if "r \<in> set (take idx (rgns t))" for r
      using that less.prems by (auto simp: in_set_conv_nth)
    have dr: "unat end \<le> unat (rgn_base r)" if rm: "r \<in> set (drop idx (rgns t))" for r
    proof -
      from rm obtain k where k: "k < unat (cnt t) - idx" "r = regions t (idx + k)"
        by (auto simp: in_set_conv_nth)
      then have e: "end \<le> rgn_base ?r" using stop by auto
      show ?thesis
      proof (cases k)
        case 0 then show ?thesis using k e by (simp add: word_le_nat_alt)
      next
        case (Suc m)
        then have "rgn_end ?r \<le> unat (rgn_base r)" using k wf_type_sorted [OF assms(1), of idx "idx + k"] by simp
        moreover have "unat (rgn_base ?r) < rgn_end ?r"
          using k(1) by (intro wf_type_regionD(2) [OF assms(1)]) simp
        ultimately show ?thesis using e by (simp add: word_le_nat_alt)
      qed
    qed
    obtain t1 where t1: "memblock_insert_region idx base (end - base) fl t = Ret t1" "wf_type t1"
      "covers t1 = covers t \<union> {unat base..<unat end}" "total_size t1 = total_size t + (end - base)"
      "max_cnt t1 = max_cnt t" "cnt t1 = cnt t + 1"
      using insert_region_ok [OF assms(1) less.prems(1) assms(2,3) tk dr] by blast
    have "idx < unat (cnt t1)" using less.prems(1) t1(6) c1 by simp
    then obtain t2 where t2: "simple_mmblk_merge_rgn (of_int (int idx - 1)) (of_nat idx) t1 = Ret t2" "wf_type t2"
     "covers t2 = covers t1" "total_size t2 = total_size t1" "max_cnt t2 = max_cnt t1" "cnt t2 \<le> cnt t1"
      using merge_rgn_ok [OF t1(2)] by blast
    have "add_range_loop end fl idx base t = Ret t2"
      using prev less.prems(1) c1 t1(1) t2(1) stop
      by (subst add_range_loop.simps) (simp only: Let_def False if_False if_True, auto)
    then show ?thesis using t1 t2 no_flags_merge_rgn [OF t2(1)] no_flags_insert [OF _ t1(1)] by simp
  qed
qed

text \<open>A range disjoint from the type is added whole.\<close>

lemma add_range_ok:
  assumes "wf_type t" "no_flags t" "sz \<noteq> 0" "unat base + unat sz < 2 ^ 64"
    "unat (cnt t) + 3 < unat (max_cnt t)"
    "covers t \<inter> {unat base..<unat base + unat sz} = {}"
  shows "\<exists>t'. simple_mmblk_add_range base sz fl t = Ret (0, t') \<and> wf_type t' \<and> no_flags t'
    \<and> covers t' = covers t \<union> {unat base..<unat base + unat sz}
    \<and> total_size t' = total_size t + sz \<and> max_cnt t' = max_cnt t \<and> cnt t' \<le> cnt t + 1"
proof -
  have e: "unat (base + sz) = unat base + unat sz" using assms(4) by (simp add: unat_word_ariths)
  have "sz \<le> PHYS_ADDR_MAX - base"
  proof -
    have "unat (- 1 - base) = unat (- 1 :: ulong) - unat base" by (rule unat_sub) simp
    then show ?thesis using assms(4) unfolding PHYS_ADDR_MAX_def word_le_nat_alt
      by (simp add: unsigned_minus_1_eq_mask mask_eq_exp_minus_1)
  qed
  then have cap: "memblock_cap_size base sz = sz" by (simp add: memblock_cap_size_def min_def)
  have lt: "base < base + sz" using assms(3) e by (simp add: word_less_nat_alt unat_gt_0)
  have "cnt t < max_cnt t" using assms(5) by (simp add: word_less_nat_alt)
  with add_range_loop_ok [OF assms(1) this lt, of 0 fl] e assms(6) obtain t' where
    t': "add_range_loop (base + sz) fl 0 base t = Ret t'" "wf_type t'"
    "covers t' = covers t \<union> {unat base..<unat base + unat sz}" "total_size t' = total_size t + sz"
    "max_cnt t' = max_cnt t" "cnt t' \<le> cnt t + 1" "no_flags t'" using assms(2) by auto
  moreover have "\<not> cnt t' \<ge> max_cnt t' - 2"
  proof -
    have "unat (cnt t + 1) = unat (cnt t) + 1" "unat (max_cnt t - 2) = unat (max_cnt t) - 2"
      using assms(5) by unat_arith+
    then show ?thesis using t'(5,6) assms(5) by (simp add: word_le_nat_alt)
  qed
  ultimately show ?thesis using cap assms(3) by (simp add: simple_mmblk_add_range_def)
qed

section \<open>Properties\<close>

text \<open>A type with the one region \<open>[0x1000, 0x2000)\<close>, for the examples.\<close>

definition one_region :: mmblk_type where
  "one_region = \<lparr>cnt = 1, max_cnt = 128, total_size = 0x1000,
     regions = (\<lambda>i. \<lparr>rgn_base = (if i = 0 then 0x1000 else 0), rgn_size = (if i = 0 then 0x1000 else 0), rgn_flags = 0\<rparr>)\<rparr>"

lemma one_region_facts:
  "wf_type one_region" "no_flags one_region" "covers one_region = {0x1000..<0x2000}"
proof -
  have r: "rgns one_region = [\<lparr>rgn_base = 0x1000, rgn_size = 0x1000, rgn_flags = 0\<rparr>]"
    by (simp add: rgns_def one_region_def)
  then show "wf_type one_region"
    by (simp add: wf_type_def wf_rgns_def rgn_end_def) (simp add: one_region_def)
  show "no_flags one_region" by (simp add: no_flags_def one_region_def)
  show "covers one_region = {0x1000..<0x2000}"
    by (simp add: covers_def r rgn_addrs_def rgn_end_def)
qed

text \<open>
  C22. \<^verbatim>\<open>simple_mmblk_add_range\<close> adds a range that overlaps no region: it returns 0, the live regions
  stay non-empty, sorted and disjoint, cover the old addresses and exactly the new range, the total
  grows by its size, and at most one slot is used.
\<close>

theorem memblock_add_range_disjoint:
  assumes "wf_type t" "no_flags t" "sz \<noteq> 0" "unat base + unat sz < 2 ^ 64"
    "unat (cnt t) + 3 < unat (max_cnt t)"
    "covers t \<inter> {unat base..<unat base + unat sz} = {}"
  shows "\<exists>t'. simple_mmblk_add_range base sz fl t = Ret (0, t') \<and> wf_type t' \<and> no_flags t'
    \<and> covers t' = covers t \<union> {unat base..<unat base + unat sz}
    \<and> total_size t' = total_size t + sz \<and> max_cnt t' = max_cnt t \<and> cnt t' \<le> cnt t + 1"
  using assms by (rule add_range_ok)

theorem memblock_add_range_disjoint_witness:
  "\<exists>t'. simple_mmblk_add_range 0x2000 0x3000 0 one_region = Ret (0, t') \<and> wf_type t' \<and> no_flags t'
    \<and> covers t' = covers one_region \<union> {unat (0x2000 :: ulong)..<unat (0x2000 :: ulong) + unat (0x3000 :: ulong)}
    \<and> total_size t' = total_size one_region + 0x3000 \<and> max_cnt t' = max_cnt one_region
    \<and> cnt t' \<le> cnt one_region + 1"
  by (rule memblock_add_range_disjoint) (simp_all add: one_region_facts, simp add: one_region_def)


end
