(* ===== verification/Allocators.thy ===== *)
theory Allocators
  imports Prelude
begin

text \<open>
  The contract of an allocator that hands out extents of a fixed pool, and what follows from it
  for a sequence of requests. The early boot allocator is an instance twice, through
  \<^verbatim>\<open>memblock_alloc_range\<close> and through \<^verbatim>\<open>memblock_alloc_internal\<close>; the free lists of a zone of the page
  allocator are another.
\<close>

text \<open>The answers to a sequence of requests, with the final state.\<close>

fun alloc_run :: "('r \<Rightarrow> 's \<Rightarrow> ('a \<times> 's) outcome) \<Rightarrow> 'r list \<Rightarrow> 's \<Rightarrow> ('a list \<times> 's) outcome" where
  "alloc_run alloc [] s = Ret ([], s)"
| "alloc_run alloc (r # rs) s =
     bnd (alloc r s) (\<lambda>(f, s). bnd (alloc_run alloc rs s) (\<lambda>(fs, s). Ret (f # fs, s)))"

text \<open>
  \<open>extent r f\<close> is what answer \<open>f\<close> to request \<open>r\<close> gives away: nothing when the request failed. \<open>room\<close>
  is what the bookkeeping has left to record requests with: a request takes at most \<open>cost\<close> of it,
  and \<open>spare\<close> has to be left.
\<close>

locale allocator =
  fixes alloc :: "'r \<Rightarrow> 's \<Rightarrow> ('a \<times> 's) outcome"
    and ok :: "'s \<Rightarrow> bool" and good :: "'r \<Rightarrow> bool"
    and pool :: "'s \<Rightarrow> nat set" and taken :: "'s \<Rightarrow> nat set" and extent :: "'r \<Rightarrow> 'a \<Rightarrow> nat set"
    and room :: "'s \<Rightarrow> nat" and spare :: nat and cost :: nat
  assumes step: "ok s \<Longrightarrow> good r \<Longrightarrow> spare < room s \<Longrightarrow>
    \<exists>f s'. alloc r s = Ret (f, s') \<and> ok s' \<and> pool s' = pool s \<and> room s \<le> room s' + cost
       \<and> taken s' = taken s \<union> extent r f \<and> extent r f \<subseteq> pool s - taken s"
begin

lemma run:
  assumes "ok s" "list_all good rs" "length rs * cost + spare < room s"
  shows "\<exists>fs s'. alloc_run alloc rs s = Ret (fs, s') \<and> length fs = length rs \<and> ok s' \<and> pool s' = pool s
     \<and> taken s' = taken s \<union> (\<Union>i < length rs. extent (rs ! i) (fs ! i))
     \<and> (\<forall>i < length rs. extent (rs ! i) (fs ! i) \<subseteq> pool s - taken s)
     \<and> (\<forall>i j. i < j \<and> j < length rs \<longrightarrow> extent (rs ! i) (fs ! i) \<inter> extent (rs ! j) (fs ! j) = {})"
  using assms
proof (induction rs arbitrary: s)
  case Nil
  then show ?case by simp
next
  case (Cons r rs)
  have "spare < room s" "good r" using Cons.prems by simp_all
  from step [OF Cons.prems(1) this(2,1)] obtain f s1 where
    f: "alloc r s = Ret (f, s1)" "ok s1" "pool s1 = pool s" "room s \<le> room s1 + cost"
    "taken s1 = taken s \<union> extent r f" "extent r f \<subseteq> pool s - taken s" by blast
  have "length rs * cost + spare < room s1" "list_all good rs" using Cons.prems f(4) by simp_all
  from Cons.IH [OF f(2) this(2,1)] obtain fs s2 where
    IH: "alloc_run alloc rs s1 = Ret (fs, s2)" "length fs = length rs" "ok s2" "pool s2 = pool s1"
    "taken s2 = taken s1 \<union> (\<Union>i < length rs. extent (rs ! i) (fs ! i))"
    "\<And>i. i < length rs \<Longrightarrow> extent (rs ! i) (fs ! i) \<subseteq> pool s1 - taken s1"
    "\<And>i j. i < j \<Longrightarrow> j < length rs \<Longrightarrow> extent (rs ! i) (fs ! i) \<inter> extent (rs ! j) (fs ! j) = {}" by auto
  have "taken s2 = taken s \<union> (\<Union>i < length (r # rs). extent ((r # rs) ! i) ((f # fs) ! i))"
    unfolding IH(5) f(5) by (simp add: lessThan_Suc_eq_insert_0 Un_ac)
  moreover have "extent ((r # rs) ! i) ((f # fs) ! i) \<subseteq> pool s - taken s" if "i < length (r # rs)" for i
    using that f IH(6) [of "i - 1"] by (cases i) auto
  moreover have "extent ((r # rs) ! i) ((f # fs) ! i) \<inter> extent ((r # rs) ! j) ((f # fs) ! j) = {}"
    if "i < j" "j < length (r # rs)" for i j
    using that IH(7) [of "i - 1" "j - 1"] IH(6) [of "j - 1"] f(5) by (cases i; cases j) auto
  ultimately show ?case using f IH(1-4) by (intro exI [of _ "f # fs"] exI [of _ s2]) auto
qed

end

end
