(* ===== verification/Memblock_Alloc.thy ===== *)
theory Memblock_Alloc
  imports Memblock Allocators
begin

unbundle bit_operations_syntax

text \<open>
  What the early boot allocator of theory \<^verbatim>\<open>Memblock\<close> promises. The gaps between the reserved
  regions cut the memory regions into cells. The range iterator yields the cells in order, the
  search returns the least aligned block that fits into one, allocation reserves it, and the
  hand-over passes exactly the whole free frames to the page allocator.
\<close>

section \<open>Free cells\<close>

definition gap_start :: "mmblk_type \<Rightarrow> nat \<Rightarrow> nat" where
  "gap_start t j = (if j = 0 then 0 else rgn_end (regions t (j - 1)))"

definition gap_end :: "mmblk_type \<Rightarrow> nat \<Rightarrow> nat" where
  "gap_end t j = (if j < unat (cnt t) then unat (rgn_base (regions t j)) else 2 ^ 64 - 1)"

definition cell :: "mmblk_type \<Rightarrow> mmblk_type \<Rightarrow> nat \<Rightarrow> nat \<Rightarrow> nat set" where
  "cell m r i j = rgn_addrs (regions m i) \<inter> {gap_start r j..<gap_end r j}"

lemma gap_mono:
  assumes "wf_type t" "j < k" "k \<le> unat (cnt t)"
  shows "gap_end t j \<le> gap_start t k"
proof -
  have lt: "k - 1 < unat (cnt t)" using assms(2,3) by simp
  have "unat (rgn_base (regions t j)) \<le> unat (rgn_base (regions t (k - 1)))"
  proof (cases "j = k - 1")
    case False
    then have "rgn_end (regions t j) \<le> unat (rgn_base (regions t (k - 1)))"
      using assms(2) lt by (intro wf_type_sorted [OF assms(1)]) simp_all
    moreover have "unat (rgn_base (regions t j)) < rgn_end (regions t j)"
      using assms by (intro wf_type_regionD(2)) simp_all
    ultimately show ?thesis by simp
  qed simp
  moreover have "unat (rgn_base (regions t (k - 1))) < rgn_end (regions t (k - 1))"
    using wf_type_regionD(2) [OF assms(1) lt] .
  ultimately show ?thesis using assms(2,3) by (simp add: gap_start_def gap_end_def)
qed

lemma gap_ordered: "wf_type t \<Longrightarrow> j \<le> unat (cnt t) \<Longrightarrow> gap_start t j \<le> gap_end t j"
  using wf_type_sorted [of t "j - 1" j] wf_type_regionD(4) [of t "j - 1"]
  by (auto simp: gap_start_def gap_end_def)

lemma cnt_facts:
  assumes "wf_type t"
  shows "unat (cnt t) < 2 ^ 31" "unat (cnt t + 1) = Suc (unat (cnt t))"
    "\<And>k. k \<le> Suc (unat (cnt t)) \<Longrightarrow> unat (of_nat k :: ulong) = k"
proof -
  show c: "unat (cnt t) < 2 ^ 31" using assms unfolding wf_type_def word_le_nat_alt by linarith
  then show s: "unat (cnt t + 1) = Suc (unat (cnt t))" by (simp add: unat_word_ariths)
  show "unat (of_nat k :: ulong) = k" if "k \<le> Suc (unat (cnt t))" for k
    using that s by (intro le_unat_uoi [of _ "cnt t + 1"]) simp
qed

text \<open>What the scan of the gaps yields when it stops at gap \<open>j\<close>.\<close>

definition scan_stop ::
    "mmblk_type \<Rightarrow> phys_addr_t \<Rightarrow> phys_addr_t \<Rightarrow> int \<Rightarrow> nat \<Rightarrow> nat
       \<Rightarrow> (phys_addr_t \<times> phys_addr_t \<times> int \<times> int) + int \<Rightarrow> bool" where
  "scan_stop ex ms me a b j v \<longleftrightarrow> b \<le> j \<and> j \<le> unat (cnt ex)
     \<and> (\<forall>k. b \<le> k \<and> k < j \<longrightarrow> gap_end ex k \<le> unat ms)
     \<and> (if unat me \<le> gap_start ex j then v = Inr (int j)
        else unat ms < gap_end ex j \<and> (\<exists>s e. v =
               Inl (s, e, if unat me \<le> gap_end ex j then (a + 1, int j) else (a, int j + 1))
             \<and> unat s = max (unat ms) (gap_start ex j) \<and> unat e = min (unat me) (gap_end ex j)))"

lemma scan_gaps_ok:
  assumes "wf_type ex" "unat ms < 2 ^ 64 - 1" "b \<le> unat (cnt ex)"
  shows "\<exists>j. scan_stop ex ms me a b j (scan_gaps ex ms me a (int b))"
  using assms(3)
proof (induction "unat (cnt ex) - b" arbitrary: b rule: less_induct)
  case less
  note c = cnt_facts [OF assms(1)]
  define gs :: phys_addr_t where "gs = (if int b = 0 then 0 else rgn_base (regions ex (nat (int b - 1))) + rgn_size (regions ex (nat (int b - 1))))"
  define ge where "ge = (if (word_of_int (int b) :: ulong) < cnt ex then rgn_base (regions ex (nat (int b))) else PHYS_ADDR_MAX)"
  have ub: "unat (word_of_int (int b) :: ulong) = b" using c(3) less.prems by simp
  have gs: "unat gs = gap_start ex b"
  proof (cases b)
    case (Suc k)
    then show ?thesis using wf_type_regionD(1) [OF assms(1), of k] less.prems
      by (simp add: gs_def gap_start_def)
  qed (simp add: gs_def gap_start_def)
  have ge: "unat ge = gap_end ex b"
    using ub unfolding ge_def gap_end_def PHYS_ADDR_MAX_def word_less_nat_alt
    by (simp add: unsigned_minus_1_eq_mask mask_eq_exp_minus_1)
  have "(word_of_int (int b) :: ulong) < cnt ex + 1" using ub c(2) less.prems by (simp add: word_less_nat_alt)
  then have unf: "scan_gaps ex ms me a (int b) =
    (if me \<le> gs then Inr (int b)
     else if ms < ge then Inl (max ms gs, min me ge, (if me \<le> ge then a + 1 else a), (if me \<le> ge then int b else int b + 1))
     else scan_gaps ex ms me a (int b + 1))"
    by (subst scan_gaps.simps) (simp only: Let_def gs_def ge_def if_True)
  have mm: "unat (max ms gs) = max (unat ms) (gap_start ex b)" "unat (min me ge) = min (unat me) (gap_end ex b)"
    using gs ge by (auto simp: max_def min_def word_le_nat_alt)
  show ?case
  proof (cases "me \<le> gs \<or> ms < ge")
    case True
    then show ?thesis using less.prems unf mm gs ge
      unfolding scan_stop_def
      by (intro exI [of _ b]) (auto simp: word_le_nat_alt word_less_nat_alt)
  next
    case False
    then have nle: "gap_end ex b \<le> unat ms" using ge by (simp add: word_less_nat_alt)
    then have lt: "b < unat (cnt ex)" using assms(2) less.prems by (auto simp: gap_end_def split: if_splits)
    then have "unat (cnt ex) - Suc b < unat (cnt ex) - b" "Suc b \<le> unat (cnt ex)" by simp_all
    from less.hyps [OF this] obtain j where
      j: "scan_stop ex ms me a (Suc b) j (scan_gaps ex ms me a (int (Suc b)))" ..
    have "scan_gaps ex ms me a (int b) = scan_gaps ex ms me a (int (Suc b))"
      using unf False by (simp add: add.commute)
    moreover have "\<forall>k. b \<le> k \<and> k < j \<longrightarrow> gap_end ex k \<le> unat ms"
      using j nle unfolding scan_stop_def by (metis Suc_leI le_neq_implies_less)
    ultimately show ?thesis using j unfolding scan_stop_def by (intro exI [of _ j]) auto
  qed
qed

text \<open>
  One call of the iterator: it yields one cell and leaves the later cells, all of them at
  higher addresses, for the calls that follow; or no cell was left.
\<close>

definition cell_state :: "mmblk_type \<Rightarrow> mmblk_type \<Rightarrow> nat \<Rightarrow> nat \<Rightarrow> bool" where
  "cell_state m r a b \<longleftrightarrow> a \<le> unat (cnt m) \<and> b \<le> unat (cnt r)"

definition live_cell :: "mmblk_type \<Rightarrow> mmblk_type \<Rightarrow> nat \<Rightarrow> nat \<Rightarrow> nat \<Rightarrow> nat \<Rightarrow> bool" where
  "live_cell m r a b i j \<longleftrightarrow> a \<le> i \<and> i < unat (cnt m) \<and> b \<le> j \<and> j \<le> unat (cnt r) \<and> cell m r i j \<noteq> {}"

definition yields_cell ::
    "mmblk_type \<Rightarrow> mmblk_type \<Rightarrow> nat \<Rightarrow> nat \<Rightarrow> (phys_addr_t \<times> phys_addr_t \<times> int \<times> int) \<Rightarrow> bool" where
  "yields_cell m r a b v \<longleftrightarrow> (\<exists>s e a' b' i j. v = (s, e, int a', int b') \<and> cell_state m r a' b'
     \<and> a + b < a' + b' \<and> a \<le> a' \<and> b \<le> b' \<and> i < unat (cnt m) \<and> j \<le> unat (cnt r)
     \<and> a \<le> i \<and> b \<le> j \<and> unat e \<le> rgn_end (regions m i) \<and> s \<le> e \<and> {unat s..<unat e} = cell m r i j
     \<and> (\<forall>i' j'. live_cell m r a b i' j' \<longrightarrow> (i' = i \<and> j' = j) \<or> live_cell m r a' b' i' j')
     \<and> (\<forall>i' j'. live_cell m r a' b' i' j' \<longrightarrow> (\<forall>x \<in> cell m r i' j'. unat e \<le> x)))"

lemma yields_cellI:
  assumes "cell_state m r a' b'" "a + b < a' + b'" "a \<le> a'" "b \<le> b'" "i < unat (cnt m)" "j \<le> unat (cnt r)"
    "a \<le> i" "b \<le> j" "unat e \<le> rgn_end (regions m i)" "s \<le> e" "{unat s..<unat e} = cell m r i j"
    "\<And>i' j'. live_cell m r a b i' j' \<Longrightarrow> \<not> (i' = i \<and> j' = j) \<Longrightarrow> live_cell m r a' b' i' j'"
    "\<And>i' j' x. live_cell m r a' b' i' j' \<Longrightarrow> x \<in> cell m r i' j' \<Longrightarrow> unat e \<le> x"
  shows "yields_cell m r a b (s, e, int a', int b')"
  unfolding yields_cell_def using assms by blast

lemma not_skipped: "no_flags t \<Longrightarrow> \<not> should_skip_region True (regions t k) MEMBLOCK_NONE"
  by (simp add: no_flags_def should_skip_region_def memblock_is_hotpluggable_def MEMBLOCK_NONE_def
      memblock_is_nomap_def memblock_is_driver_managed_def)

lemma next_range_hit:
  assumes wf: "wf_type m" "wf_type r" and a: "a < unat (cnt m)"
    and ms: "ms = rgn_base (regions m a)" and me: "me = rgn_base (regions m a) + rgn_size (regions m a)"
    and stop: "scan_stop r ms me (int a) b j v" and hit: "\<not> unat me \<le> gap_start r j"
  shows "\<exists>f. v = Inl f \<and> yields_cell m r a b f"
proof -
  have ume: "unat me = rgn_end (regions m a)" "unat ms < unat me"
    using wf_type_regionD [OF wf(1) a] ms me by simp_all
  from stop hit obtain s e where b: "b \<le> j" "j \<le> unat (cnt r)"
    and skip: "\<And>k. b \<le> k \<Longrightarrow> k < j \<Longrightarrow> gap_end r k \<le> unat ms" and lt: "unat ms < gap_end r j"
    and v: "v = Inl (s, e, if unat me \<le> gap_end r j then (int a + 1, int j) else (int a, int j + 1))"
    and s: "unat s = max (unat ms) (gap_start r j)" and e: "unat e = min (unat me) (gap_end r j)"
    unfolding scan_stop_def by auto
  have se: "s \<le> e" using s e hit lt ume gap_ordered [OF wf(2) b(2)] by (simp add: word_le_nat_alt)
  have ee: "unat e \<le> rgn_end (regions m a)" using e ume by simp
  have cl: "{unat s..<unat e} = cell m r a j"
    using s e ume ms by (auto simp: cell_def rgn_addrs_def)
  have later_m: "unat me \<le> x" if "a < i" "i < unat (cnt m)" "x \<in> cell m r i k" for i k x
    using that wf_type_sorted [OF wf(1), of a i] ume by (auto simp: cell_def rgn_addrs_def)
  have later_r: "gap_end r j \<le> x" if "j < k" "k \<le> unat (cnt r)" "x \<in> cell m r i k" for i k x
    using that gap_mono [OF wf(2), of j k] by (auto simp: cell_def)
  have early: "\<not> k < j" if lc: "live_cell m r a b i k" for i k
  proof
    assume "k < j"
    then have "gap_end r k \<le> unat ms" using that skip by (simp add: live_cell_def)
    moreover obtain x where x: "x \<in> cell m r i k" using lc by (auto simp: live_cell_def)
    moreover have "unat ms \<le> x"
    proof (cases "i = a")
      case True then show ?thesis using x ms by (auto simp: cell_def rgn_addrs_def)
    next
      case False
      then show ?thesis using that x later_m [of i x k] ume by (simp add: live_cell_def)
    qed
    ultimately show False by (auto simp: cell_def)
  qed
  show ?thesis
  proof (cases "unat me \<le> gap_end r j")
    case True
    have "yields_cell m r a b (s, e, int (Suc a), int j)"
    proof (rule yields_cellI [OF _ _ _ b(1) a b(2) order.refl b(1) ee se cl])
      show "cell_state m r (Suc a) j" using a b by (simp add: cell_state_def)
      show "a + b < Suc a + j" "a \<le> Suc a" using b by simp_all
      show "live_cell m r (Suc a) j i k" if lc: "live_cell m r a b i k" "\<not> (i = a \<and> k = j)" for i k
      proof -
        have "i \<noteq> a"
        proof
          assume ia: "i = a"
          obtain x where x: "x \<in> cell m r i k" using lc by (auto simp: live_cell_def)
          with ia have "x < unat me" by (simp add: cell_def rgn_addrs_def ume(1))
          moreover have "gap_end r j \<le> x" using ia lc early [OF lc(1)] by (intro later_r [OF _ _ x]) (auto simp: live_cell_def)
          ultimately show False using True by simp
        qed
        then show ?thesis using lc early [OF lc(1)] by (simp add: live_cell_def)
      qed
      show "unat e \<le> x" if "live_cell m r (Suc a) j i k" "x \<in> cell m r i k" for i k x
        using that later_m [of i x k] e by (simp add: live_cell_def)
    qed
    then show ?thesis using v True by (simp add: add.commute)
  next
    case False
    then have jl: "j < unat (cnt r)" using b(2) ume wf_type_regionD(4) [OF wf(1) a]
      by (auto simp: gap_end_def split: if_splits)
    have "yields_cell m r a b (s, e, int a, int (Suc j))"
    proof (rule yields_cellI [OF _ _ _ _ a b(2) order.refl b(1) ee se cl])
      show "cell_state m r a (Suc j)" using a jl by (simp add: cell_state_def)
      show "a + b < a + Suc j" "a \<le> a" "b \<le> Suc j" using b by simp_all
      show "live_cell m r a (Suc j) i k" if lc: "live_cell m r a b i k" "\<not> (i = a \<and> k = j)" for i k
      proof -
        have "k \<noteq> j"
        proof
          assume kj: "k = j"
          obtain x where x: "x \<in> cell m r i k" using lc by (auto simp: live_cell_def)
          with kj have "x < gap_end r j" by (simp add: cell_def)
          moreover have "unat me \<le> x" using kj lc by (intro later_m [OF _ _ x]) (auto simp: live_cell_def)
          ultimately show False using False by simp
        qed
        then show ?thesis using lc early [OF lc(1)] by (simp add: live_cell_def)
      qed
      show "unat e \<le> x" if "live_cell m r a (Suc j) i k" "x \<in> cell m r i k" for i k x
        using that later_r [of k x i] e by (simp add: live_cell_def)
    qed
    then show ?thesis using v False by (simp add: add.commute)
  qed
qed

lemma yields_cell_weaken:
  assumes "yields_cell m r a' b' v" "a \<le> a'" "b \<le> b'"
    "\<And>i j. live_cell m r a b i j \<Longrightarrow> live_cell m r a' b' i j"
  shows "yields_cell m r a b v"
proof -
  from assms(1) obtain s e a2 b2 i j where *: "v = (s, e, int a2, int b2)" "cell_state m r a2 b2"
    "a' + b' < a2 + b2" "a' \<le> a2" "b' \<le> b2" "i < unat (cnt m)" "j \<le> unat (cnt r)"
    "a' \<le> i" "b' \<le> j" "unat e \<le> rgn_end (regions m i)" "s \<le> e" "{unat s..<unat e} = cell m r i j"
    "\<forall>i' j'. live_cell m r a' b' i' j' \<longrightarrow> (i' = i \<and> j' = j) \<or> live_cell m r a2 b2 i' j'"
    "\<forall>i' j'. live_cell m r a2 b2 i' j' \<longrightarrow> (\<forall>x \<in> cell m r i' j'. unat e \<le> x)"
    unfolding yields_cell_def by blast
  moreover have "a + b < a2 + b2" "a \<le> a2" "b \<le> b2" "a \<le> i" "b \<le> j" using * assms(2,3) by linarith+
  moreover have "\<forall>i' j'. live_cell m r a b i' j' \<longrightarrow> (i' = i \<and> j' = j) \<or> live_cell m r a2 b2 i' j'"
    using *(13) assms(4) by blast
  ultimately show ?thesis by (simp only: yields_cell_def) blast
qed

lemma next_range_loop_ok:
  assumes wf: "wf_type m" "wf_type r" "no_flags m" and st: "cell_state m r a b"
  shows "case next_range_loop MEMBLOCK_NONE True m r (int a) (int b) of
      None \<Rightarrow> \<forall>i j. \<not> live_cell m r a b i j
    | Some v \<Rightarrow> yields_cell m r a b v"
  using st
proof (induction "unat (cnt m) - a" arbitrary: a b rule: less_induct)
  case less
  show ?case
  proof (cases "a < unat (cnt m)")
    case True
    define ms me where "ms = rgn_base (regions m a)" and "me = rgn_base (regions m a) + rgn_size (regions m a)"
    note R = wf_type_regionD [OF wf(1) True]
    have "unat (word_of_int (int a) :: ulong) = a" using True cnt_facts(3) [OF wf(1), of a] by simp
    then have unf: "next_range_loop MEMBLOCK_NONE True m r (int a) (int b) =
      (case scan_gaps r ms me (int a) (int b) of Inl found \<Rightarrow> Some found
       | Inr idx_b' \<Rightarrow> next_range_loop MEMBLOCK_NONE True m r (int a + 1) idx_b')"
      using not_skipped [OF wf(3)] True
      by (subst next_range_loop.simps) (simp add: Let_def ms_def me_def word_less_nat_alt)
    have "unat ms < 2 ^ 64 - 1" using R(2,4) unfolding ms_def by linarith
    then obtain j where j: "scan_stop r ms me (int a) b j (scan_gaps r ms me (int a) (int b))"
      using scan_gaps_ok [OF wf(2)] less.prems by (meson cell_state_def)
    show ?thesis
    proof (cases "unat me \<le> gap_start r j")
      case True
      then have v: "scan_gaps r ms me (int a) (int b) = Inr (int j)"
        and jb: "b \<le> j" "j \<le> unat (cnt r)" "\<And>k. b \<le> k \<Longrightarrow> k < j \<Longrightarrow> gap_end r k \<le> unat ms"
        using j unfolding scan_stop_def by auto
      have live: "live_cell m r (Suc a) j i k" if "live_cell m r a b i k" for i k
      proof -
        obtain x where x: "x \<in> cell m r i k" using \<open>live_cell m r a b i k\<close> by (auto simp: live_cell_def)
        have ms_x: "unat ms \<le> x" and me_x: "i = a \<Longrightarrow> x < unat me"
          using x that wf_type_sorted [OF wf(1), of a i] R
          by (cases "i = a"; auto simp: live_cell_def cell_def rgn_addrs_def ms_def me_def)+
        have "\<not> k < j" using jb(3) [of k] that x ms_x by (auto simp: live_cell_def cell_def)
        moreover have "i \<noteq> a"
        proof
          assume "i = a"
          have "gap_start r j \<le> gap_start r k"
            using \<open>\<not> k < j\<close> that gap_mono [OF wf(2), of j k] gap_ordered [OF wf(2) jb(2)]
            by (cases "k = j") (auto simp: live_cell_def)
          then show False using x me_x [OF \<open>i = a\<close>] True by (auto simp: cell_def)
        qed
        ultimately show ?thesis using that by (auto simp: live_cell_def)
      qed
      have st': "cell_state m r (Suc a) j" using \<open>a < unat (cnt m)\<close> jb by (simp add: cell_state_def)
      have dec: "unat (cnt m) - Suc a < unat (cnt m) - a" using \<open>a < unat (cnt m)\<close> by simp
      have eq: "next_range_loop MEMBLOCK_NONE True m r (int a) (int b) =
        next_range_loop MEMBLOCK_NONE True m r (int (Suc a)) (int j)"
        using unf v by (simp add: add.commute)
      show ?thesis
      proof (cases "next_range_loop MEMBLOCK_NONE True m r (int (Suc a)) (int j)")
        case None
        then show ?thesis using less.hyps [OF dec st'] live unfolding eq by auto
      next
        case (Some v)
        then show ?thesis using less.hyps [OF dec st'] yields_cell_weaken [of m r "Suc a" j v a b] live jb(1)
          unfolding eq by simp
      qed
    next
      case False
      obtain f where "scan_gaps r ms me (int a) (int b) = Inl f" "yields_cell m r a b f"
        using next_range_hit [OF wf(1,2) \<open>a < unat (cnt m)\<close> ms_def me_def j False] by blast
      then show ?thesis using unf by simp
    qed
  next
    case False
    then have "a = unat (cnt m)" using less.prems by (simp add: cell_state_def)
    then have "\<not> (word_of_int (int a) :: ulong) < cnt m" by simp
    then show ?thesis using False by (subst next_range_loop.simps) (auto simp: live_cell_def)
  qed
qed

definition pack :: "nat \<Rightarrow> nat \<Rightarrow> u64" where
  "pack a b = ucast (word_of_int (int a) :: u32) OR push_bit 32 (word_of_int (int b))"

lemma sint_ucast_of_nat:
  assumes "k < 2 ^ 31" shows "sint (ucast (of_nat k :: ulong) :: u32) = int k"
proof -
  have "ucast (of_nat k :: ulong) = (of_nat k :: u32)"
    using assms by (simp add: word_unat_eq_iff unsigned_ucast_eq unsigned_of_nat take_bit_nat_eq_self)
  then show ?thesis using assms by (simp add: signed_of_nat signed_take_bit_int_eq_self)
qed

lemma unat_pack: "a < 2 ^ 31 \<Longrightarrow> b < 2 ^ 31 \<Longrightarrow> unat (pack a b) = a + b * 2 ^ 32"
proof -
  assume ab: "a < 2 ^ 31" "b < 2 ^ 31"
  have a: "unat (ucast (word_of_int (int a) :: u32) :: u64) = a" 
    using ab by (simp add: unsigned_ucast_eq unsigned_of_nat take_bit_nat_eq_self)
  have b: "unat (word_of_int (int b) :: u64) = b" using ab by (simp add: unsigned_of_nat take_bit_nat_eq_self)
  have "unat (push_bit 32 (word_of_int (int b)) :: u64) = b * 2 ^ 32"
    using ab b by (simp add: push_bit_eq_mult unat_word_ariths)
  moreover have "a OR (b * 2 ^ 32) = a + b * 2 ^ 32"
  proof -
    have "take_bit 32 a = a" using ab by (simp add: take_bit_nat_eq_self)
    then have lo: "n < 32" if "bit a n" for n using that by (metis bit_take_bit_iff)
    have "a OR push_bit 32 b = a + push_bit 32 b"
      by (intro disjunctive_add [symmetric]) (auto simp: bit_simps dest!: lo)
    then show ?thesis by (simp add: push_bit_eq_mult)
  qed
  ultimately show ?thesis unfolding pack_def unsigned_or_eq a by simp
qed

lemma pack_halves:
  assumes "a < 2 ^ 31" "b < 2 ^ 31"
  shows "sint (ucast (pack a b AND 0xffffffff) :: u32) = int a"
    "sint (ucast (drop_bit 32 (pack a b)) :: u32) = int b" "pack a b \<noteq> NOT 0"
proof -
  have "pack a b AND 0xffffffff = of_nat a"
  proof -
    have "unat (pack a b AND mask 32) = a"
      unfolding take_bit_eq_mask [symmetric] unsigned_take_bit_eq unat_pack [OF assms]
      using assms by (simp add: take_bit_eq_mod)
    moreover have "(mask 32 :: u64) = 0xffffffff" by (simp add: mask_eq_exp_minus_1)
    ultimately show ?thesis by (metis unat_word_inv)
  qed
  then show "sint (ucast (pack a b AND 0xffffffff) :: u32) = int a"
    using sint_ucast_of_nat [OF assms(1)] by simp
  have "drop_bit 32 (pack a b) = of_nat b"
  proof -
    have "unat (drop_bit 32 (pack a b)) = b"
      unfolding unsigned_drop_bit_eq unat_pack [OF assms] using assms by (simp add: drop_bit_eq_div take_bit_eq_mod)
    then show ?thesis by (metis unat_word_inv)
  qed
  then show "sint (ucast (drop_bit 32 (pack a b)) :: u32) = int b"
    using sint_ucast_of_nat [OF assms(2)] by simp
  show "pack a b \<noteq> NOT 0"
  proof
    assume "pack a b = NOT 0"
    then have "unat (pack a b) = 2 ^ 64 - 1" by (simp add: unsigned_minus_1_eq_mask mask_eq_exp_minus_1)
    then show False using unat_pack [OF assms] assms by simp
  qed
qed

text \<open>The range iterator on packed states.\<close>

lemma next_mem_range_ok:
  assumes "wf_type m" "wf_type r" "no_flags m" "cell_state m r a b"
  shows "(simple_next_mem_range (pack a b) MEMBLOCK_NONE True m r = (NOT 0, None)
            \<and> (\<forall>i j. \<not> live_cell m r a b i j))
       \<or> (\<exists>s e a' b'. simple_next_mem_range (pack a b) MEMBLOCK_NONE True m r = (pack a' b', Some (s, e))
            \<and> pack a' b' \<noteq> NOT 0 \<and> yields_cell m r a b (s, e, int a', int b'))"
proof -
  have ab: "a < 2 ^ 31" "b < 2 ^ 31"
    using assms(4) cnt_facts(1) [OF assms(1)] cnt_facts(1) [OF assms(2)] unfolding cell_state_def by linarith+
  note next_range_loop_ok [OF assms]
  show ?thesis
  proof (cases "next_range_loop MEMBLOCK_NONE True m r (int a) (int b)")
    case None
    then show ?thesis using next_range_loop_ok [OF assms]
      by (simp add: simple_next_mem_range_def pack_halves [OF ab])
  next
    case (Some v)
    then have y: "yields_cell m r a b v" using next_range_loop_ok [OF assms] by simp
    then obtain s e a' b' where v: "v = (s, e, int a', int b')" and st: "cell_state m r a' b'"
      unfolding yields_cell_def by blast
    have "a' < 2 ^ 31" "b' < 2 ^ 31"
      using st cnt_facts(1) [OF assms(1)] cnt_facts(1) [OF assms(2)] unfolding cell_state_def by linarith+
    then have "pack a' b' \<noteq> NOT 0" by (rule pack_halves)
    moreover have "simple_next_mem_range (pack a b) MEMBLOCK_NONE True m r = (pack a' b', Some (s, e))"
      using Some v by (simp add: simple_next_mem_range_def pack_halves [OF ab] pack_def [of a' b'])
    ultimately show ?thesis using y v by blast
  qed
qed

text \<open>Rounding to a power of two.\<close>

lemma nat_or_mask: "n OR mask k = (n div 2 ^ k) * 2 ^ k + (2 ^ k - 1 :: nat)"
proof -
  have "n OR mask k = push_bit k (drop_bit k n) OR mask k"
    by (rule bit_eqI) (auto simp: bit_simps)
  also have "\<dots> = push_bit k (drop_bit k n) + mask k"
    by (intro disjunctive_add [symmetric]) (auto simp: bit_simps)
  finally show ?thesis by (simp add: push_bit_eq_mult drop_bit_eq_div mask_eq_exp_minus_1)
qed

lemma unat_round_up:
  assumes "0 < x" "k < 64"
  shows "unat (round_up x (2 ^ k)) = (((unat x - 1) div 2 ^ k + 1) * 2 ^ k) mod 2 ^ 64"
proof -
  have "(2 ^ k :: ulong) - 1 = mask k" by (simp add: mask_eq_exp_minus_1)
  moreover have "unat (mask k :: ulong) = mask k"
    using assms(2) by (simp add: unsigned_take_bit_eq take_bit_of_mask min_def unsigned_minus_1_eq_mask flip: take_bit_minus_one_eq_mask)
  moreover have "unat (x - 1) = unat x - 1" using assms(1) by unat_arith
  ultimately have "unat ((x - 1) OR (2 ^ k - 1)) = (unat x - 1) OR mask k" by (simp add: unsigned_or_eq)
  also have "\<dots> + 1 = ((unat x - 1) div 2 ^ k + 1) * 2 ^ k" by (simp add: nat_or_mask)
  finally show ?thesis by (simp add: round_up_def unat_word_ariths)
qed

text \<open>The least multiple at or above; 0 when there is none below the top of the address space.\<close>

lemma round_up_cases:
  assumes "0 < x" "k < 64"
  shows "(round_up x (2 ^ k) = 0 \<and> (\<forall>y. 2 ^ k dvd y \<longrightarrow> unat x \<le> y \<longrightarrow> 2 ^ 64 \<le> y))
    \<or> (x \<le> round_up x (2 ^ k) \<and> 2 ^ k dvd unat (round_up x (2 ^ k))
        \<and> (\<forall>y. 2 ^ k dvd y \<longrightarrow> unat x \<le> y \<longrightarrow> unat (round_up x (2 ^ k)) \<le> y))"
proof -
  define A :: nat where "A = 2 ^ k"
  define q where "q = (unat x - 1) div A + 1"
  have A: "0 < A" by (simp add: A_def)
  have x0: "0 < unat x" using assms(1) by (simp add: unat_gt_0)
  have up: "unat x \<le> q * A" using x0 A unfolding q_def
    using dividend_less_div_times [of A "unat x - 1"] by (simp add: distrib_right)
  have least: "q * A \<le> y" if "A dvd y" "unat x \<le> y" for y
  proof -
    from that(1) obtain c where c: "y = A * c" ..
    then have "(unat x - 1) div A < c" using that(2) x0 A by (simp add: div_less_iff_less_mult mult.commute)
    then have "q \<le> c" by (simp add: q_def)
    then show ?thesis using c by (simp add: mult.commute)
  qed
  have r: "unat (round_up x (2 ^ k)) = (q * A) mod 2 ^ 64"
    using unat_round_up [OF assms] unfolding A_def q_def by simp
  have dv: "A dvd 2 ^ 64" using assms(2) unfolding A_def by (intro le_imp_power_dvd) simp
  have "unat x < 2 ^ 64" using unsigned_less [of x, where ?'a = nat] by simp
  then have "unat x - 1 < 2 ^ 64" by simp
  then have "(unat x - 1) div A < 2 ^ 64 div A"
    using dv A by (simp add: div_less_iff_less_mult)
  then have "q \<le> 2 ^ 64 div A" by (simp add: q_def)
  then have "q * A \<le> 2 ^ 64 div A * A" by (rule mult_le_mono1)
  then have "q * A \<le> 2 ^ 64" unfolding dvd_div_mult_self [OF dv] .
  then consider "q * A = 2 ^ 64" | "q * A < 2 ^ 64" by linarith
  then show ?thesis
  proof cases
    case 1
    then have "round_up x (2 ^ k) = 0" using r by (simp add: unat_eq_zero)
    then show ?thesis using least 1 A_def by auto
  next
    case 2
    then have "unat (round_up x (2 ^ k)) = q * A" using r by simp
    then show ?thesis using least up by (simp add: A_def word_le_nat_alt)
  qed
qed

section \<open>First fit\<close>

text \<open>\<open>x\<close> starts an aligned block of \<open>n\<close> bytes inside one free cell and the limits.\<close>

definition fits :: "memblock \<Rightarrow> nat \<Rightarrow> nat \<Rightarrow> nat \<Rightarrow> nat \<Rightarrow> nat \<Rightarrow> nat \<Rightarrow> nat \<Rightarrow> bool" where
  "fits mb lo hi n A i j x \<longleftrightarrow> i < unat (cnt (memory mb)) \<and> j \<le> unat (cnt (reserved mb)) \<and> A dvd x
     \<and> {x..<x + n} \<subseteq> cell (memory mb) (reserved mb) i j \<inter> {lo..<hi}"

lemma unat_max: "unat (max a b) = max (unat a) (unat (b :: ulong))"
  by (simp add: max_def word_le_nat_alt)

lemma unat_min: "unat (min a b) = min (unat a) (unat (b :: ulong))"
  by (simp add: min_def word_le_nat_alt)

lemma unat_clamp: "unat (clamp v lo hi) = min (max (unat v) (unat lo)) (unat hi)"
  by (simp add: clamp_def unat_min unat_max)

lemma block_in_interval:
  assumes "0 < n"
  shows "{x..<x + n} \<subseteq> {lo..<hi :: nat} \<longleftrightarrow> lo \<le> x \<and> x + n \<le> hi"
proof -
  have "x < x + n" using assms by simp
  then show ?thesis by (simp add: atLeastLessThan_subset_iff)
qed

lemma find_range_loop_ok:
  assumes wf: "wf_type (memory mb)" "wf_type (reserved mb)" "no_flags (memory mb)"
    and lim: "0 < lo" "lo \<le> hi" and sz: "0 < sz" and k: "k < 64"
    and st: "cell_state (memory mb) (reserved mb) a b"
  shows "\<exists>f. find_range_loop mb lo hi sz (2 ^ k) MEMBLOCK_NONE (pack a b) = Some f
    \<and> (f \<noteq> 0 \<longrightarrow> (\<exists>i j. fits mb (unat lo) (unat hi) (unat sz) (2 ^ k) i j (unat f)))
    \<and> (\<forall>i j x. live_cell (memory mb) (reserved mb) a b i j \<longrightarrow> fits mb (unat lo) (unat hi) (unat sz) (2 ^ k) i j x
          \<longrightarrow> f \<noteq> 0 \<and> unat f \<le> x)"
  using st
proof (induction "unat (cnt (memory mb)) + unat (cnt (reserved mb)) - (a + b)" arbitrary: a b rule: less_induct)
  case less
  let ?m = "memory mb" and ?r = "reserved mb"
  let ?fits = "fits mb (unat lo) (unat hi) (unat sz) (2 ^ k)"
  have n0: "0 < unat sz" using sz by (simp add: unat_gt_0)
  consider (none) "simple_next_mem_range (pack a b) MEMBLOCK_NONE True ?m ?r = (NOT 0, None)"
      "\<And>i j. \<not> live_cell ?m ?r a b i j"
    | (range) s e a' b' where "simple_next_mem_range (pack a b) MEMBLOCK_NONE True ?m ?r = (pack a' b', Some (s, e))"
      "pack a' b' \<noteq> NOT 0" "yields_cell ?m ?r a b (s, e, int a', int b')"
    using next_mem_range_ok [OF wf less.prems] by blast
  then show ?case
  proof cases
    case none
    then show ?thesis by (subst find_range_loop.simps) simp
  next
    case range
    from range(3) obtain i j where y: "cell_state ?m ?r a' b'" "a + b < a' + b'"
      "i < unat (cnt ?m)" "j \<le> unat (cnt ?r)" "s \<le> e" "{unat s..<unat e} = cell ?m ?r i j"
      "\<And>i' j'. live_cell ?m ?r a b i' j' \<Longrightarrow> (i' = i \<and> j' = j) \<or> live_cell ?m ?r a' b' i' j'"
      "\<And>i' j' x. live_cell ?m ?r a' b' i' j' \<Longrightarrow> x \<in> cell ?m ?r i' j' \<Longrightarrow> unat e \<le> x"
      unfolding yields_cell_def by auto
    define ts te c where "ts = clamp s lo hi" and "te = clamp e lo hi" and "c = round_up ts (2 ^ k)"
    have ts: "unat ts = min (max (unat s) (unat lo)) (unat hi)" and te: "unat te = min (max (unat e) (unat lo)) (unat hi)"
      unfolding ts_def te_def by (rule unat_clamp)+
    have se: "unat s \<le> unat e" and lh: "unat lo \<le> unat hi" "0 < unat lo"
      using y(5) lim by (simp_all add: word_le_nat_alt unat_gt_0)
    have "0 < ts" using ts lh by (simp add: word_less_nat_alt)
    note ru = round_up_cases [OF this k, folded c_def]
    have unf: "find_range_loop mb lo hi sz (2 ^ k) MEMBLOCK_NONE (pack a b) =
      (if c < te \<and> te - c \<ge> sz then Some c else find_range_loop mb lo hi sz (2 ^ k) MEMBLOCK_NONE (pack a' b'))"
      using range(1,2) by (subst find_range_loop.simps) (simp add: Let_def ts_def te_def c_def)
    have fit_lo: "unat ts \<le> x" "x < 2 ^ 64" "2 ^ k dvd x"
      if "live_cell ?m ?r a b i' j'" "?fits i' j' x" for i' j' x
    proof -
      have x: "x \<in> cell ?m ?r i' j'" "unat lo \<le> x" "x < unat hi" "2 ^ k dvd x"
        using that(2) n0 by (auto simp: fits_def subset_iff)
      from y(7) [OF that(1)] have "unat s \<le> x"
      proof
        assume "i' = i \<and> j' = j"
        then have "x \<in> {unat s..<unat e}" using x(1) y(6) by simp
        then show ?thesis by simp
      next
        assume "live_cell ?m ?r a' b' i' j'"
        then show ?thesis using y(8) [OF _ x(1)] se by (meson le_trans)
      qed
      then show "unat ts \<le> x" using x ts by simp
      have "unat hi < 2 ^ 64" using unsigned_less [of hi, where ?'a = nat] by simp
      then show "x < 2 ^ 64" using x by simp
      show "2 ^ k dvd x" by (rule x)
    qed
    have fit_c: "c \<noteq> 0 \<and> unat c \<le> x" if "live_cell ?m ?r a b i' j'" "?fits i' j' x" for i' j' x
      using ru
    proof
      assume "c = 0 \<and> (\<forall>y. 2 ^ k dvd y \<longrightarrow> unat ts \<le> y \<longrightarrow> 2 ^ 64 \<le> y)"
      then show ?thesis using fit_lo [OF that] by (meson leD)
    next
      assume "ts \<le> c \<and> 2 ^ k dvd unat c \<and> (\<forall>y. 2 ^ k dvd y \<longrightarrow> unat ts \<le> y \<longrightarrow> unat c \<le> y)"
      then show ?thesis using fit_lo [OF that] \<open>0 < ts\<close> by (metis word_not_simps(1) order.strict_trans2)
    qed
    show ?thesis
    proof (cases "c < te \<and> te - c \<ge> sz")
      case True
      have "?fits i j (unat c)" if "c \<noteq> 0"
      proof -
        have c: "unat ts \<le> unat c" "2 ^ k dvd unat c" using ru that by (auto simp: word_le_nat_alt)
        have "unat (te - c) = unat te - unat c" using True by (simp add: unat_sub less_imp_le)
        then have fit: "unat c + unat sz \<le> unat te" using True by (auto simp: word_le_nat_alt word_less_nat_alt)
        have "{unat c..<unat c + unat sz} \<subseteq> {unat s..<unat e}" "{unat c..<unat c + unat sz} \<subseteq> {unat lo..<unat hi}"
          unfolding block_in_interval [OF n0] using c fit ts te n0 lh by (auto simp: min_def max_def split: if_splits)
        then show ?thesis using y(3,4,6) c by (simp add: fits_def)
      qed
      then show ?thesis using True unf fit_c by (intro exI [of _ c]) (simp; blast)
    next
      case False
      have nofit: "\<not> ?fits i j x" if "live_cell ?m ?r a b i j" for x
      proof
        assume f: "?fits i j x"
        then have "{x..<x + unat sz} \<subseteq> {unat s..<unat e}" "{x..<x + unat sz} \<subseteq> {unat lo..<unat hi}"
          using y(6) by (auto simp: fits_def)
        then have "x + unat sz \<le> unat te" using te unfolding block_in_interval [OF n0] by simp
        moreover have "unat c \<le> x" using fit_c [OF that f] by simp
        ultimately have lt: "c < te" and ge: "unat sz \<le> unat te - unat c" using n0 by (simp_all add: word_less_nat_alt)
        have "unat (te - c) = unat te - unat c" using lt by (simp add: unat_sub less_imp_le)
        then show False using False lt ge by (simp add: word_le_nat_alt)
      qed
      have "unat (cnt ?m) + unat (cnt ?r) - (a' + b') < unat (cnt ?m) + unat (cnt ?r) - (a + b)"
        using y(1,2) by (auto simp: cell_state_def)
      from less.hyps [OF this y(1)] obtain f where
        f: "find_range_loop mb lo hi sz (2 ^ k) MEMBLOCK_NONE (pack a' b') = Some f"
        "f \<noteq> 0 \<longrightarrow> (\<exists>i j. ?fits i j (unat f))"
        "\<forall>i j x. live_cell ?m ?r a' b' i j \<longrightarrow> ?fits i j x \<longrightarrow> f \<noteq> 0 \<and> unat f \<le> x" by blast
      moreover have "f \<noteq> 0 \<and> unat f \<le> x" if "live_cell ?m ?r a b i' j'" "?fits i' j' x" for i' j' x
        using y(7) [OF that(1)] nofit f(3) that by blast
      ultimately show ?thesis using unf False by (intro exI [of _ f]) simp
    qed
  qed
qed

lemma mem_rgns: "r \<in> set (rgns t) \<longleftrightarrow> (\<exists>i < unat (cnt t). r = regions t i)"
  by (auto simp: rgns_def)

lemma mem_covers: "x \<in> covers t \<longleftrightarrow> (\<exists>i < unat (cnt t). x \<in> rgn_addrs (regions t i))"
  unfolding covers_def addrs_def by (auto simp: rgns_def)

text \<open>A cell holds free memory only.\<close>

lemma gap_free:
  assumes "wf_type t" "j \<le> unat (cnt t)"
  shows "{gap_start t j..<gap_end t j} \<inter> covers t = {}"
proof (rule ccontr)
  assume "\<not> ?thesis"
  then obtain x i where x: "gap_start t j \<le> x" "x < gap_end t j" "i < unat (cnt t)" "x \<in> rgn_addrs (regions t i)"
    by (auto simp: mem_covers)
  show False
  proof (cases "i < j")
    case True
    have "rgn_end (regions t i) \<le> gap_start t j"
    proof (cases "i = j - 1")
      case False
      then have "rgn_end (regions t i) \<le> unat (rgn_base (regions t (j - 1)))"
        using True assms(2) by (intro wf_type_sorted [OF assms(1)]) simp_all
      also have "\<dots> < rgn_end (regions t (j - 1))"
        using True assms(2) by (intro wf_type_regionD(2) [OF assms(1)]) simp
      finally show ?thesis using True by (simp add: gap_start_def)
    qed (use True in \<open>simp add: gap_start_def\<close>)
    then show False using x by (simp add: rgn_addrs_def)
  next
    case False
    have "gap_end t j \<le> unat (rgn_base (regions t i))"
    proof (cases "i = j")
      case True then show ?thesis using x(3) by (simp add: gap_end_def)
    next
      case ne: False
      then have "rgn_end (regions t j) \<le> unat (rgn_base (regions t i))"
        using False x(3) by (intro wf_type_sorted [OF assms(1)]) simp_all
      moreover have "unat (rgn_base (regions t j)) < rgn_end (regions t j)"
        using False ne x(3) by (intro wf_type_regionD(2) [OF assms(1)]) simp
      ultimately show ?thesis using False x(3) by (simp add: gap_end_def)
    qed
    then show False using x by (simp add: rgn_addrs_def)
  qed
qed

lemma block_in_gap:
  assumes "wf_type t" "0 < n" "{x..<x + n} \<inter> covers t = {}" "x + n < 2 ^ 64"
  shows "\<exists>j \<le> unat (cnt t). {x..<x + n} \<subseteq> {gap_start t j..<gap_end t j}"
proof -
  define P where "P j \<longleftrightarrow> j = unat (cnt t) \<or> x < rgn_end (regions t j)" for j
  define j where "j = (LEAST j. P j)"
  have Pj: "P j" unfolding j_def by (rule LeastI [of P "unat (cnt t)"]) (simp add: P_def)
  have jl: "j \<le> unat (cnt t)" unfolding j_def by (rule Least_le) (simp add: P_def)
  have lo: "gap_start t j \<le> x"
  proof (cases j)
    case (Suc k)
    then have "\<not> P k" using not_less_Least [of k P] by (simp add: j_def)
    then show ?thesis using Suc by (simp add: P_def gap_start_def)
  qed (simp add: gap_start_def)
  have hi: "x + n \<le> gap_end t j"
  proof (cases "j < unat (cnt t)")
    case True
    then have e: "x < rgn_end (regions t j)" using Pj by (simp add: P_def)
    show ?thesis
    proof (rule ccontr)
      assume "\<not> x + n \<le> gap_end t j"
      then have "unat (rgn_base (regions t j)) < x + n" using True by (simp add: gap_end_def)
      then have "Max {x, unat (rgn_base (regions t j))} \<in> {x..<x + n} \<inter> rgn_addrs (regions t j)"
        using e assms(2) wf_type_regionD(2) [OF assms(1) True] by (auto simp: rgn_addrs_def max_def)
      then show False using assms(3) wf_type_regionD(3) [OF assms(1) True] by blast
    qed
  next
    case False
    then show ?thesis using assms(4) by (simp add: gap_end_def)
  qed
  show ?thesis using jl lo hi by (intro exI [of _ j]) (simp add: block_in_interval [OF assms(2)])
qed

text \<open>
  The specification of a request: an aligned block between the limits, inside one memory region,
  that no reserved region touches.
\<close>

definition free_block :: "memblock \<Rightarrow> nat \<Rightarrow> nat \<Rightarrow> nat \<Rightarrow> nat \<Rightarrow> nat \<Rightarrow> bool" where
  "free_block mb lo hi n A x \<longleftrightarrow> A dvd x \<and> lo \<le> x \<and> x + n \<le> hi
     \<and> (\<exists>r \<in> set (rgns (memory mb)). {x..<x + n} \<subseteq> rgn_addrs r) \<and> {x..<x + n} \<inter> covers (reserved mb) = {}"

definition mb_ok :: "memblock \<Rightarrow> bool" where
  "mb_ok mb \<longleftrightarrow> wf_type (memory mb) \<and> wf_type (reserved mb) \<and> no_flags (memory mb) \<and> no_flags (reserved mb)"

lemma free_block_iff_fits:
  assumes "mb_ok mb" "0 < n"
  shows "free_block mb lo hi n A x \<longleftrightarrow> (\<exists>i j. fits mb lo hi n A i j x)"
proof
  assume fb: "free_block mb lo hi n A x"
  then obtain i where i: "i < unat (cnt (memory mb))" "{x..<x + n} \<subseteq> rgn_addrs (regions (memory mb) i)"
    by (auto simp: free_block_def mem_rgns)
  have "x + n < 2 ^ 64"
  proof -
    have "x + n \<le> rgn_end (regions (memory mb) i)"
      using i(2) unfolding rgn_addrs_def block_in_interval [OF assms(2)] by simp
    also have "\<dots> < 2 ^ 64" using assms(1) i(1) by (intro wf_type_regionD) (simp_all add: mb_ok_def)
    finally show ?thesis .
  qed
  then obtain j where "j \<le> unat (cnt (reserved mb))"
    "{x..<x + n} \<subseteq> {gap_start (reserved mb) j..<gap_end (reserved mb) j}"
    using block_in_gap [of "reserved mb" n x] assms fb by (auto simp: mb_ok_def free_block_def)
  then have "fits mb lo hi n A i j x"
    using fb i by (auto simp: fits_def cell_def free_block_def)
  then show "\<exists>i j. fits mb lo hi n A i j x" by blast
next
  assume "\<exists>i j. fits mb lo hi n A i j x"
  then obtain i j where f: "i < unat (cnt (memory mb))" "j \<le> unat (cnt (reserved mb))" "A dvd x"
    "{x..<x + n} \<subseteq> cell (memory mb) (reserved mb) i j" "{x..<x + n} \<subseteq> {lo..<hi}"
    by (auto simp: fits_def)
  have "{x..<x + n} \<inter> covers (reserved mb) = {}"
    using gap_free [of "reserved mb" j] assms(1) f(2,4) unfolding mb_ok_def cell_def by blast
  moreover have "\<exists>r \<in> set (rgns (memory mb)). {x..<x + n} \<subseteq> rgn_addrs r"
    using f(1,4) mem_rgns [of "regions (memory mb) i" "memory mb"] unfolding cell_def by blast
  moreover have "lo \<le> x \<and> x + n \<le> hi" using f(5) unfolding block_in_interval [OF assms(2)] .
  ultimately show "free_block mb lo hi n A x" using f(3) by (simp add: free_block_def)
qed

lemma fits_live: "fits mb lo hi n A i j x \<Longrightarrow> 0 < n \<Longrightarrow> live_cell (memory mb) (reserved mb) 0 0 i j"
  by (auto simp: fits_def live_cell_def)

lemma pack_0 [simp]: "pack 0 0 = 0"
  by (simp add: pack_def)

text \<open>The search: the least block that fits, or 0 when none does.\<close>

definition least_free :: "memblock \<Rightarrow> nat \<Rightarrow> nat \<Rightarrow> nat \<Rightarrow> nat \<Rightarrow> nat \<Rightarrow> bool" where
  "least_free mb lo hi n A f \<longleftrightarrow>
     (f \<noteq> 0 \<longrightarrow> free_block mb lo hi n A f) \<and> (\<forall>x. free_block mb lo hi n A x \<longrightarrow> f \<noteq> 0 \<and> f \<le> x)"

lemma find_range_ok:
  assumes "mb_ok mb" "0 < lo" "lo \<le> hi" "0 < sz" "k < 64"
  shows "\<exists>f. memblock_find_range_bottom_up lo hi sz (2 ^ k) MEMBLOCK_NONE mb = Ret f
     \<and> least_free mb (unat lo) (unat hi) (unat sz) (2 ^ k) (unat f)"
proof -
  have n0: "0 < unat sz" using assms(4) by (simp add: unat_gt_0)
  have st: "cell_state (memory mb) (reserved mb) 0 0" by (simp add: cell_state_def)
  have wf: "wf_type (memory mb)" "wf_type (reserved mb)" "no_flags (memory mb)"
    using assms(1) by (simp_all add: mb_ok_def)
  obtain f where f: "find_range_loop mb lo hi sz (2 ^ k) MEMBLOCK_NONE 0 = Some f"
    "f \<noteq> 0 \<longrightarrow> (\<exists>i j. fits mb (unat lo) (unat hi) (unat sz) (2 ^ k) i j (unat f))"
    "\<forall>i j x. live_cell (memory mb) (reserved mb) 0 0 i j \<longrightarrow> fits mb (unat lo) (unat hi) (unat sz) (2 ^ k) i j x
          \<longrightarrow> f \<noteq> 0 \<and> unat f \<le> x"
    using find_range_loop_ok [OF wf assms(2-5) st] by auto
  have "least_free mb (unat lo) (unat hi) (unat sz) (2 ^ k) (unat f)"
    unfolding least_free_def free_block_iff_fits [OF assms(1) n0]
    using f(2,3) fits_live [OF _ n0] by (metis unat_0 unat_eq_zero)
  then show ?thesis using f(1) by (auto simp: memblock_find_range_bottom_up_def)
qed

text \<open>The limits and the alignment the allocator searches with.\<close>

definition eff_align :: "phys_addr_t \<Rightarrow> phys_addr_t" where
  "eff_align align = (if align = 0 then SMP_CACHE_BYTES else align)"

definition eff_lo :: "phys_addr_t \<Rightarrow> phys_addr_t" where
  "eff_lo start = max start PAGE_SIZE"

definition eff_hi :: "memblock \<Rightarrow> phys_addr_t \<Rightarrow> phys_addr_t \<Rightarrow> phys_addr_t" where
  "eff_hi mb start end = max (eff_lo start)
     (if end = MEMBLOCK_ALLOC_ACCESSIBLE \<or> end = MEMBLOCK_ALLOC_NOLEAKTRACE then current_limit mb else end)"

definition room :: "memblock \<Rightarrow> nat" where
  "room mb = unat (max_cnt (reserved mb)) - unat (cnt (reserved mb))"

text \<open>What one allocation promises.\<close>

definition alloc_ok :: "memblock \<Rightarrow> nat \<Rightarrow> nat \<Rightarrow> nat \<Rightarrow> nat \<Rightarrow> nat \<Rightarrow> memblock \<Rightarrow> bool" where
  "alloc_ok mb lo hi n A f mb' \<longleftrightarrow> least_free mb lo hi n A f \<and> mb_ok mb' \<and> memory mb' = memory mb
     \<and> current_limit mb' = current_limit mb \<and> (f = 0 \<longrightarrow> mb' = mb) \<and> (f \<noteq> 0 \<longrightarrow> covers (reserved mb') = covers (reserved mb) \<union> {f..<f + n})
     \<and> room mb \<le> Suc (room mb') \<and> max_cnt (reserved mb') = max_cnt (reserved mb)"

lemma memblock_alloc_range_ok:
  assumes "mb_ok mb" "0 < sz" "eff_align align = 2 ^ k" "k < 64" "3 < room mb"
  shows "\<exists>f mb'. memblock_alloc_range sz align start end mb = Ret (f, mb')
     \<and> alloc_ok mb (unat (eff_lo start)) (unat (eff_hi mb start end)) (unat sz) (2 ^ k) (unat f) mb'"
proof -
  let ?lo = "eff_lo start" and ?hi = "eff_hi mb start end"
  have lim: "0 < ?lo" "?lo \<le> ?hi"
    by (auto simp: eff_lo_def eff_hi_def PAGE_SIZE_def PAGE_SHIFT_def less_max_iff_disj)
  obtain f where f: "memblock_find_range_bottom_up ?lo ?hi sz (2 ^ k) MEMBLOCK_NONE mb = Ret f"
    and least: "least_free mb (unat ?lo) (unat ?hi) (unat sz) (2 ^ k) (unat f)"
    using find_range_ok [OF assms(1) lim assms(2,4)] by blast
  have unf: "memblock_alloc_range sz align start end mb =
    (if f \<noteq> 0 then bnd (simple_mmblk_reserve f sz mb) (\<lambda>(r, mb). if r = 0 then Ret (f, mb) else Ret (0, mb))
     else Ret (0, mb))"
    using f unfolding memblock_alloc_range_def eff_lo_def eff_hi_def eff_align_def Let_def assms(3) [symmetric]
    by simp
  show ?thesis
  proof (cases "f = 0")
    case True
    then show ?thesis using unf least assms(1) by (simp add: alloc_ok_def)
  next
    case False
    have fb: "free_block mb (unat ?lo) (unat ?hi) (unat sz) (2 ^ k) (unat f)"
      using least False by (simp add: least_free_def unat_eq_zero)
    then have dis: "covers (reserved mb) \<inter> {unat f..<unat f + unat sz} = {}"
      and "unat f + unat sz \<le> unat ?hi" by (auto simp: free_block_def)
    moreover have "unat ?hi < 2 ^ 64" using unsigned_less [of ?hi, where ?'a = nat] by simp
    ultimately have end64: "unat f + unat sz < 2 ^ 64" by simp
    have "unat (cnt (reserved mb)) + 3 < unat (max_cnt (reserved mb))" using assms(5) by (simp add: room_def)
    then obtain t' where t': "simple_mmblk_add_range f sz 0 (reserved mb) = Ret (0, t')" "wf_type t'" "no_flags t'"
      "covers t' = covers (reserved mb) \<union> {unat f..<unat f + unat sz}" "max_cnt t' = max_cnt (reserved mb)"
      "cnt t' \<le> cnt (reserved mb) + 1"
      using add_range_ok [of "reserved mb" sz f 0] assms(1,2) end64 dis by (auto simp: mb_ok_def)
    have "unat (cnt (reserved mb) + 1) = Suc (unat (cnt (reserved mb)))"
      using assms(1) by (intro cnt_facts) (simp add: mb_ok_def)
    then have "room mb \<le> Suc (room (mb\<lparr>reserved := t'\<rparr>))"
      using t'(5,6) by (simp add: room_def word_le_nat_alt)
    then show ?thesis using unf False least t' assms(1)
      by (simp add: simple_mmblk_reserve_def alloc_ok_def mb_ok_def unat_eq_zero)
  qed
qed

section \<open>Hand-over to the page allocator\<close>

lemma unat_PFN_DOWN: "unat (PFN_DOWN x) = unat x div 4096"
  by (simp add: PFN_DOWN_def PAGE_SHIFT_def drop_bit_eq_div unat_div)

lemma unat_PFN_UP: "unat x \<le> 2 ^ 64 - 4096 \<Longrightarrow> unat (PFN_UP x) = (unat x + 4095) div 4096"
  by (simp add: PFN_UP_def PAGE_SHIFT_def PAGE_SIZE_def drop_bit_eq_div unat_div unat_word_ariths)

lemma ffs_aligned: "2 ^ min n (ffs_word f0 w) dvd unat w"
proof (cases "w = 0")
  case False
  let ?l = "length (takeWhile (\<lambda>k. \<not> bit w k) [0..<64])"
  have "\<not> bit w k" if "k < ?l" for k
    using that nth_mem [OF that] set_takeWhileD [of "takeWhile (\<lambda>k. \<not> bit w k) [0..<64] ! k"]
      takeWhile_nth [OF that] length_takeWhile_le [of "\<lambda>k. \<not> bit w k" "[0..<64]"] by fastforce
  then have "take_bit (min n ?l) (unat w) = 0"
    by (intro bit_eqI) (auto simp: bit_simps)
  then show ?thesis using False by (simp add: ffs_word_def take_bit_eq_0_iff)
qed simp

lemma fit_order_returns:
  assumes "s < e" shows "\<exists>k. fit_order s e n = Ret k"
proof -
  have "\<not> s + 1 > e" using assms by (metis inc_le leD)
  then show ?thesis by (induction n) auto
qed

text \<open>Aligned blocks of at most \<open>2 ^ MAX_ORDER\<close> frames that tile an interval.\<close>

fun tiles :: "(ulong \<times> nat) list \<Rightarrow> nat \<Rightarrow> nat \<Rightarrow> bool" where
  "tiles [] s e \<longleftrightarrow> s = e"
| "tiles ((p, k) # bs) s e \<longleftrightarrow> unat p = s \<and> k \<le> MAX_ORDER \<and> 2 ^ k dvd s \<and> tiles bs (s + 2 ^ k) e"

lemma cut_blocks_ok:
  assumes "unat e < 2 ^ 52" "s \<le> e"
  shows "\<exists>bs. cut_blocks f0 s e calls = Some (Ret (calls @ bs)) \<and> tiles bs (unat s) (unat e)"
  using assms(2)
proof (induction "unat e - unat s" arbitrary: s calls rule: less_induct)
  case less
  show ?case
  proof (cases "s < e")
    case True
    obtain k where k: "fit_order s e (min MAX_ORDER (ffs_word f0 s)) = Ret k"
      using fit_order_returns [OF True] by blast
    then have kl: "k \<le> min MAX_ORDER (ffs_word f0 s)" and fit: "s + push_bit k 1 \<le> e"
      using fit_order_fits by blast+
    have "(2 :: nat) ^ k dvd 2 ^ min MAX_ORDER (ffs_word f0 s)" using kl by (rule le_imp_power_dvd)
    then have dv: "2 ^ k dvd unat s" using ffs_aligned dvd_trans by blast
    have le10: "(2 :: nat) ^ k \<le> 2 ^ 10" using kl by (intro power_increasing) (simp_all add: MAX_ORDER_def)
    then have "unat (of_nat (2 ^ k) :: ulong) = 2 ^ k" by (intro unat_of_nat_small) simp
    then have p: "unat (push_bit k 1 :: ulong) = 2 ^ k" by (simp add: push_bit_eq_mult)
    note le10 p
    moreover have "unat s < 2 ^ 52" using True assms(1) by (simp add: word_less_nat_alt)
    ultimately have u: "unat (s + push_bit k 1) = unat s + 2 ^ k" by (simp add: unat_word_ariths)
    have "unat e - unat (s + push_bit k 1) < unat e - unat s" 
      unfolding u using True by (intro diff_less_mono2) (simp_all add: word_less_nat_alt)
    from less.hyps [OF this fit, of "calls @ [(s, k)]"] obtain bs where
      "cut_blocks f0 (s + push_bit k 1) e (calls @ [(s, k)]) = Some (Ret ((calls @ [(s, k)]) @ bs))"
      "tiles bs (unat s + 2 ^ k) (unat e)" unfolding u by blast
    moreover have "cut_blocks f0 s e calls = cut_blocks f0 (s + push_bit k 1) e (calls @ [(s, k)])"
      using True k by (subst cut_blocks.simps) simp
    ultimately show ?thesis using kl dv by (intro exI [of _ "(s, k) # bs"]) simp
  next
    case False
    then have "s = e" using less.prems by simp
    then show ?thesis by (subst cut_blocks.simps) (intro exI [of _ "[]"], simp)
  qed
qed

text \<open>The frames of a list of blocks, and lists of aligned blocks in ascending order.\<close>

definition frames :: "(ulong \<times> nat) list \<Rightarrow> nat set" where
  "frames bs = (\<Union>(p, k) \<in> set bs. {unat p..<unat p + 2 ^ k})"

definition blocks_ok :: "(ulong \<times> nat) list \<Rightarrow> bool" where
  "blocks_ok bs \<longleftrightarrow> (\<forall>(p, k) \<in> set bs. k \<le> MAX_ORDER \<and> 2 ^ k dvd unat p)
     \<and> sorted_wrt (\<lambda>(p, k) (q, l). unat p + 2 ^ k \<le> unat q) bs"

lemma frames_simps [simp]:
  "frames [] = {}" "frames ((p, k) # bs) = {unat p..<unat p + 2 ^ k} \<union> frames bs"
  "frames (bs @ cs) = frames bs \<union> frames cs"
  by (auto simp: frames_def)

lemma frame_first: "(p, k) \<in> set bs \<Longrightarrow> unat p \<in> frames bs"
  by (force simp: frames_def)

lemma frame_last: "(p, k) \<in> set bs \<Longrightarrow> unat p + 2 ^ k - 1 \<in> frames bs"
proof -
  assume m: "(p, k) \<in> set bs"
  have "(1 :: nat) \<le> 2 ^ k" by (rule one_le_power) simp
  then have "unat p + 2 ^ k - 1 \<in> {unat p..<unat p + 2 ^ k}" unfolding atLeastLessThan_iff by linarith
  with m show ?thesis unfolding frames_def by blast
qed

lemma tiles_le: "tiles bs s e \<Longrightarrow> s \<le> e"
  by (induction bs s e rule: tiles.induct) (auto intro: add_leD1)

lemma tiles_blocks:
  "tiles bs s e \<Longrightarrow> frames bs = {s..<e} \<and> blocks_ok bs"
proof (induction bs s e rule: tiles.induct)
  case (1 s e)
  then show ?case by (simp add: blocks_ok_def)
next
  case (2 p k bs s e)
  then have IH: "frames bs = {s + 2 ^ k..<e}" "blocks_ok bs" and le: "s + 2 ^ k \<le> e" using tiles_le by auto
  have "unat p + 2 ^ k \<le> unat q" if "(q, l) \<in> set bs" for q l
    using frame_first [OF that] IH(1) 2(2) by simp
  then show ?case using 2(2) IH le by (auto simp: blocks_ok_def)
qed

lemma blocks_ok_append:
  assumes "blocks_ok bs" "blocks_ok cs" "\<And>x y. x \<in> frames bs \<Longrightarrow> y \<in> frames cs \<Longrightarrow> x < y"
  shows "blocks_ok (bs @ cs)"
proof -
  have "unat p + 2 ^ k \<le> unat q" if "(p, k) \<in> set bs" "(q, l) \<in> set cs" for p k q l
    using assms(3) [OF frame_last [OF that(1)] frame_first [OF that(2)]] by simp
  then show ?thesis using assms(1,2) by (auto simp: blocks_ok_def sorted_wrt_append)
qed

text \<open>The whole frames below \<open>hi\<close> inside one live cell.\<close>

definition page_bytes :: "nat \<Rightarrow> nat set" where
  "page_bytes p = {p * 4096..<(p + 1) * 4096}"

definition cell_frames :: "memblock \<Rightarrow> nat \<Rightarrow> nat \<Rightarrow> nat \<Rightarrow> nat set" where
  "cell_frames mb hi a b = {p. p < hi \<and>
     (\<exists>i j. live_cell (memory mb) (reserved mb) a b i j \<and> page_bytes p \<subseteq> cell (memory mb) (reserved mb) i j)}"

lemma page_in_range:
  assumes "unat s \<le> unat e" "unat e \<le> 2 ^ 64 - 4096"
  shows "page_bytes p \<subseteq> {unat s..<unat e} \<longleftrightarrow> unat (PFN_UP s) \<le> p \<and> p < unat (PFN_DOWN e)"
proof -
  have "(p + 1) * 4096 = p * 4096 + 4096" by simp
  then have "page_bytes p \<subseteq> {unat s..<unat e} \<longleftrightarrow> unat s \<le> p * 4096 \<and> p * 4096 + 4096 \<le> unat e"
    unfolding page_bytes_def using block_in_interval [of 4096 "p * 4096"] by (simp add: add.commute)
  also have "\<dots> \<longleftrightarrow> (unat s + 4095) div 4096 < p + 1 \<and> p + 1 \<le> unat e div 4096"
    by (simp add: div_less_iff_less_mult less_eq_div_iff_mult_less_eq) linarith
  finally show ?thesis using assms by (simp add: unat_PFN_UP unat_PFN_DOWN less_Suc_eq_le Suc_le_eq)
qed

lemma page_bytes_nonempty: "p * 4096 \<in> page_bytes p"
  by (simp add: page_bytes_def)

lemma cell_frames_step:
  assumes "yields_cell (memory mb) (reserved mb) a b (s, e, int a', int b')"
  shows "cell_frames mb h a b = {p. p < h \<and> page_bytes p \<subseteq> {unat s..<unat e}} \<union> cell_frames mb h a' b'"
    "p \<in> cell_frames mb h a' b' \<Longrightarrow> unat e \<le> p * 4096"
proof -
  let ?m = "memory mb" and ?r = "reserved mb"
  from assms obtain i j where y: "a \<le> a'" "b \<le> b'"
    "i < unat (cnt ?m)" "j \<le> unat (cnt ?r)" "a \<le> i" "b \<le> j" "{unat s..<unat e} = cell ?m ?r i j"
    "\<And>i' j'. live_cell ?m ?r a b i' j' \<Longrightarrow> (i' = i \<and> j' = j) \<or> live_cell ?m ?r a' b' i' j'"
    "\<And>i' j' x. live_cell ?m ?r a' b' i' j' \<Longrightarrow> x \<in> cell ?m ?r i' j' \<Longrightarrow> unat e \<le> x"
    unfolding yields_cell_def by auto
  have mono: "live_cell ?m ?r a b i' j'" if "live_cell ?m ?r a' b' i' j'" for i' j'
    using that y(1,2) by (simp add: live_cell_def)
  have self: "live_cell ?m ?r a b i j" if "page_bytes p \<subseteq> cell ?m ?r i j" for p
    using that y(3-6) page_bytes_nonempty [of p] by (auto simp: live_cell_def)
  show "cell_frames mb h a b = {p. p < h \<and> page_bytes p \<subseteq> {unat s..<unat e}} \<union> cell_frames mb h a' b'"
    unfolding cell_frames_def y(7) using y(8) mono self by blast
  show "unat e \<le> p * 4096" if "p \<in> cell_frames mb h a' b'"
    using that y(9) page_bytes_nonempty [of p] unfolding cell_frames_def by blast
qed

lemma free_all_loop_ok:
  assumes ok: "mb_ok mb" and top: "\<And>i. i < unat (cnt (memory mb)) \<Longrightarrow> rgn_end (regions (memory mb) i) \<le> 2 ^ 64 - 4096"
    and st: "cell_state (memory mb) (reserved mb) a b"
  shows "\<exists>bs. free_all_loop f0 hi mb (pack a b) calls = Some (Ret (calls @ bs))
     \<and> blocks_ok bs \<and> frames bs = cell_frames mb (unat hi) a b"
  using st
proof (induction "unat (cnt (memory mb)) + unat (cnt (reserved mb)) - (a + b)" arbitrary: a b calls rule: less_induct)
  case less
  let ?m = "memory mb" and ?r = "reserved mb"
  have wf: "wf_type ?m" "wf_type ?r" "no_flags ?m" using ok by (simp_all add: mb_ok_def)
  consider (none) "simple_next_mem_range (pack a b) MEMBLOCK_NONE True ?m ?r = (NOT 0, None)"
      "\<And>i j. \<not> live_cell ?m ?r a b i j"
    | (range) s e a' b' where "simple_next_mem_range (pack a b) MEMBLOCK_NONE True ?m ?r = (pack a' b', Some (s, e))"
      "pack a' b' \<noteq> NOT 0" "yields_cell ?m ?r a b (s, e, int a', int b')"
    using next_mem_range_ok [OF wf less.prems] by blast
  then show ?case
  proof cases
    case none
    then show ?thesis
      by (subst free_all_loop.simps) (simp add: cell_frames_def blocks_ok_def)
  next
    case range
    from range(3) obtain i j where y: "cell_state ?m ?r a' b'" "a + b < a' + b'"
      "i < unat (cnt ?m)" "unat e \<le> rgn_end (regions ?m i)" "s \<le> e"
      unfolding yields_cell_def by auto
    note step = cell_frames_step [OF range(3)]
    define sp ep where "sp = PFN_UP s" and "ep = min (PFN_DOWN e) hi"
    have e64: "unat s \<le> unat e" "unat e \<le> 2 ^ 64 - 4096" using y(4,5) top [OF y(3)] by (auto simp: word_le_nat_alt)
    have pages: "{p. p < unat hi \<and> page_bytes p \<subseteq> {unat s..<unat e}} = {unat sp..<unat ep}"
      unfolding page_in_range [OF e64] sp_def ep_def unat_min by auto
    have dec: "unat (cnt ?m) + unat (cnt ?r) - (a' + b') < unat (cnt ?m) + unat (cnt ?r) - (a + b)"
      using y(1,2) by (auto simp: cell_state_def)
    have unf: "free_all_loop f0 hi mb (pack a b) calls =
      (if sp \<ge> ep then free_all_loop f0 hi mb (pack a' b') calls
       else Option.bind (cut_blocks f0 sp ep calls) (\<lambda>out.
              case out of Ret calls \<Rightarrow> free_all_loop f0 hi mb (pack a' b') calls | _ \<Rightarrow> Some Fault))"
      using range(1,2) by (subst free_all_loop.simps) (simp add: Let_def sp_def ep_def)
    show ?thesis
    proof (cases "sp \<ge> ep")
      case True
      then have "cell_frames mb (unat hi) a b = cell_frames mb (unat hi) a' b'"
        using step(1) [of "unat hi"] pages by (simp add: word_le_nat_alt)
      then show ?thesis using less.hyps [OF dec y(1)] unf True by simp
    next
      case False
      have "unat (PFN_DOWN e) < 2 ^ 52" using e64(2) by (simp add: unat_PFN_DOWN)
      then have "unat ep < 2 ^ 52" by (simp add: ep_def unat_min)
      moreover have "sp \<le> ep" using False by (simp add: not_le less_imp_le)
      ultimately obtain bs where bs: "cut_blocks f0 sp ep calls = Some (Ret (calls @ bs))" "tiles bs (unat sp) (unat ep)"
        using cut_blocks_ok [of ep sp f0 calls] by blast
      obtain cs where cs: "free_all_loop f0 hi mb (pack a' b') (calls @ bs) = Some (Ret ((calls @ bs) @ cs))"
        "blocks_ok cs" "frames cs = cell_frames mb (unat hi) a' b'"
        using less.hyps [OF dec y(1), of "calls @ bs"] by blast
      note tb = tiles_blocks [OF bs(2)]
      have "x < z" if "x \<in> frames bs" "z \<in> frames cs" for x z
      proof -
        have "x < unat (PFN_DOWN e)" using that(1) tb by (simp add: ep_def unat_min)
        then have "x < unat e div 4096" by (simp add: unat_PFN_DOWN)
        also have "\<dots> \<le> z * 4096 div 4096" using step(2) that(2) cs(3) by (intro div_le_mono) simp
        also have "\<dots> = z" by simp
        finally show ?thesis .
      qed
      then have "blocks_ok (bs @ cs)" using tb cs(2) by (intro blocks_ok_append) simp_all
      moreover have "frames (bs @ cs) = cell_frames mb (unat hi) a b"
        using tb cs(3) step(1) [of "unat hi"] pages by simp
      moreover have "free_all_loop f0 hi mb (pack a b) calls = Some (Ret (calls @ (bs @ cs)))"
        using unf False bs(1) cs(1) by simp
      ultimately show ?thesis by blast
    qed
  qed
qed

text \<open>The whole frames below \<open>hi\<close> that lie in one memory region and that no reserved region touches.\<close>

definition free_frames :: "memblock \<Rightarrow> nat \<Rightarrow> nat set" where
  "free_frames mb hi = {p. p < hi \<and> (\<exists>r \<in> set (rgns (memory mb)). page_bytes p \<subseteq> rgn_addrs r)
     \<and> page_bytes p \<inter> covers (reserved mb) = {}}"

lemma cell_frames_free:
  assumes "mb_ok mb" shows "cell_frames mb hi 0 0 = free_frames mb hi"
proof -
  have pb: "page_bytes p = {p * 4096..<p * 4096 + 4096}" for p by (simp add: page_bytes_def add.commute)
  have fit: "fits mb 0 (p * 4096 + 4096) 4096 1 i j (p * 4096) \<longleftrightarrow>
      live_cell (memory mb) (reserved mb) 0 0 i j \<and> page_bytes p \<subseteq> cell (memory mb) (reserved mb) i j" for p i j
    using fits_live [of mb 0 "p * 4096 + 4096" 4096 1 i j "p * 4096"]
    by (auto simp: fits_def live_cell_def pb)
  have "(\<exists>i j. live_cell (memory mb) (reserved mb) 0 0 i j \<and> page_bytes p \<subseteq> cell (memory mb) (reserved mb) i j)
     \<longleftrightarrow> free_block mb 0 (p * 4096 + 4096) 4096 1 (p * 4096)" for p
    unfolding fit [symmetric] free_block_iff_fits [OF assms zero_less_numeral] ..
  then show ?thesis
    unfolding cell_frames_def free_frames_def free_block_def pb by auto
qed

lemma memblock_free_all_ok:
  assumes "mb_ok mb" "\<forall>r \<in> set (rgns (memory mb)). rgn_end r \<le> 2 ^ 64 - 4096"
  shows "\<exists>bs. memblock_free_all f0 hi mb = Ret bs \<and> blocks_ok bs \<and> frames bs = free_frames mb (unat hi)"
proof -
  have top: "rgn_end (regions (memory mb) i) \<le> 2 ^ 64 - 4096" if "i < unat (cnt (memory mb))" for i
    using assms(2) that mem_rgns by blast
  have st: "cell_state (memory mb) (reserved mb) 0 0" by (simp add: cell_state_def)
  obtain bs where "free_all_loop f0 hi mb 0 [] = Some (Ret bs)" "blocks_ok bs" "frames bs = cell_frames mb (unat hi) 0 0"
    using free_all_loop_ok [OF assms(1) top st, of f0 hi "[]"] by auto
  then show ?thesis using cell_frames_free [OF assms(1)] by (simp add: memblock_free_all_def)
qed

lemma least_free_disjoint:
  "least_free mb lo hi n A f \<Longrightarrow> f \<noteq> 0 \<Longrightarrow> {f..<f + n} \<inter> covers (reserved mb) = {} \<and> {f..<f + n} \<subseteq> covers (memory mb)"
  unfolding least_free_def free_block_def covers_def addrs_def by blast

section \<open>Page frame ranges\<close>

definition has_frames :: "mmblk_rgn \<Rightarrow> bool" where
  "has_frames r \<longleftrightarrow> PFN_UP (rgn_base r) < PFN_DOWN (rgn_base r + rgn_size r)"

lemma next_pfn_idx_ok:
  assumes "wf_type t" "i \<le> unat (cnt t)"
  shows "\<exists>j. next_pfn_idx t (int i - 1) = int j \<and> i \<le> j \<and> j \<le> unat (cnt t)
     \<and> (j < unat (cnt t) \<longrightarrow> has_frames (regions t j)) \<and> (\<forall>k. i \<le> k \<and> k < j \<longrightarrow> \<not> has_frames (regions t k))"
  using assms(2)
proof (induction "unat (cnt t) - i" arbitrary: i rule: less_induct)
  case less
  have u: "unat (of_nat i :: ulong) = i" using cnt_facts(3) [OF assms(1)] less.prems by simp
  then have w: "(word_of_int (int i - 1 + 1) :: ulong) < cnt t \<longleftrightarrow> i < unat (cnt t)"
    by (simp add: word_less_nat_alt)
  note unf = next_pfn_idx.simps [of t "int i - 1", unfolded w Let_def]
  show ?case
  proof (cases "i < unat (cnt t) \<and> \<not> has_frames (regions t i)")
    case True
    then have "next_pfn_idx t (int i - 1) = next_pfn_idx t (int i - 1 + 1)"
      by (subst unf) (simp add: has_frames_def)
    then have "next_pfn_idx t (int i - 1) = next_pfn_idx t (int (Suc i) - 1)" by simp
    moreover have dec: "unat (cnt t) - Suc i < unat (cnt t) - i" and sl: "Suc i \<le> unat (cnt t)" using True by auto
    moreover obtain j where j: "next_pfn_idx t (int (Suc i) - 1) = int j" "Suc i \<le> j" "j \<le> unat (cnt t)"
      "j < unat (cnt t) \<longrightarrow> has_frames (regions t j)" "\<forall>k. Suc i \<le> k \<and> k < j \<longrightarrow> \<not> has_frames (regions t k)"
      using less.hyps [OF dec sl] by blast
    moreover have "\<not> has_frames (regions t k)" if "i \<le> k" "k < j" for k
      using that True j(5) by (cases "k = i") auto
    ultimately show ?thesis by (intro exI [of _ j]) auto
  next
    case False
    then have "next_pfn_idx t (int i - 1) = int i" by (subst unf) (auto simp add: has_frames_def)
    then show ?thesis using False less.prems by (intro exI [of _ i]) auto
  qed
qed

text \<open>The frames a region spans whole are the frames of its range.\<close>

lemma region_frames:
  assumes "rgn_end r \<le> 2 ^ 64 - 4096"
  shows "page_bytes p \<subseteq> rgn_addrs r \<longleftrightarrow> unat (PFN_UP (rgn_base r)) \<le> p \<and> p < unat (PFN_DOWN (rgn_base r + rgn_size r))"
proof -
  have e: "unat (rgn_base r + rgn_size r) = rgn_end r" using assms by (intro unat_rgn_end) simp
  then show ?thesis
    unfolding rgn_addrs_def e [symmetric] using assms by (intro page_in_range) (simp_all add: e rgn_end_def)
qed

section \<open>Trimming\<close>

lemma mask_word: "(2 :: ulong) ^ k - 1 = mask k"
  by (simp add: mask_eq_exp_minus_1)

lemma unat_round_down: "unat (round_down x (2 ^ k)) \<le> unat x"
proof -
  have "unat x = unat (x AND NOT (mask k)) OR unat (x AND mask k)"
    unfolding unsigned_or_eq [symmetric] by (rule arg_cong [where f = unat], rule bit_word_eqI) (auto simp: bit_simps)
  also have "\<dots> = unat (x AND NOT (mask k)) + unat (x AND mask k)"
    by (intro disjunctive_add [symmetric]) (auto simp: bit_simps)
  finally show ?thesis unfolding round_down_def mask_word by simp
qed

lemma pow64: "(2 :: nat) ^ 64 - 2 ^ k < 2 ^ 64"
  by (intro diff_less) simp_all

lemma round_up_ge:
  assumes "k < 64" "unat x \<le> 2 ^ 64 - 2 ^ k"
  shows "x \<le> round_up x (2 ^ k)"
proof (cases "x = 0")
  case False
  have dv: "(2 :: nat) ^ k dvd 2 ^ 64 - 2 ^ k"
    using assms(1) by (intro dvd_diff_nat le_imp_power_dvd) simp_all
  show ?thesis
  proof (rule disjE [OF round_up_cases [of x k]])
    show "0 < x" using False by (simp add: word_gt_0)
    assume "round_up x (2 ^ k) = 0 \<and> (\<forall>y. 2 ^ k dvd y \<longrightarrow> unat x \<le> y \<longrightarrow> 2 ^ 64 \<le> y)"
    then have "(2 :: nat) ^ 64 \<le> 2 ^ 64 - 2 ^ k" using dv assms(2) by blast
    then show ?thesis using pow64 [of k] by (meson leD)
  qed (use assms in simp_all)
qed simp

text \<open>A shrunk region lies inside the old one.\<close>

lemma trim_decide_shrink:
  assumes "trim_decide (2 ^ k) r = Shrink b z" "k < 64" "rgn_end r \<le> 2 ^ 64 - 2 ^ k"
  shows "unat (rgn_base r) \<le> unat b" "z \<noteq> 0" "unat b + unat z \<le> rgn_end r"
proof -
  have e: "unat (rgn_base r + rgn_size r) = rgn_end r"
    using order.strict_trans1 [OF assms(3) pow64] by (rule unat_rgn_end)
  from assms(1) have d: "b = round_up (rgn_base r) (2 ^ k)" "z = round_down (rgn_base r + rgn_size r) (2 ^ k) - b"
    "b < round_down (rgn_base r + rgn_size r) (2 ^ k)"
    by (auto simp: trim_decide_def Let_def split: if_splits)
  have "unat (rgn_base r) \<le> 2 ^ 64 - 2 ^ k" using assms(3) by (simp add: rgn_end_def)
  then show "unat (rgn_base r) \<le> unat b" using round_up_ge [OF assms(2)] d(1) by (simp add: word_le_nat_alt)
  have z: "unat z = unat (round_down (rgn_base r + rgn_size r) (2 ^ k)) - unat b"
    unfolding d(2) using d(3) by (intro unat_sub) (simp add: less_imp_le)
  show "z \<noteq> 0" using z d(3) by (auto simp: word_less_nat_alt)
  show "unat b + unat z \<le> rgn_end r"
    using z d(3) unat_round_down [of "rgn_base r + rgn_size r" k] e by (simp add: word_less_nat_alt)
qed

lemma trim_loop_ok:
  assumes "k < 64" "r < int (unat (cnt t))" "wf_type t" "\<forall>i < unat (cnt t). rgn_end (regions t i) \<le> 2 ^ 64 - 2 ^ k"
  shows "wf_type (trim_loop (2 ^ k) r t) \<and> covers (trim_loop (2 ^ k) r t) \<subseteq> covers t
    \<and> cnt (trim_loop (2 ^ k) r t) \<le> cnt t"
  using assms(2-4)
proof (induction "nat (r + 1)" arbitrary: r t rule: less_induct)
  case less
  show ?case
  proof (cases "0 \<le> r")
    case True
    then obtain n where n: "r = int n" "n < unat (cnt t)" using less.prems(1) by (metis of_nat_less_iff zero_le_imp_eq_int)
    let ?R = "regions t n"
    have sp: "rgns t = take n (rgns t) @ ?R # drop (Suc n) (rgns t)"
      using id_take_nth_drop [of n "rgns t"] n by simp
    have wl: "wf_rgns (take n (rgns t) @ ?R # drop (Suc n) (rgns t))"
      using less.prems(2) sp by (simp add: wf_type_def)
    have top: "rgn_end ?R \<le> 2 ^ 64 - 2 ^ k" using less.prems(3) n by simp
    show ?thesis
    proof (cases "trim_decide (2 ^ k) ?R")
      case Keep
      then have "trim_loop (2 ^ k) r t = trim_loop (2 ^ k) (r - 1) t"
        using True n by (subst trim_loop.simps) simp
      then show ?thesis using less.hyps [of "r - 1" t] less.prems True by simp
    next
      case (Shrink b z)
      define R' where "R' = ?R\<lparr>rgn_base := b, rgn_size := z\<rparr>"
      define t' where "t' = t\<lparr>regions := (regions t)(n := R')\<rparr>"
      note sh = trim_decide_shrink [OF Shrink assms(1) top]
      have R': "unat (rgn_base ?R) \<le> unat (rgn_base R')" "rgn_end R' \<le> rgn_end ?R" "rgn_size R' \<noteq> 0"
        using sh by (simp_all add: R'_def rgn_end_def)
      have "rgns t' = (rgns t)[n := R']"
        by (rule nth_equalityI) (auto simp: t'_def nth_list_update)
      then have rg: "rgns t' = take n (rgns t) @ R' # drop (Suc n) (rgns t)"
        using n by (simp add: upd_conv_take_nth_drop)
      have "wf_rgns (rgns t')" unfolding rg using wl R' by (auto simp: wf_rgns_simps)
      then have "wf_type t'" using less.prems(2) by (simp add: wf_type_def t'_def)
      moreover have "rgn_addrs R' \<subseteq> rgn_addrs ?R" using R' by (auto simp: rgn_addrs_def)
      then have "covers t' \<subseteq> covers t" unfolding covers_def rg by (subst sp) auto
      moreover have "\<forall>i < unat (cnt t'). rgn_end (regions t' i) \<le> 2 ^ 64 - 2 ^ k"
        using less.prems(3) R'(2) top by (auto simp: t'_def)
      moreover have "trim_loop (2 ^ k) r t = trim_loop (2 ^ k) (r - 1) t'"
        using True n Shrink by (subst trim_loop.simps) (simp add: t'_def R'_def)
      moreover have "cnt t' = cnt t" by (simp add: t'_def)
      ultimately show ?thesis using less.hyps [of "r - 1" t'] less.prems(1) True by auto
    next
      case Drop
      define t' where "t' = simple_mmblk_remove_rgn n t"
      have rg: "rgns t' = take n (rgns t) @ drop (Suc n) (rgns t)"
        unfolding t'_def by (rule rgns_remove_rgn [OF n(2)])
      have c: "unat (cnt t') = unat (cnt t) - 1" "cnt t' \<le> cnt t"
        using n(2) unfolding t'_def remove_rgn_frame by unat_arith+
      have "wf_rgns (rgns t')" unfolding rg using wl by (auto simp: wf_rgns_simps)
      moreover have "cnt t' \<le> max_cnt t" using c(2) less.prems(2) by (auto simp: wf_type_def)
      ultimately have "wf_type t'" using less.prems(2) by (simp add: wf_type_def t'_def)
      moreover have "covers t' \<subseteq> covers t" unfolding covers_def rg by (subst (2) sp) auto
      moreover have "\<forall>i < unat (cnt t'). rgn_end (regions t' i) \<le> 2 ^ 64 - 2 ^ k"
      proof (intro allI impI)
        fix i assume "i < unat (cnt t')"
        then have "regions t' i \<in> set (rgns t')" by (auto simp: mem_rgns)
        then have "regions t' i \<in> set (rgns t)" unfolding rg by (auto dest: in_set_takeD in_set_dropD)
        then show "rgn_end (regions t' i) \<le> 2 ^ 64 - 2 ^ k" using less.prems(3) by (auto simp: mem_rgns)
      qed
      moreover have "trim_loop (2 ^ k) r t = trim_loop (2 ^ k) (r - 1 - 1) t'"
        using True n Drop by (subst trim_loop.simps) (simp add: t'_def)
      moreover have "r - 1 - 1 < int (unat (cnt t'))" using n(2) unfolding n(1) c(1) by linarith
      ultimately show ?thesis using less.hyps [of "r - 1 - 1" t'] True c(2) by auto
    qed
  next
    case False
    then show ?thesis using less.prems(2) by (subst (1 2 3) trim_loop.simps) simp
  qed
qed

section \<open>The allocator contract\<close>

type_synonym request = "phys_addr_t \<times> phys_addr_t \<times> phys_addr_t \<times> phys_addr_t"

definition alloc_request :: "request \<Rightarrow> memblock \<Rightarrow> (phys_addr_t \<times> memblock) outcome" where
  "alloc_request = (\<lambda>(sz, align, start, end). memblock_alloc_range sz align start end)"

definition alloc_retry_request :: "request \<Rightarrow> memblock \<Rightarrow> (phys_addr_t \<times> memblock) outcome" where
  "alloc_retry_request = (\<lambda>(sz, align, start, end). memblock_alloc_internal sz align start end)"

definition good_request :: "request \<Rightarrow> bool" where
  "good_request = (\<lambda>(sz, align, start, end). 0 < sz \<and> (\<exists>k < 64. eff_align align = 2 ^ k))"

definition granted :: "request \<Rightarrow> phys_addr_t \<Rightarrow> nat set" where
  "granted = (\<lambda>(sz, align, start, end) f. if f = 0 then {} else {unat f..<unat f + unat sz})"

lemma alloc_ok_step:
  assumes "alloc_ok mb lo hi (unat sz) A (unat f) mb'"
  shows "mb_ok mb' \<and> memory mb' = memory mb \<and> room mb \<le> room mb' + 1
    \<and> covers (reserved mb') = covers (reserved mb) \<union> granted (sz, al, st, en) f
    \<and> granted (sz, al, st, en) f \<subseteq> covers (memory mb) - covers (reserved mb)"
  using assms least_free_disjoint [of mb lo hi "unat sz" A "unat f"]
  by (auto simp: alloc_ok_def granted_def unat_eq_zero)

text \<open>
  \<^verbatim>\<open>memblock_alloc_internal\<close>: the search between the limits, and on failure the search from the
  bottom; a failure says that no block fits below the upper limit.
\<close>

lemma memblock_alloc_internal_ok:
  assumes "mb_ok mb" "0 < sz" "eff_align align = 2 ^ k" "k < 64" "3 < room mb"
    and "lim = (if max_addr > current_limit mb then current_limit mb else max_addr)"
  shows "\<exists>f mb'. memblock_alloc_internal sz align min_addr max_addr mb = Ret (f, mb')
    \<and> (alloc_ok mb (unat (eff_lo min_addr)) (unat (eff_hi mb min_addr lim)) (unat sz) (2 ^ k) (unat f) mb'
         \<and> (f \<noteq> 0 \<or> min_addr = 0)
       \<or> least_free mb (unat (eff_lo min_addr)) (unat (eff_hi mb min_addr lim)) (unat sz) (2 ^ k) 0
         \<and> alloc_ok mb (unat (eff_lo 0)) (unat (eff_hi mb 0 lim)) (unat sz) (2 ^ k) (unat f) mb')"
proof -
  note R = memblock_alloc_range_ok [OF assms(1-5)]
  obtain f1 mb1 where f1: "memblock_alloc_range sz align min_addr lim mb = Ret (f1, mb1)"
    "alloc_ok mb (unat (eff_lo min_addr)) (unat (eff_hi mb min_addr lim)) (unat sz) (2 ^ k) (unat f1) mb1"
    using R by blast
  have unf: "memblock_alloc_internal sz align min_addr max_addr mb =
    (if f1 = 0 \<and> min_addr \<noteq> 0 then memblock_alloc_range sz align 0 lim mb1 else Ret (f1, mb1))"
    unfolding memblock_alloc_internal_def Let_def assms(6) [symmetric] f1(1) by simp
  show ?thesis
  proof (cases "f1 = 0 \<and> min_addr \<noteq> 0")
    case True
    then have "mb1 = mb" "least_free mb (unat (eff_lo min_addr)) (unat (eff_hi mb min_addr lim)) (unat sz) (2 ^ k) 0"
      using f1(2) by (simp_all add: alloc_ok_def)
    moreover obtain f mb' where "memblock_alloc_range sz align 0 lim mb = Ret (f, mb')"
      "alloc_ok mb (unat (eff_lo 0)) (unat (eff_hi mb 0 lim)) (unat sz) (2 ^ k) (unat f) mb'" using R by blast
    ultimately show ?thesis using unf True by simp
  next
    case False
    then have "memblock_alloc_internal sz align min_addr max_addr mb = Ret (f1, mb1)" using unf by auto
    then show ?thesis using f1(2) False by blast
  qed
qed

interpretation early: allocator alloc_request mb_ok good_request
  "\<lambda>mb. covers (memory mb)" "\<lambda>mb. covers (reserved mb)" granted room 3 1
proof
  fix mb r assume ok: "mb_ok mb" and good: "good_request r" and rm: "3 < room mb"
  obtain sz align start "end" where r: "r = (sz, align, start, end)" by (cases r) auto
  with good obtain k where "0 < sz" "eff_align align = 2 ^ k" "k < 64" by (auto simp: good_request_def)
  from memblock_alloc_range_ok [OF ok this rm, of start "end"]
  show "\<exists>f mb'. alloc_request r mb = Ret (f, mb') \<and> mb_ok mb' \<and> covers (memory mb') = covers (memory mb)
      \<and> room mb \<le> room mb' + 1 \<and> covers (reserved mb') = covers (reserved mb) \<union> granted r f
      \<and> granted r f \<subseteq> covers (memory mb) - covers (reserved mb)"
    unfolding r alloc_request_def prod.case using alloc_ok_step by metis
qed

interpretation early_retry: allocator alloc_retry_request mb_ok good_request
  "\<lambda>mb. covers (memory mb)" "\<lambda>mb. covers (reserved mb)" granted room 3 1
proof
  fix mb r assume ok: "mb_ok mb" and good: "good_request r" and rm: "3 < room mb"
  obtain sz align start "end" where r: "r = (sz, align, start, end)" by (cases r) auto
  with good obtain k where "0 < sz" "eff_align align = 2 ^ k" "k < 64" by (auto simp: good_request_def)
  from memblock_alloc_internal_ok [OF ok this rm refl, where min_addr = start and max_addr = "end"]
  obtain f mb' lo hi where f: "memblock_alloc_internal sz align start end mb = Ret (f, mb')"
    "alloc_ok mb lo hi (unat sz) (2 ^ k) (unat f) mb'" by blast
  show "\<exists>f mb'. alloc_retry_request r mb = Ret (f, mb') \<and> mb_ok mb' \<and> covers (memory mb') = covers (memory mb)
      \<and> room mb \<le> room mb' + 1 \<and> covers (reserved mb') = covers (reserved mb) \<union> granted r f
      \<and> granted r f \<subseteq> covers (memory mb) - covers (reserved mb)"
    using f alloc_ok_step [OF f(2)] unfolding r alloc_retry_request_def prod.case by auto
qed

section \<open>Properties\<close>

text \<open>Memory \<open>[0, 0x10000)\<close> with \<open>[0x1000, 0x2000)\<close> reserved, for the examples.\<close>

definition sample_mb :: memblock where
  "sample_mb = \<lparr>bottom_up = True, current_limit = 0x10000,
     memory = \<lparr>cnt = 1, max_cnt = 128, total_size = 0x10000,
       regions = (\<lambda>i. \<lparr>rgn_base = 0, rgn_size = (if i = 0 then 0x10000 else 0), rgn_flags = 0\<rparr>)\<rparr>,
     reserved = one_region\<rparr>"

lemma sample_mb_facts:
  "mb_ok sample_mb" "room sample_mb = 127" "current_limit sample_mb = 0x10000"
  "rgns (memory sample_mb) = [\<lparr>rgn_base = 0, rgn_size = 0x10000, rgn_flags = 0\<rparr>]"
proof -
  show r: "rgns (memory sample_mb) = [\<lparr>rgn_base = 0, rgn_size = 0x10000, rgn_flags = 0\<rparr>]"
    by (simp add: rgns_def sample_mb_def)
  have "wf_type (memory sample_mb)"
    using r by (simp add: wf_type_def wf_rgns_def rgn_end_def) (simp add: sample_mb_def)
  moreover have "no_flags (memory sample_mb)" by (simp add: no_flags_def sample_mb_def)
  moreover have "reserved sample_mb = one_region" by (simp add: sample_mb_def)
  ultimately show "mb_ok sample_mb" using one_region_facts by (simp add: mb_ok_def)
  show "room sample_mb = 127" by (simp add: room_def sample_mb_def one_region_def)
  show "current_limit sample_mb = 0x10000" by (simp add: sample_mb_def)
qed

text \<open>
  C1. \<^verbatim>\<open>memblock_alloc_range\<close> is first fit: on a well-formed state it ends, returns the least aligned
  block of the size that lies between the limits, inside one memory region and clear of every
  reserved region, and reserves exactly that block; it returns 0 and changes nothing when there is
  no such block.
\<close>

theorem memblock_alloc_range_first_fit:
  assumes "mb_ok mb" "0 < sz" "eff_align align = 2 ^ k" "k < 64" "3 < room mb"
  shows "\<exists>f mb'. memblock_alloc_range sz align start end mb = Ret (f, mb')
     \<and> alloc_ok mb (unat (eff_lo start)) (unat (eff_hi mb start end)) (unat sz) (2 ^ k) (unat f) mb'"
  using assms by (rule memblock_alloc_range_ok)

theorem memblock_alloc_range_first_fit_witness:
  "\<exists>f mb'. memblock_alloc_range 0x2000 0x1000 0 0 sample_mb = Ret (f, mb')
     \<and> alloc_ok sample_mb (unat (eff_lo 0)) (unat (eff_hi sample_mb 0 0)) (unat (0x2000 :: ulong)) (2 ^ 12) (unat f) mb'"
  by (rule memblock_alloc_range_first_fit) (simp_all add: sample_mb_facts eff_align_def)

text \<open>
  C9. \<^verbatim>\<open>memblock_alloc_internal\<close>, and with it every \<^verbatim>\<open>memblock_alloc\<close> variant: any sequence of requests
  ends, the blocks granted lie in memory, are clear of what was reserved before and pairwise
  disjoint, and the reserved regions grow by exactly these blocks.
\<close>

theorem memblock_alloc_sequence_disjoint:
  assumes "mb_ok mb" "list_all good_request rs" "length rs + 3 < room mb"
  shows "\<exists>fs mb'. alloc_run alloc_retry_request rs mb = Ret (fs, mb') \<and> length fs = length rs \<and> mb_ok mb'
     \<and> covers (memory mb') = covers (memory mb)
     \<and> covers (reserved mb') = covers (reserved mb) \<union> (\<Union>i < length rs. granted (rs ! i) (fs ! i))
     \<and> (\<forall>i < length rs. granted (rs ! i) (fs ! i) \<subseteq> covers (memory mb) - covers (reserved mb))
     \<and> (\<forall>i j. i < j \<and> j < length rs \<longrightarrow> granted (rs ! i) (fs ! i) \<inter> granted (rs ! j) (fs ! j) = {})"
  using assms by (intro early_retry.run) simp_all

theorem memblock_alloc_sequence_disjoint_witness:
  "\<exists>fs mb'. alloc_run alloc_retry_request [(0x1000, 0x1000, 0x2000, 0), (64, 0, 0, 0x9000)] sample_mb = Ret (fs, mb')
     \<and> length fs = 2 \<and> mb_ok mb' \<and> granted (0x1000, 0x1000, 0x2000, 0) (fs ! 0) \<inter> granted (64, 0, 0, 0x9000) (fs ! 1) = {}"
proof -
  have a: "eff_align 0x1000 = 2 ^ 12" "eff_align 0 = 2 ^ 6"
    by (simp_all add: eff_align_def SMP_CACHE_BYTES_def)
  have "list_all good_request [(0x1000, 0x1000, 0x2000, 0), (64, 0, 0, 0x9000)]"
    unfolding good_request_def by (simp add: a(1), rule conjI, rule exI [of _ 12], simp, rule exI [of _ 6], simp add: a(2))
  from memblock_alloc_sequence_disjoint [OF sample_mb_facts(1) this] obtain fs mb' where
    "alloc_run alloc_retry_request [(0x1000, 0x1000, 0x2000, 0), (64, 0, 0, 0x9000)] sample_mb = Ret (fs, mb')"
    "length fs = 2" "mb_ok mb'"
    "\<And>i j. i < j \<Longrightarrow> j < 2 \<Longrightarrow> granted ([(0x1000, 0x1000, 0x2000, 0), (64, 0, 0, 0x9000)] ! i) (fs ! i)
       \<inter> granted ([(0x1000, 0x1000, 0x2000, 0), (64, 0, 0, 0x9000)] ! j) (fs ! j) = {}"
    by (auto simp: sample_mb_facts numeral_2_eq_2)
  from this(1-3) this(4) [of 0 1] show ?thesis by auto
qed

text \<open>
  C23. \<^verbatim>\<open>memblock_alloc_internal\<close> gives up only when it must: if it returns 0, no aligned block of the
  size fits anywhere between the first page and the upper limit, whatever lower limit was asked for.
\<close>

theorem memblock_alloc_internal_complete:
  assumes "mb_ok mb" "0 < sz" "eff_align align = 2 ^ k" "k < 64" "3 < room mb"
    "memblock_alloc_internal sz align min_addr max_addr mb = Ret (0, mb')"
  shows "mb' = mb \<and> \<not> free_block mb (unat (eff_lo 0))
    (unat (eff_hi mb 0 (if max_addr > current_limit mb then current_limit mb else max_addr))) (unat sz) (2 ^ k) x"
  using memblock_alloc_internal_ok [OF assms(1-5) refl, where min_addr = min_addr and max_addr = max_addr] assms(6)
  by (auto simp: alloc_ok_def least_free_def)

theorem memblock_alloc_internal_complete_witness:
  "\<not> free_block sample_mb (unat (eff_lo 0))
    (unat (eff_hi sample_mb 0 (if 0 > current_limit sample_mb then current_limit sample_mb else 0)))
    (unat (0x20000 :: ulong)) (2 ^ 12) 0x3000"
proof -
  have "case memblock_alloc_internal 0x20000 0x1000 0x5000 0 sample_mb of Ret (f, mb) \<Rightarrow> f = 0 | _ \<Rightarrow> False"
    by code_simp
  then obtain mb' where "memblock_alloc_internal 0x20000 0x1000 0x5000 0 sample_mb = Ret (0, mb')"
    by (auto split: outcome.splits)
  from memblock_alloc_internal_complete [OF sample_mb_facts(1) _ _ _ _ this, where k = 12 and x = "0x3000"] show ?thesis
    by (simp add: sample_mb_facts eff_align_def)
qed

text \<open>
  C4. \<^verbatim>\<open>memblock_free_all\<close> hands over the free memory exactly: it ends, and its calls of
  \<^verbatim>\<open>memblock_free_pages\<close> are for ascending, disjoint, naturally aligned blocks of order at most
  \<^verbatim>\<open>MAX_ORDER\<close> that together are the whole frames below \<^verbatim>\<open>max_low_pfn\<close> that lie in a memory region
  and that no reserved region touches, whatever the processor answers for \<^verbatim>\<open>__ffs(0)\<close>.
\<close>

theorem memblock_free_all_tiles:
  assumes "mb_ok mb" "\<forall>r \<in> set (rgns (memory mb)). rgn_end r \<le> 2 ^ 64 - 4096"
  shows "\<exists>bs. memblock_free_all f0 hi mb = Ret bs \<and> blocks_ok bs \<and> frames bs = free_frames mb (unat hi)"
  using assms by (rule memblock_free_all_ok)

theorem memblock_free_all_tiles_witness:
  "\<exists>bs. memblock_free_all 64 0x100 sample_mb = Ret bs \<and> blocks_ok bs
     \<and> frames bs = free_frames sample_mb (unat (0x100 :: ulong))"
  by (rule memblock_free_all_tiles) (simp_all add: sample_mb_facts rgn_end_def)

text \<open>
  \<^verbatim>\<open>__next_mem_pfn_range\<close> moves to the next memory region that holds a whole frame and yields
  exactly the frames the region holds whole; it yields nothing only when no such region is left.
\<close>

theorem next_mem_pfn_range_correct:
  assumes "wf_type t" "i \<le> unat (cnt t)" "\<forall>r \<in> set (rgns t). rgn_end r \<le> 2 ^ 64 - 4096"
  shows "case next_mem_pfn_range t (int i - 1) of
      (idx, None) \<Rightarrow> idx = -1 \<and> (\<forall>k. i \<le> k \<and> k < unat (cnt t) \<longrightarrow> \<not> has_frames (regions t k))
    | (idx, Some (s, e)) \<Rightarrow> \<exists>j. idx = int j \<and> i \<le> j \<and> j < unat (cnt t) \<and> s < e
        \<and> {unat s..<unat e} = {p. page_bytes p \<subseteq> rgn_addrs (regions t j)}
        \<and> (\<forall>k. i \<le> k \<and> k < j \<longrightarrow> \<not> has_frames (regions t k))"
proof -
  from next_pfn_idx_ok [OF assms(1,2)] obtain j where j: "next_pfn_idx t (int i - 1) = int j" "i \<le> j" "j \<le> unat (cnt t)"
    "j < unat (cnt t) \<longrightarrow> has_frames (regions t j)" "\<forall>k. i \<le> k \<and> k < j \<longrightarrow> \<not> has_frames (regions t k)" by blast
  have "unat (of_nat j :: ulong) = j" using cnt_facts(3) [OF assms(1)] j(3) by simp
  then have w: "(word_of_int (int j) :: ulong) \<ge> cnt t \<longleftrightarrow> \<not> j < unat (cnt t)"
    by (simp add: word_le_nat_alt not_less)
  show ?thesis
  proof (cases "j < unat (cnt t)")
    case True
    have "regions t j \<in> set (rgns t)" using True by (auto simp: mem_rgns)
    then have top: "rgn_end (regions t j) \<le> 2 ^ 64 - 4096" using assms(3) by blast
    have "{unat (PFN_UP (rgn_base (regions t j)))..<unat (PFN_DOWN (rgn_base (regions t j) + rgn_size (regions t j)))}
       = {p. page_bytes p \<subseteq> rgn_addrs (regions t j)}"
      unfolding region_frames [OF top] by auto
    then show ?thesis using True j w by (simp add: next_mem_pfn_range_def Let_def has_frames_def)
  next
    case False
    then have "j = unat (cnt t)" using j(3) by simp
    then show ?thesis using j w by (simp add: next_mem_pfn_range_def Let_def)
  qed
qed

theorem next_mem_pfn_range_correct_witness:
  "case next_mem_pfn_range one_region (int 0 - 1) of
      (idx, None) \<Rightarrow> idx = -1 \<and> (\<forall>k. 0 \<le> k \<and> k < unat (cnt one_region) \<longrightarrow> \<not> has_frames (regions one_region k))
    | (idx, Some (s, e)) \<Rightarrow> \<exists>j. idx = int j \<and> 0 \<le> j \<and> j < unat (cnt one_region) \<and> s < e
        \<and> {unat s..<unat e} = {p. page_bytes p \<subseteq> rgn_addrs (regions one_region j)}
        \<and> (\<forall>k. 0 \<le> k \<and> k < j \<longrightarrow> \<not> has_frames (regions one_region k))"
  by (rule next_mem_pfn_range_correct) (simp_all add: one_region_facts rgns_def, simp add: one_region_def rgn_end_def)

text \<open>
  C38. \<^verbatim>\<open>memblock_trim_memory\<close> only ever shrinks the memory: regions stay non-empty, sorted and
  disjoint, and every address left was there before.
\<close>

theorem memblock_trim_memory_within:
  assumes "k < 64" "wf_type (memory mb)" "\<forall>r \<in> set (rgns (memory mb)). rgn_end r \<le> 2 ^ 64 - 2 ^ k"
  shows "wf_type (memory (memblock_trim_memory (2 ^ k) mb))
     \<and> covers (memory (memblock_trim_memory (2 ^ k) mb)) \<subseteq> covers (memory mb)
     \<and> reserved (memblock_trim_memory (2 ^ k) mb) = reserved mb"
proof -
  let ?t = "memory mb"
  have s: "sint (cnt ?t - 1) = int (unat (cnt ?t)) - 1"
  proof (cases "cnt ?t = 0")
    case False
    then have "unat (cnt ?t - 1) = unat (cnt ?t) - 1" by unat_arith
    then have "cnt ?t - 1 = of_nat (unat (cnt ?t) - 1)" using unat_word_inv [of "cnt ?t - 1"] by simp
    moreover have "sint (of_nat (unat (cnt ?t) - 1) :: ulong) = int (unat (cnt ?t) - 1)"
      using cnt_facts(1) [OF assms(2)] by (simp add: signed_of_nat signed_take_bit_int_eq_self)
    moreover have "0 < unat (cnt ?t)" using False by (simp add: unat_gt_0)
    ultimately show ?thesis by (simp add: of_nat_diff)
  qed simp
  have "\<forall>i < unat (cnt ?t). rgn_end (regions ?t i) \<le> 2 ^ 64 - 2 ^ k" using assms(3) mem_rgns by blast
  from trim_loop_ok [OF assms(1) _ assms(2) this, of "sint (cnt ?t - 1)"] show ?thesis
    unfolding s by (simp add: memblock_trim_memory_def s)
qed

theorem memblock_trim_memory_within_witness:
  "wf_type (memory (memblock_trim_memory (2 ^ 13) sample_mb))
     \<and> covers (memory (memblock_trim_memory (2 ^ 13) sample_mb)) \<subseteq> covers (memory sample_mb)
     \<and> reserved (memblock_trim_memory (2 ^ 13) sample_mb) = reserved sample_mb"
  using memblock_trim_memory_within [of 13 sample_mb] sample_mb_facts
  by (simp add: mb_ok_def rgn_end_def)

text \<open>
  \<^verbatim>\<open>memblock_trim_memory\<close> misses regions: after removing one that holds no whole frame it steps
  over the region below, so of \<open>[0x1100, 0x1200)\<close> and \<open>[0x2100, 0x2200)\<close> the first one survives
  although it is not aligned.
\<close>

theorem memblock_trim_memory_skips:
  "bnd (simple_mmblk_add 0x1100 0x100 memblock_init) (\<lambda>(r, mb).
   bnd (simple_mmblk_add 0x2100 0x100 mb) (\<lambda>(r, mb).
   Ret (map (\<lambda>r. (rgn_base r, rgn_size r)) (rgns (memory (memblock_trim_memory 0x1000 mb)))))) = Ret [(0x1100, 0x100)]"
  by code_simp

end
