(* ===== verification/Buddy.thy ===== *)
theory Buddy
  imports Double_List Memblock Allocators
begin

unbundle bit_operations_syntax

text \<open>
  The page allocator of \<^verbatim>\<open>mykernel/mm/page_alloc/buddy.c\<close> and \<^verbatim>\<open>buddy.h\<close>. A \<^verbatim>\<open>page_s *\<close> is the frame
  number the entry stands for, so that pointer arithmetic on \<^verbatim>\<open>mem_map\<close> is arithmetic on frame
  numbers. The free lists are counted lists of theory \<^verbatim>\<open>Double_List\<close> whose nodes are the
  \<^verbatim>\<open>buddy_list\<close> members of pages and the anchors of the free areas. The word of a tail page that
  points to its compound head shares storage with \<^verbatim>\<open>buddy_list.next\<close>; it is kept in a field of its
  own, as a tail page is on no list. Memory contents are bytes at physical addresses. The linker
  symbol \<^verbatim>\<open>_k_offset\<close>, the distance between virtual and physical kernel addresses, is the parameter
  \<open>k_offset\<close>. Spin locks are left out.
\<close>

section \<open>Pages and zones\<close>

datatype node = Page ulong | Area nat nat

record page =
  pg_flags :: ulong
  pg_compound_head :: "ulong option"
  pg_mapping :: ulong
  pg_index :: ulong
  pg_private :: ulong
  pg_type :: u32
  pg_refcount :: u32

record zone =
  zone_start_pfn :: ulong
  spanned_pages :: ulong
  present_pages :: ulong
  managed_pages :: ulong

record buddy =
  pages :: "ulong \<Rightarrow> page"
  zones :: "nat \<Rightarrow> zone"
  nr_zones :: nat
  free_area :: "node lists"
  contents :: "ulong \<Rightarrow> u8"

definition ZONE_DMA :: nat where "ZONE_DMA = 0"
definition ZONE_DMA32 :: nat where "ZONE_DMA32 = 1"
definition ZONE_NORMAL :: nat where "ZONE_NORMAL = 2"
definition MAX_NR_ZONES :: nat where "MAX_NR_ZONES = 5"
definition NR_PAGE_ORDERS :: nat where "NR_PAGE_ORDERS = MAX_ORDER + 1"

definition GFP_DMA :: u32 where "GFP_DMA = 0x01"
definition GFP_HIGHMEM :: u32 where "GFP_HIGHMEM = 0x02"
definition GFP_DMA32 :: u32 where "GFP_DMA32 = 0x04"
definition GFP_ZERO :: u32 where "GFP_ZERO = 0x100"
definition GFP_COMP :: u32 where "GFP_COMP = 0x40000"

definition PG_head :: nat where "PG_head = 6"
definition PG_reserved :: nat where "PG_reserved = 14"
definition PG_hwpoison :: nat where "PG_hwpoison = 21"
definition NR_PAGEFLAGS :: nat where "NR_PAGEFLAGS = 27"
definition PAGE_FLAGS_CHECK_AT_PREP :: ulong where
  "PAGE_FLAGS_CHECK_AT_PREP = (push_bit NR_PAGEFLAGS 1 - 1) AND NOT (push_bit PG_hwpoison 1)"

definition PAGE_TYPE_BASE :: u32 where "PAGE_TYPE_BASE = 0xf0000000"
definition PG_buddy :: u32 where "PG_buddy = 0x80"

definition upd_page :: "ulong \<Rightarrow> (page \<Rightarrow> page) \<Rightarrow> buddy \<Rightarrow> buddy" where
  "upd_page p f b = b\<lparr>pages := (pages b)(p := f (pages b p))\<rparr>"

definition PageBuddy :: "page \<Rightarrow> bool" where
  "PageBuddy p \<longleftrightarrow> pg_type p AND (PAGE_TYPE_BASE OR PG_buddy) = PAGE_TYPE_BASE"

definition SetPageBuddy :: "page \<Rightarrow> page" where
  "SetPageBuddy p = p\<lparr>pg_type := pg_type p AND NOT PG_buddy\<rparr>"

definition ClearPageBuddy :: "page \<Rightarrow> page" where
  "ClearPageBuddy p = p\<lparr>pg_type := pg_type p OR PG_buddy\<rparr>"

definition SetPageReserved :: "page \<Rightarrow> page" where
  "SetPageReserved p = p\<lparr>pg_flags := pg_flags p OR push_bit PG_reserved 1\<rparr>"

definition ClearPageReserved :: "page \<Rightarrow> page" where
  "ClearPageReserved p = p\<lparr>pg_flags := pg_flags p AND NOT (push_bit PG_reserved 1)\<rparr>"

definition SetPageHead :: "page \<Rightarrow> page" where
  "SetPageHead p = p\<lparr>pg_flags := pg_flags p OR push_bit PG_head 1\<rparr>"

definition PageHead :: "page \<Rightarrow> bool" where
  "PageHead p \<longleftrightarrow> bit (pg_flags p) PG_head"

definition set_page_count :: "u32 \<Rightarrow> page \<Rightarrow> page" where
  "set_page_count v p = p\<lparr>pg_refcount := v\<rparr>"

text \<open>The zone of a frame; without a match the function ends without a value.\<close>

definition myos_page_zone :: "buddy \<Rightarrow> ulong \<Rightarrow> nat outcome" where
  "myos_page_zone b pfn =
     (case find (\<lambda>i. zone_start_pfn (zones b i) \<le> pfn \<and> pfn < zone_start_pfn (zones b i) + spanned_pages (zones b i))
             [0..<MAX_NR_ZONES] of
        Some i \<Rightarrow> Ret i | None \<Rightarrow> Fault)"

section \<open>Free lists\<close>

definition set_buddy_order :: "ulong \<Rightarrow> nat \<Rightarrow> buddy \<Rightarrow> buddy" where
  "set_buddy_order p order = upd_page p (\<lambda>pg. SetPageBuddy (pg\<lparr>pg_private := of_nat order\<rparr>))"

definition add_to_free_list :: "ulong \<Rightarrow> nat \<Rightarrow> nat \<Rightarrow> buddy \<Rightarrow> buddy outcome" where
  "add_to_free_list p z order b =
     bnd (list_header_add_to_head (Area z order) (At (Page p)) (free_area b)) (\<lambda>l. Ret (b\<lparr>free_area := l\<rparr>))"

definition add_to_free_list_tail :: "ulong \<Rightarrow> nat \<Rightarrow> nat \<Rightarrow> buddy \<Rightarrow> buddy outcome" where
  "add_to_free_list_tail p z order b =
     bnd (list_header_add_to_tail (Area z order) (At (Page p)) (free_area b)) (\<lambda>l. Ret (b\<lparr>free_area := l\<rparr>))"

definition del_page_from_free_list :: "ulong \<Rightarrow> nat \<Rightarrow> nat \<Rightarrow> buddy \<Rightarrow> buddy outcome" where
  "del_page_from_free_list p z order b =
     bnd (list_header_delete_node (Area z order) (At (Page p)) (free_area b)) (\<lambda>(r, l).
     Ret (upd_page p (\<lambda>pg. (ClearPageBuddy pg)\<lparr>pg_private := 0\<rparr>) (b\<lparr>free_area := l\<rparr>)))"

text \<open>A list entry that is no page's \<^verbatim>\<open>buddy_list\<close> has no page around it.\<close>

fun list_null_or_page :: "node ptr \<Rightarrow> ulong option outcome" where
  "list_null_or_page NULL = Ret None"
| "list_null_or_page (At (Page p)) = Ret (Some p)"
| "list_null_or_page _ = Fault"

definition get_page_from_free_area :: "nat \<Rightarrow> nat \<Rightarrow> buddy \<Rightarrow> (ulong option \<times> buddy) outcome" where
  "get_page_from_free_area z order b =
     bnd (list_header_remove_head (Area z order) (free_area b)) (\<lambda>(l, fa).
     bnd (list_null_or_page l) (\<lambda>p. Ret (p, b\<lparr>free_area := fa\<rparr>)))"

fun expand_loop :: "nat \<Rightarrow> ulong \<Rightarrow> nat \<Rightarrow> nat \<Rightarrow> ulong \<Rightarrow> buddy \<Rightarrow> buddy outcome" where
  "expand_loop z page low high sz b =
     (if high > low
      then (let high = high - 1; sz = drop_bit 1 sz; p = page + sz
            in bnd (INIT_LIST_S (At (Page p)) (mem (free_area b))) (\<lambda>h.
               bnd (add_to_free_list p z high (b\<lparr>free_area := (free_area b)\<lparr>mem := h\<rparr>\<rparr>)) (\<lambda>b.
               expand_loop z page low high sz (set_buddy_order p high b))))
      else Ret b)"

declare expand_loop.simps [simp del]

definition expand :: "nat \<Rightarrow> ulong \<Rightarrow> nat \<Rightarrow> nat \<Rightarrow> buddy \<Rightarrow> buddy outcome" where
  "expand z page low high b = expand_loop z page low high (push_bit high 1) b"

section \<open>Allocating\<close>

text \<open>\<^verbatim>\<open>clear_page\<close> on a physical address.\<close>

definition clear_page :: "ulong \<Rightarrow> (ulong \<Rightarrow> u8) \<Rightarrow> ulong \<Rightarrow> u8" where
  "clear_page a c = (\<lambda>x. if x - a < PAGE_SIZE then 0 else c x)"

text \<open>
  The loop of \<^verbatim>\<open>post_alloc_hook\<close> steps a \<^verbatim>\<open>void *\<close>, one byte at a time.
\<close>

definition post_alloc_hook :: "ulong \<Rightarrow> nat \<Rightarrow> u32 \<Rightarrow> buddy \<Rightarrow> buddy" where
  "post_alloc_hook page order gfp_flags b =
     (if gfp_flags AND GFP_ZERO \<noteq> 0
      then b\<lparr>contents := fold (\<lambda>i. clear_page (push_bit PAGE_SHIFT page + of_nat i)) [0..<2 ^ order] (contents b)\<rparr>
      else b)"

definition prep_compound_tail :: "ulong \<Rightarrow> nat \<Rightarrow> buddy \<Rightarrow> buddy" where
  "prep_compound_tail head i = upd_page (head + of_nat i) (\<lambda>p. p\<lparr>pg_compound_head := Some head, pg_private := 0\<rparr>)"

text \<open>
  The members of a folio behind its first page overlay the second page: \<^verbatim>\<open>_flags_1\<close> its flags,
  \<^verbatim>\<open>_entire_mapcount\<close> and \<^verbatim>\<open>_nr_pages_mapped\<close> the halves of \<^verbatim>\<open>mapping\<close>, \<^verbatim>\<open>_pincount\<close> and
  \<^verbatim>\<open>_folio_nr_pages\<close> those of \<^verbatim>\<open>index\<close>.
\<close>

definition prep_compound_head :: "ulong \<Rightarrow> nat \<Rightarrow> buddy \<Rightarrow> buddy" where
  "prep_compound_head page order b =
     (if order = 0 \<or> \<not> PageHead (pages b page) then b
      else upd_page (page + 1) (\<lambda>p. p\<lparr>pg_flags := (pg_flags p AND NOT 0xff) OR of_nat order,
             pg_mapping := 0xffffffff, pg_index := push_bit 32 (push_bit order 1)\<rparr>) b)"

definition prep_compound_page :: "ulong \<Rightarrow> nat \<Rightarrow> buddy \<Rightarrow> buddy" where
  "prep_compound_page page order b =
     prep_compound_head page order (fold (prep_compound_tail page) [1..<2 ^ order] (upd_page page SetPageHead b))"

definition prep_new_page :: "ulong \<Rightarrow> nat \<Rightarrow> u32 \<Rightarrow> buddy \<Rightarrow> buddy" where
  "prep_new_page page order gfp_flags b =
     (let b = post_alloc_hook page order gfp_flags b
      in if order \<noteq> 0 \<and> gfp_flags AND GFP_COMP \<noteq> 0 then prep_compound_page page order b else b)"

fun inc_refcounts :: "ulong \<Rightarrow> nat \<Rightarrow> buddy \<Rightarrow> buddy" where
  "inc_refcounts page n b =
     fold (\<lambda>i. upd_page (page + of_nat i) (\<lambda>p. p\<lparr>pg_refcount := pg_refcount p + 1\<rparr>)) [0..<n] b"

function rmqueue_loop :: "nat \<Rightarrow> nat \<Rightarrow> nat \<Rightarrow> buddy \<Rightarrow> (ulong option \<times> buddy) outcome" where
  "rmqueue_loop z order current_order b =
     (if current_order < NR_PAGE_ORDERS
      then bnd (get_page_from_free_area z current_order b) (\<lambda>(page, b).
           case page of
             None \<Rightarrow> rmqueue_loop z order (current_order + 1) b
           | Some page \<Rightarrow>
               bnd (del_page_from_free_list page z current_order b) (\<lambda>b.
               bnd (expand z page order current_order b) (\<lambda>b.
               Ret (Some page, inc_refcounts page (2 ^ order) b))))
      else Ret (None, b))"
  by pat_completeness auto
termination
  by (relation "measure (\<lambda>(z, order, k, b). NR_PAGE_ORDERS - k)") auto

declare rmqueue_loop.simps [simp del] inc_refcounts.simps [simp del]

definition rmqueue_smallest :: "nat \<Rightarrow> nat \<Rightarrow> buddy \<Rightarrow> (ulong option \<times> buddy) outcome" where
  "rmqueue_smallest z order b = rmqueue_loop z order order b"

definition prefered_zone_list :: "nat list" where
  "prefered_zone_list = [ZONE_NORMAL, ZONE_DMA32, ZONE_DMA]"

text \<open>The loop over the preferred zones; an index past the end of the array is a fault.\<close>

function alloc_zones :: "nat \<Rightarrow> nat \<Rightarrow> u32 \<Rightarrow> nat \<Rightarrow> buddy \<Rightarrow> (ulong option \<times> buddy) outcome" where
  "alloc_zones max_idx i gfp_flags order b =
     (if i < max_idx
      then if i < length prefered_zone_list
           then bnd (rmqueue_smallest (prefered_zone_list ! i) order b) (\<lambda>(page, b).
                case page of
                  Some page \<Rightarrow> Ret (Some page, prep_new_page page order gfp_flags b)
                | None \<Rightarrow> alloc_zones max_idx (i + 1) gfp_flags order b)
           else Fault
      else Ret (None, b))"
  by pat_completeness auto
termination
  by (relation "measure (\<lambda>(m, i, g, k, b). m - i)") auto

declare alloc_zones.simps [simp del]

definition myos_alloc_pages :: "u32 \<Rightarrow> nat \<Rightarrow> buddy \<Rightarrow> (ulong option \<times> buddy) outcome" where
  "myos_alloc_pages gfp_flags order b =
     (if order > MAX_ORDER then Ret (None, b)
      else let start_prefered_idx = (if gfp_flags AND GFP_DMA \<noteq> 0 then 2 else if gfp_flags AND GFP_DMA32 \<noteq> 0 then 1 else 0)
           in alloc_zones (nr_zones b) start_prefered_idx gfp_flags order b)"

definition alloc_pages :: "u32 \<Rightarrow> nat \<Rightarrow> buddy \<Rightarrow> (ulong option \<times> buddy) outcome" where
  "alloc_pages gfp_flags order b = myos_alloc_pages gfp_flags order b"

definition page_to_virt :: "ulong \<Rightarrow> ulong \<Rightarrow> ulong" where
  "page_to_virt k_offset pfn = push_bit PAGE_SHIFT pfn + k_offset"

definition virt_to_page :: "ulong \<Rightarrow> ulong \<Rightarrow> ulong" where
  "virt_to_page k_offset addr = drop_bit PAGE_SHIFT (addr - k_offset)"

definition get_free_pages :: "ulong \<Rightarrow> u32 \<Rightarrow> nat \<Rightarrow> buddy \<Rightarrow> (ulong \<times> buddy) outcome" where
  "get_free_pages k_offset gfp_mask order b =
     bnd (alloc_pages (gfp_mask AND NOT GFP_HIGHMEM) order b) (\<lambda>(page, b).
     Ret (case page of None \<Rightarrow> 0 | Some p \<Rightarrow> page_to_virt k_offset p, b))"

definition get_zeroed_page :: "ulong \<Rightarrow> u32 \<Rightarrow> buddy \<Rightarrow> (ulong \<times> buddy) outcome" where
  "get_zeroed_page k_offset gfp_mask b = get_free_pages k_offset (gfp_mask OR GFP_ZERO) 0 b"

section \<open>Freeing\<close>

definition find_buddy_pfn :: "ulong \<Rightarrow> nat \<Rightarrow> ulong" where
  "find_buddy_pfn page_pfn order = page_pfn XOR push_bit order 1"

definition page_is_buddy :: "buddy \<Rightarrow> ulong \<Rightarrow> ulong \<Rightarrow> nat \<Rightarrow> bool outcome" where
  "page_is_buddy b page bud order =
     (if \<not> PageBuddy (pages b bud) then Ret False
      else if pg_private (pages b bud) \<noteq> of_nat order then Ret False
      else bnd (myos_page_zone b page) (\<lambda>zp. bnd (myos_page_zone b bud) (\<lambda>zb. Ret (zp = zb))))"

definition find_buddy_page_pfn :: "buddy \<Rightarrow> ulong \<Rightarrow> nat \<Rightarrow> ulong option outcome" where
  "find_buddy_page_pfn b pfn order =
     (let buddy_pfn = find_buddy_pfn pfn order
      in bnd (page_is_buddy b pfn buddy_pfn order) (\<lambda>ok. Ret (if ok then Some buddy_pfn else None)))"

text \<open>The merge loop: the frame and the order the block ends up with.\<close>

function merge_buddies :: "buddy \<Rightarrow> ulong \<Rightarrow> nat \<Rightarrow> (ulong \<times> nat) outcome" where
  "merge_buddies b pfn order =
     (if order < MAX_ORDER
      then bnd (find_buddy_page_pfn b pfn order) (\<lambda>bud.
           case bud of None \<Rightarrow> Ret (pfn, order)
                     | Some buddy_pfn \<Rightarrow> merge_buddies b (buddy_pfn AND pfn) (order + 1))
      else Ret (pfn, order))"
  by pat_completeness auto
termination
  by (relation "measure (\<lambda>(b, pfn, k). MAX_ORDER - k)") auto

declare merge_buddies.simps [simp del]

definition myos_free_one_page :: "ulong \<Rightarrow> nat \<Rightarrow> nat \<Rightarrow> buddy \<Rightarrow> buddy outcome" where
  "myos_free_one_page pfn z order b =
     bnd (merge_buddies b pfn order) (\<lambda>(page, order).
     add_to_free_list page z order (set_buddy_order page order b))"

definition free_pages_prepare :: "ulong \<Rightarrow> buddy \<Rightarrow> buddy" where
  "free_pages_prepare page = upd_page page (\<lambda>p. p\<lparr>pg_flags := pg_flags p AND NOT PAGE_FLAGS_CHECK_AT_PREP\<rparr>)"

definition free_pages_ok :: "ulong \<Rightarrow> nat \<Rightarrow> buddy \<Rightarrow> buddy outcome" where
  "free_pages_ok page order b =
     bnd (myos_page_zone b page) (\<lambda>z. myos_free_one_page page z order (free_pages_prepare page b))"

text \<open>\<^verbatim>\<open>__free_pages\<close> and \<^verbatim>\<open>free_pages\<close>.\<close>

definition free_pages_at :: "ulong \<Rightarrow> nat \<Rightarrow> buddy \<Rightarrow> buddy outcome" where
  "free_pages_at page order b = free_pages_ok page order b"

definition free_pages :: "ulong \<Rightarrow> ulong \<Rightarrow> nat \<Rightarrow> buddy \<Rightarrow> buddy outcome" where
  "free_pages k_offset addr order b =
     (if addr \<noteq> 0 then free_pages_at (virt_to_page k_offset addr) order b else Ret b)"

definition memblock_free_pages :: "ulong \<Rightarrow> nat \<Rightarrow> buddy \<Rightarrow> buddy outcome" where
  "memblock_free_pages page order b =
     (let b = fold (\<lambda>i. upd_page (page + of_nat i) (\<lambda>p. set_page_count 0 (ClearPageReserved p))) [0..<2 ^ order] b
      in bnd (myos_page_zone b page) (\<lambda>z.
         free_pages_ok page order
           (b\<lparr>zones := (zones b)(z := (zones b z)\<lparr>managed_pages := managed_pages (zones b z) + 2 ^ order\<rparr>)\<rparr>)))"

section \<open>References\<close>

definition page_ref_inc :: "ulong \<Rightarrow> buddy \<Rightarrow> buddy" where
  "page_ref_inc page = upd_page page (\<lambda>p. p\<lparr>pg_refcount := pg_refcount p + 1\<rparr>)"

definition page_ref_dec :: "ulong \<Rightarrow> buddy \<Rightarrow> buddy" where
  "page_ref_dec page = upd_page page (\<lambda>p. p\<lparr>pg_refcount := pg_refcount p - 1\<rparr>)"

definition compound_head :: "buddy \<Rightarrow> ulong \<Rightarrow> ulong" where
  "compound_head b page = (case pg_compound_head (pages b page) of Some h \<Rightarrow> h | None \<Rightarrow> page)"

text \<open>\<^verbatim>\<open>__folio_put\<close> has an empty body.\<close>

definition folio_put_final :: "ulong \<Rightarrow> buddy \<Rightarrow> buddy" where
  "folio_put_final folio b = b"

definition folio_put :: "ulong \<Rightarrow> buddy \<Rightarrow> buddy" where
  "folio_put folio b =
     (let b = page_ref_dec folio b
      in if pg_refcount (pages b folio) = 0 then folio_put_final folio b else b)"

definition get_page :: "ulong \<Rightarrow> buddy \<Rightarrow> buddy" where
  "get_page page b = page_ref_inc (compound_head b page) b"

definition put_page :: "ulong \<Rightarrow> buddy \<Rightarrow> buddy" where
  "put_page page b = folio_put (compound_head b page) b"

definition compound_order :: "buddy \<Rightarrow> ulong \<Rightarrow> ulong" where
  "compound_order b page = (if \<not> PageHead (pages b page) then 0 else pg_flags (pages b (page + 1)) AND 0xff)"

definition compound_nr :: "buddy \<Rightarrow> ulong \<Rightarrow> ulong" where
  "compound_nr b page = (if \<not> PageHead (pages b page) then 1 else drop_bit 32 (pg_index (pages b (page + 1))))"

end
