(* ===== verification/Buddy_Alloc.thy ===== *)
theory Buddy_Alloc
  imports Buddy
begin

unbundle bit_operations_syntax

text \<open>
  What the page allocator of theory \<^verbatim>\<open>Buddy\<close> promises. The free areas represent lists of aligned
  blocks that are pairwise disjoint (\<open>rep\<close>); allocation takes a block out and puts the split-off
  halves back, freeing puts one in. \<open>untyped\<close> says that no page entry has the base bits of a page
  type, which is how the boot code leaves the entries: \<^verbatim>\<open>memset\<close> clears them and the call that would
  set the type word to all ones is commented out. The free lists of a zone are an instance of the
  allocator contract of theory \<^verbatim>\<open>Allocators\<close>.
\<close>

declare list_walk.simps [code]

section \<open>The free blocks\<close>

definition areas :: "node set" where
  "areas = {Area z k | z k. z < MAX_NR_ZONES \<and> k \<le> MAX_ORDER}"

type_synonym free_lists = "nat \<Rightarrow> nat \<Rightarrow> ulong list"

definition fl_nodes :: "free_lists \<Rightarrow> node \<Rightarrow> node list" where
  "fl_nodes fl n = (case n of Area z k \<Rightarrow> map Page (fl z k) | Page p \<Rightarrow> [])"

definition fl_put :: "nat \<Rightarrow> nat \<Rightarrow> ulong list \<Rightarrow> free_lists \<Rightarrow> free_lists" where
  "fl_put z k xs fl = fl(z := (fl z)(k := xs))"

definition blk :: "nat \<Rightarrow> ulong \<Rightarrow> nat set" where
  "blk k p = {unat p..<unat p + 2 ^ k}"

definition blocks :: "free_lists \<Rightarrow> (nat \<times> nat \<times> ulong) set" where
  "blocks fl = {(z, k, p). z < MAX_NR_ZONES \<and> k \<le> MAX_ORDER \<and> p \<in> set (fl z k)}"

definition bk :: "nat \<times> nat \<times> ulong \<Rightarrow> nat set" where
  "bk x = blk (fst (snd x)) (snd (snd x))"

definition fl_frames :: "free_lists \<Rightarrow> nat set" where
  "fl_frames fl = \<Union> (bk ` blocks fl)"

text \<open>A block is naturally aligned and inside the physical address space.\<close>

definition good_block :: "nat \<Rightarrow> ulong \<Rightarrow> bool" where
  "good_block k p \<longleftrightarrow> k \<le> MAX_ORDER \<and> 2 ^ k dvd unat p \<and> unat p + 2 ^ k \<le> 2 ^ 52"

definition fl_ok :: "free_lists \<Rightarrow> bool" where
  "fl_ok fl \<longleftrightarrow> (\<forall>x \<in> blocks fl. good_block (fst (snd x)) (snd (snd x)))
     \<and> pairwise (\<lambda>x y. disjnt (bk x) (bk y)) (blocks fl)"

definition rep :: "buddy \<Rightarrow> free_lists \<Rightarrow> bool" where
  "rep b fl \<longleftrightarrow> hdrs (free_area b) areas (fl_nodes fl) \<and> fl_ok fl"

lemma blk_nonempty: "unat p \<in> blk k p"
  by (simp add: blk_def)

lemma fl_put_simps [simp]:
  "fl_put z k xs fl z k = xs" "(z', k') \<noteq> (z, k) \<Longrightarrow> fl_put z k xs fl z' k' = fl z' k'"
  by (auto simp: fl_put_def)

lemma fl_nodes_put: "fl_nodes (fl_put z k xs fl) = (fl_nodes fl)(Area z k := map Page xs)"
  by (auto simp: fl_nodes_def fl_put_def fun_eq_iff split: node.splits)

lemma blocks_put:
  assumes "z < MAX_NR_ZONES" "k \<le> MAX_ORDER"
  shows "blocks (fl_put z k xs fl) = {(z', k', p) \<in> blocks fl. (z', k') \<noteq> (z, k)} \<union> {(z, k, p) | p. p \<in> set xs}"
  using assms by (auto simp: blocks_def fl_put_def split: if_splits)

lemma blocks_push:
  assumes "z < MAX_NR_ZONES" "k \<le> MAX_ORDER"
  shows "blocks (fl_put z k (p # fl z k) fl) = insert (z, k, p) (blocks fl)"
  unfolding blocks_put [OF assms] using assms by (auto simp: blocks_def)

lemma area_in: "z < MAX_NR_ZONES \<Longrightarrow> k \<le> MAX_ORDER \<Longrightarrow> Area z k \<in> areas"
  by (auto simp: areas_def)

lemma fresh_page:
  assumes "unat p \<notin> fl_frames fl"
  shows "fresh areas (fl_nodes fl) (Page p)"
proof -
  have "p \<notin> set (fl z k)" if "z < MAX_NR_ZONES" "k \<le> MAX_ORDER" for z k
    using assms that blk_nonempty [of p k] by (force simp: fl_frames_def blocks_def bk_def)
  then show ?thesis by (auto simp: fresh_def areas_def fl_nodes_def)
qed

lemma rep_distinct: "rep b fl \<Longrightarrow> z < MAX_NR_ZONES \<Longrightarrow> k \<le> MAX_ORDER \<Longrightarrow> distinct (fl z k)"
  using lh.rep_distinct [of "free_area b" areas "fl_nodes fl" "Area z k"]
  by (auto simp: rep_def area_in fl_nodes_def distinct_map)

lemma fl_short:
  assumes "rep b fl" "z < MAX_NR_ZONES" "k \<le> MAX_ORDER"
  shows "Suc (length (fl z k)) < 2 ^ 64"
proof -
  have "unat p < 2 ^ 52" if "p \<in> set (fl z k)" for p
  proof -
    have "(z, k, p) \<in> blocks fl" using assms that by (simp add: blocks_def)
    then have "good_block k p" using assms(1) by (auto simp: rep_def fl_ok_def)
    then have "unat p + 2 ^ k \<le> 2 ^ 52" by (simp add: good_block_def)
    moreover have "(0 :: nat) < 2 ^ k" by simp
    ultimately show ?thesis by linarith
  qed
  then have "unat ` set (fl z k) \<subseteq> {..<2 ^ 52}" by auto
  then have "card (unat ` set (fl z k)) \<le> card {..<2 ^ 52 :: nat}" by (intro card_mono) simp_all
  moreover have "inj_on unat (set (fl z k))" by (simp add: inj_on_def word_unat_eq_iff)
  then have "card (unat ` set (fl z k)) = length (fl z k)"
    using rep_distinct [OF assms] by (simp add: card_image distinct_card)
  ultimately show ?thesis by simp
qed

text \<open>One more block.\<close>

lemma fl_ok_push:
  assumes "fl_ok fl" "z < MAX_NR_ZONES" "good_block k p" "blk k p \<inter> fl_frames fl = {}"
  shows "fl_ok (fl_put z k (p # fl z k) fl)" "fl_frames (fl_put z k (p # fl z k) fl) = fl_frames fl \<union> blk k p"
proof -
  have k: "k \<le> MAX_ORDER" using assms(3) by (simp add: good_block_def)
  note B = blocks_push [OF assms(2) k, of p fl]
  have "disjnt (bk (z, k, p)) (bk x)" if "x \<in> blocks fl" for x
    using assms(4) that by (auto simp: fl_frames_def disjnt_def bk_def)
  then show "fl_ok (fl_put z k (p # fl z k) fl)"
    using assms(1,3) unfolding fl_ok_def B by (auto simp: pairwise_insert disjnt_sym)
  show "fl_frames (fl_put z k (p # fl z k) fl) = fl_frames fl \<union> blk k p"
    unfolding fl_frames_def B by (simp add: bk_def Un_commute)
qed

lemma add_to_free_list_ok:
  assumes "rep b fl" "z < MAX_NR_ZONES" "good_block k p" "blk k p \<inter> fl_frames fl = {}"
  shows "\<exists>l. add_to_free_list p z k b = Ret (b\<lparr>free_area := l\<rparr>) \<and> rep (b\<lparr>free_area := l\<rparr>) (fl_put z k (p # fl z k) fl)"
proof -
  have k: "k \<le> MAX_ORDER" using assms(3) by (simp add: good_block_def)
  have "unat p \<notin> fl_frames fl" using assms(4) blk_nonempty by blast
  from fresh_page [OF this] have fr: "fresh areas (fl_nodes fl) (Page p)" .
  have len: "Suc (length (fl_nodes fl (Area z k))) < 2 ^ 64"
    using fl_short [OF assms(1,2) k] by (simp add: fl_nodes_def)
  obtain l where l: "list_header_add_to_head (Area z k) (At (Page p)) (free_area b) = Ret l"
    "hdrs l areas ((fl_nodes fl)(Area z k := Page p # fl_nodes fl (Area z k)))"
    using lh.add_head [OF _ area_in [OF assms(2) k] fr len] assms(1) unfolding rep_def by blast
  have "fl_nodes (fl_put z k (p # fl z k) fl) = (fl_nodes fl)(Area z k := Page p # fl_nodes fl (Area z k))"
    unfolding fl_nodes_put by (simp add: fl_nodes_def)
  then show ?thesis using l fl_ok_push(1) [OF _ assms(2-4)] assms(1)
    by (auto simp: add_to_free_list_def rep_def)
qed

text \<open>A page on no list may have its links reset.\<close>

lemma hdrs_touch:
  assumes "hdrs s D L" "fresh D L n"
  shows "hdrs (s\<lparr>mem := (mem s)(n := x)\<rparr>) D L"
proof -
  have "dlist ((mem s)(n := x)) a (L a)" if "a \<in> D" for a
  proof (rule dlist_frame)
    show "dlist (mem s) a (L a)" using assms(1) that by (simp add: hdrs_def)
    show "((mem s)(n := x)) p = mem s p" if "p \<in> set (a # L a)" for p
      using assms(2) \<open>a \<in> D\<close> that by (auto simp: fresh_def)
  qed
  then show ?thesis using assms(1) unfolding hdrs_def by simp
qed

lemma init_list_page:
  assumes "rep b fl" "unat p \<notin> fl_frames fl"
  shows "\<exists>h. INIT_LIST_S (At (Page p)) (mem (free_area b)) = Ret h
     \<and> rep (b\<lparr>free_area := (free_area b)\<lparr>mem := h\<rparr>\<rparr>) fl"
proof -
  let ?h = "(mem (free_area b))(Page p := (mem (free_area b) (Page p))\<lparr>nxt := At (Page p), prv := At (Page p)\<rparr>)"
  have "INIT_LIST_S (At (Page p)) (mem (free_area b)) = Ret ?h"
    by (simp add: INIT_LIST_S_def)
  moreover have "rep (b\<lparr>free_area := (free_area b)\<lparr>mem := ?h\<rparr>\<rparr>) fl"
    using assms(1) unfolding rep_def by (auto intro!: hdrs_touch fresh_page [OF assms(2)])
  ultimately show ?thesis by blast
qed

text \<open>The first block of a list taken off.\<close>

lemma fl_ok_pop:
  assumes "rep b fl" "z < MAX_NR_ZONES" "k \<le> MAX_ORDER" "fl z k = p # xs"
  shows "fl_ok (fl_put z k xs fl)" "fl_frames (fl_put z k xs fl) = fl_frames fl - blk k p"
    "blk k p \<subseteq> fl_frames fl" "good_block k p"
proof -
  have d: "p \<notin> set xs" using rep_distinct [OF assms(1-3)] assms(4) by simp
  have m: "(z, k, p) \<in> blocks fl" using assms(2-4) by (simp add: blocks_def)
  have B: "blocks (fl_put z k xs fl) = blocks fl - {(z, k, p)}"
    unfolding blocks_put [OF assms(2,3)] using assms(2-4) d by (auto simp: blocks_def)
  have ok: "fl_ok fl" using assms(1) by (simp add: rep_def)
  then show "fl_ok (fl_put z k xs fl)"
    unfolding fl_ok_def B by (meson Diff_subset DiffD1 pairwise_subset)
  have "bk (z, k, p) \<inter> bk y = {}" if "y \<in> blocks fl - {(z, k, p)}" for y
    using ok m that unfolding fl_ok_def pairwise_def disjnt_def by blast
  then have dj: "bk (z, k, p) \<inter> \<Union> (bk ` (blocks fl - {(z, k, p)})) = {}" by blast
  have "fl_frames fl = bk (z, k, p) \<union> \<Union> (bk ` (blocks fl - {(z, k, p)}))"
    unfolding fl_frames_def using m by blast
  then show "fl_frames (fl_put z k xs fl) = fl_frames fl - blk k p" "blk k p \<subseteq> fl_frames fl"
    using dj unfolding fl_frames_def B bk_def fst_conv snd_conv by blast+
  show "good_block k p" using ok m by (auto simp: fl_ok_def)
qed

text \<open>What the operations leave alone.\<close>

definition untyped :: "buddy \<Rightarrow> bool" where
  "untyped b \<longleftrightarrow> (\<forall>p. pg_type (pages b p) AND PAGE_TYPE_BASE \<noteq> PAGE_TYPE_BASE)"

definition keeps :: "buddy \<Rightarrow> buddy \<Rightarrow> bool" where
  "keeps b b' \<longleftrightarrow> zones b' = zones b \<and> nr_zones b' = nr_zones b \<and> contents b' = contents b
     \<and> (\<forall>p. pg_type (pages b' p) AND PAGE_TYPE_BASE = pg_type (pages b p) AND PAGE_TYPE_BASE)
     \<and> (\<forall>p. pg_refcount (pages b' p) = pg_refcount (pages b p))"

lemma keeps_refl [simp]: "keeps b b"
  by (simp add: keeps_def)

lemma keeps_trans [trans]: "keeps a b \<Longrightarrow> keeps b c \<Longrightarrow> keeps a c"
  by (simp add: keeps_def)

lemma keeps_untyped: "keeps b b' \<Longrightarrow> untyped b \<Longrightarrow> untyped b'"
  by (simp add: keeps_def untyped_def)

lemma keeps_free_area [simp]: "keeps b (b\<lparr>free_area := l\<rparr>)"
  by (simp add: keeps_def)

lemma rep_upd_page [simp]: "rep (upd_page p f b) fl = rep b fl"
  by (simp add: rep_def upd_page_def)

lemma base_bits:
  "(t AND NOT PG_buddy) AND PAGE_TYPE_BASE = t AND PAGE_TYPE_BASE"
  "(t OR PG_buddy) AND PAGE_TYPE_BASE = t AND PAGE_TYPE_BASE"
  by (simp_all add: PG_buddy_def PAGE_TYPE_BASE_def and.assoc bit.conj_disj_distrib2)

lemma keeps_set_buddy_order: "keeps b (set_buddy_order p k b)"
  by (simp add: keeps_def set_buddy_order_def upd_page_def SetPageBuddy_def base_bits)

lemma rep_set_buddy_order [simp]: "rep (set_buddy_order p k b) fl = rep b fl"
  by (simp add: set_buddy_order_def)

text \<open>Splitting a block.\<close>

fun fl_expand :: "nat \<Rightarrow> ulong \<Rightarrow> nat \<Rightarrow> nat \<Rightarrow> free_lists \<Rightarrow> free_lists" where
  "fl_expand z p low 0 fl = fl"
| "fl_expand z p low (Suc k) fl =
     (if low \<le> k then fl_expand z p low k (fl_put z k ((p + 2 ^ k) # fl z k) fl) else fl)"

lemma unat_add_exp:
  assumes "unat p + 2 ^ k \<le> 2 ^ 52" "k \<le> MAX_ORDER"
  shows "unat (p + 2 ^ k :: ulong) = unat p + 2 ^ k"
proof -
  have "unat (2 ^ k :: ulong) = 2 ^ k" using assms(2) by (intro unat_exp) (simp add: MAX_ORDER_def)
  then show ?thesis using assms(1) by (simp add: unat_word_ariths)
qed

lemma good_block_halves:
  assumes "good_block (Suc k) p"
  shows "good_block k p" "good_block k (p + 2 ^ k)" "unat (p + 2 ^ k) = unat p + 2 ^ k"
    "blk (Suc k) p = blk k p \<union> blk k (p + 2 ^ k)" "blk k p \<inter> blk k (p + 2 ^ k) = {}"
proof -
  have g: "Suc k \<le> MAX_ORDER" "2 ^ Suc k dvd unat p" "unat p + 2 ^ Suc k \<le> 2 ^ 52"
    using assms by (simp_all add: good_block_def)
  then show u: "unat (p + 2 ^ k) = unat p + 2 ^ k" by (intro unat_add_exp) simp_all
  have d: "2 ^ k dvd unat p" using g(2) by (rule dvd_trans [rotated]) simp
  then show "good_block k p" "good_block k (p + 2 ^ k)" using g u by (simp_all add: good_block_def)
  show "blk (Suc k) p = blk k p \<union> blk k (p + 2 ^ k)" "blk k p \<inter> blk k (p + 2 ^ k) = {}"
    unfolding blk_def u by auto
qed

lemma half_exp: "k < 63 \<Longrightarrow> drop_bit 1 (push_bit (Suc k) 1) = (push_bit k 1 :: ulong)"
  by (rule bit_word_eqI) (auto simp: bit_simps)

lemma expand_loop_ok:
  assumes "rep b fl" "z < MAX_NR_ZONES" "low \<le> high" "good_block high p" "blk high p \<inter> fl_frames fl = {}"
  shows "\<exists>b'. expand_loop z p low high (push_bit high 1) b = Ret b' \<and> rep b' (fl_expand z p low high fl)
    \<and> fl_frames (fl_expand z p low high fl) = fl_frames fl \<union> (blk high p - blk low p) \<and> keeps b b'"
  using assms
proof (induction high arbitrary: b fl)
  case 0
  then show ?case by (subst expand_loop.simps) simp
next
  case (Suc k)
  show ?case
  proof (cases "low \<le> k")
    case False
    then have "low = Suc k" using Suc.prems(3) by simp
    then show ?thesis using Suc.prems(1) by (subst expand_loop.simps) simp
  next
    case True
    let ?q = "p + 2 ^ k" and ?fl = "fl_put z k ((p + 2 ^ k) # fl z k) fl"
    note h = good_block_halves [OF Suc.prems(4)]
    have k: "k < 63" using Suc.prems(4) by (simp add: good_block_def MAX_ORDER_def)
    have dq: "blk k ?q \<inter> fl_frames fl = {}" using Suc.prems(5) h(4) by auto
    then have "unat ?q \<notin> fl_frames fl" using blk_nonempty by blast
    from init_list_page [OF Suc.prems(1) this] obtain l where
      l: "INIT_LIST_S (At (Page ?q)) (mem (free_area b)) = Ret l"
      "rep (b\<lparr>free_area := (free_area b)\<lparr>mem := l\<rparr>\<rparr>) fl" by blast
    from add_to_free_list_ok [OF l(2) Suc.prems(2) h(2) dq] obtain l2 where
      l2: "add_to_free_list ?q z k (b\<lparr>free_area := (free_area b)\<lparr>mem := l\<rparr>\<rparr>) = Ret (b\<lparr>free_area := l2\<rparr>)"
      "rep (b\<lparr>free_area := l2\<rparr>) ?fl" by auto
    define b2 where "b2 = set_buddy_order ?q k (b\<lparr>free_area := l2\<rparr>)"
    have r2: "rep b2 ?fl" and k2: "keeps b b2"
      using l2(2) keeps_trans [OF keeps_free_area keeps_set_buddy_order] by (simp_all add: b2_def)
    have ff: "fl_frames ?fl = fl_frames fl \<union> blk k ?q"
      using Suc.prems(1) by (intro fl_ok_push(2) [OF _ Suc.prems(2) h(2) dq]) (simp add: rep_def)
    have "blk k p \<inter> fl_frames ?fl = {}" using ff h(4,5) Suc.prems(5) by auto
    from Suc.IH [OF r2 Suc.prems(2) True h(1) this] obtain b' where
      b': "expand_loop z p low k (push_bit k 1) b2 = Ret b'" "rep b' (fl_expand z p low k ?fl)"
      "fl_frames (fl_expand z p low k ?fl) = fl_frames ?fl \<union> (blk k p - blk low p)" "keeps b2 b'" by blast
    have "expand_loop z p low (Suc k) (push_bit (Suc k) 1) b = Ret b'"
      using True l(1) l2(1) b'(1) half_exp [OF k]
      by (subst expand_loop.simps) (simp add: Let_def b2_def push_bit_eq_mult)
    moreover have "blk low p \<subseteq> blk k p" using True by (auto simp: blk_def intro: less_le_trans)
    then have "fl_frames ?fl \<union> (blk k p - blk low p) = fl_frames fl \<union> (blk (Suc k) p - blk low p)"
      using ff h(4,5) by auto
    ultimately show ?thesis using True b' keeps_trans [OF k2 b'(4)] by simp
  qed
qed

text \<open>Taking the smallest block that is large enough.\<close>

lemma get_page_ok:
  assumes "rep b fl" "z < MAX_NR_ZONES" "k \<le> MAX_ORDER"
  shows "fl z k = [] \<Longrightarrow> get_page_from_free_area z k b = Ret (None, b)"
    "fl z k = p # xs \<Longrightarrow> \<exists>l. get_page_from_free_area z k b = Ret (Some p, b\<lparr>free_area := l\<rparr>)
       \<and> rep (b\<lparr>free_area := l\<rparr>) (fl_put z k xs fl)"
proof -
  have h: "hdrs (free_area b) areas (fl_nodes fl)" using assms(1) by (simp add: rep_def)
  note A = area_in [OF assms(2,3)]
  show "get_page_from_free_area z k b = Ret (None, b)" if "fl z k = []"
    using lh.remove_head_Nil [OF h A] that by (simp add: get_page_from_free_area_def fl_nodes_def)
  show "\<exists>l. get_page_from_free_area z k b = Ret (Some p, b\<lparr>free_area := l\<rparr>)
       \<and> rep (b\<lparr>free_area := l\<rparr>) (fl_put z k xs fl)" if x: "fl z k = p # xs"
  proof -
    have "fl_nodes fl (Area z k) = Page p # map Page xs" using x by (simp add: fl_nodes_def)
    from lh.remove_head_Cons [OF h A this] obtain l where
      l: "list_header_remove_head (Area z k) (free_area b) = Ret (At (Page p), l)"
      "hdrs l areas ((fl_nodes fl)(Area z k := map Page xs))" by blast
    moreover have "fl_ok (fl_put z k xs fl)" by (rule fl_ok_pop(1) [where p = p, OF assms x])
    ultimately show ?thesis by (auto simp: get_page_from_free_area_def rep_def fl_nodes_put)
  qed
qed

lemma keeps_del: "keeps b (upd_page p (\<lambda>pg. (ClearPageBuddy pg)\<lparr>pg_private := 0\<rparr>) b)"
  by (simp add: keeps_def upd_page_def ClearPageBuddy_def base_bits)

lemma del_page_ok:
  assumes "rep b fl" "z < MAX_NR_ZONES" "k \<le> MAX_ORDER" "unat p \<notin> fl_frames fl"
  shows "\<exists>b'. del_page_from_free_list p z k b = Ret b' \<and> rep b' fl \<and> keeps b b'"
proof -
  have h: "hdrs (free_area b) areas (fl_nodes fl)" using assms(1) by (simp add: rep_def)
  have "Page p \<notin> set (fl_nodes fl (Area z k))"
    using fresh_page [OF assms(4)] area_in [OF assms(2,3)] by (auto simp: fresh_def)
  from lh.delete_absent [OF h area_in [OF assms(2,3)] this]
  have "del_page_from_free_list p z k b = Ret (upd_page p (\<lambda>pg. (ClearPageBuddy pg)\<lparr>pg_private := 0\<rparr>) b)"
    by (simp add: del_page_from_free_list_def)
  then show ?thesis using assms(1) keeps_del by simp
qed

lemma inc_refcounts_facts:
  "rep (inc_refcounts p n b) fl = rep b fl" "zones (inc_refcounts p n b) = zones b"
  "nr_zones (inc_refcounts p n b) = nr_zones b" "contents (inc_refcounts p n b) = contents b"
  "pg_type (pages (inc_refcounts p n b) q) = pg_type (pages b q)"
  by (induction n) (auto simp: inc_refcounts.simps upd_page_def rep_def)

text \<open>What taking a block from a zone promises.\<close>

definition takes :: "nat \<Rightarrow> nat \<Rightarrow> nat \<Rightarrow> ulong \<Rightarrow> free_lists \<Rightarrow> free_lists \<Rightarrow> bool" where
  "takes z order k p fl fl' \<longleftrightarrow> order \<le> k \<and> k \<le> MAX_ORDER \<and> (\<exists>xs. fl z k = p # xs) \<and> (\<forall>i. order \<le> i \<and> i < k \<longrightarrow> fl z i = [])
     \<and> good_block order p \<and> blk order p \<subseteq> fl_frames fl \<and> fl_frames fl' = fl_frames fl - blk order p"

definition unchanged :: "buddy \<Rightarrow> buddy \<Rightarrow> bool" where
  "unchanged b b' \<longleftrightarrow> zones b' = zones b \<and> nr_zones b' = nr_zones b \<and> contents b' = contents b
     \<and> (\<forall>p. pg_type (pages b' p) AND PAGE_TYPE_BASE = pg_type (pages b p) AND PAGE_TYPE_BASE)"

lemma good_block_le:
  assumes "good_block k p" "j \<le> k" shows "good_block j p" "blk j p \<subseteq> blk k p"
proof -
  have d: "(2 :: nat) ^ j dvd 2 ^ k" and l: "(2 :: nat) ^ j \<le> 2 ^ k"
    using assms(2) by (simp_all add: le_imp_power_dvd power_increasing)
  have "unat p + 2 ^ j \<le> 2 ^ 52" using assms(1) l unfolding good_block_def by linarith
  then show "good_block j p" using assms dvd_trans [OF d] by (simp add: good_block_def)
  show "blk j p \<subseteq> blk k p" using l unfolding blk_def by (intro ivl_subset [THEN iffD2]) simp
qed

lemma rmqueue_loop_ok:
  assumes "rep b fl" "z < MAX_NR_ZONES" "order \<le> k" "k \<le> NR_PAGE_ORDERS" "\<forall>i. order \<le> i \<and> i < k \<longrightarrow> fl z i = []"
  shows "(rmqueue_loop z order k b = Ret (None, b) \<and> (\<forall>i. order \<le> i \<and> i \<le> MAX_ORDER \<longrightarrow> fl z i = []))
    \<or> (\<exists>p j b' fl'. rmqueue_loop z order k b = Ret (Some p, inc_refcounts p (2 ^ order) b') \<and> rep b' fl'
         \<and> takes z order j p fl fl' \<and> keeps b b')"
  using assms(3-5)
proof (induction "NR_PAGE_ORDERS - k" arbitrary: k rule: less_induct)
  case less
  show ?case
  proof (cases "k < NR_PAGE_ORDERS")
    case False
    then have "rmqueue_loop z order k b = Ret (None, b)" by (subst rmqueue_loop.simps) simp
    moreover have "fl z i = []" if "order \<le> i" "i \<le> MAX_ORDER" for i
      using less.prems(3) that False by (simp add: NR_PAGE_ORDERS_def)
    ultimately show ?thesis by blast
  next
    case True
    then have k: "k \<le> MAX_ORDER" by (simp add: NR_PAGE_ORDERS_def)
    note g = get_page_ok [OF assms(1,2) k]
    show ?thesis
    proof (cases "fl z k")
      case Nil
      have "rmqueue_loop z order k b = rmqueue_loop z order (Suc k) b"
        using True g(1) [OF Nil] by (subst rmqueue_loop.simps) simp
      moreover have "fl z i = []" if "order \<le> i" "i < Suc k" for i
        using less.prems(3) that Nil by (cases "i = k") auto
      ultimately show ?thesis using less.hyps [of "Suc k"] less.prems(1) True by simp
    next
      case (Cons p xs)
      note pop = fl_ok_pop [OF assms(1,2) k Cons]
      from g(2) [OF Cons] obtain l where l: "get_page_from_free_area z k b = Ret (Some p, b\<lparr>free_area := l\<rparr>)"
        "rep (b\<lparr>free_area := l\<rparr>) (fl_put z k xs fl)" by blast
      have dj: "blk k p \<inter> fl_frames (fl_put z k xs fl) = {}" using pop(2) by blast
      then have "unat p \<notin> fl_frames (fl_put z k xs fl)" using blk_nonempty by blast
      from del_page_ok [OF l(2) assms(2) k this] obtain b1 where
        b1: "del_page_from_free_list p z k (b\<lparr>free_area := l\<rparr>) = Ret b1" "rep b1 (fl_put z k xs fl)"
        "keeps (b\<lparr>free_area := l\<rparr>) b1" by blast
      from expand_loop_ok [OF b1(2) assms(2) less.prems(1) pop(4) dj] obtain b' fl' where
        b': "expand_loop z p order k (push_bit k 1) b1 = Ret b'" "rep b' fl'"
        "fl_frames fl' = fl_frames (fl_put z k xs fl) \<union> (blk k p - blk order p)" "keeps b1 b'" by blast
      note gb = good_block_le [OF pop(4) less.prems(1)]
      have "rmqueue_loop z order k b = Ret (Some p, inc_refcounts p (2 ^ order) b')"
        using True l(1) b1(1) b'(1) by (subst rmqueue_loop.simps) (simp add: expand_def)
      moreover have "fl_frames fl' = fl_frames fl - blk order p"
        unfolding b'(3) pop(2) using pop(3) gb(2) by blast
      then have "takes z order k p fl fl'"
        using less.prems(1,3) k Cons gb pop(3) by (auto simp: takes_def)
      moreover have "keeps b b'" using keeps_trans [OF keeps_free_area keeps_trans [OF b1(3) b'(4)]] .
      ultimately show ?thesis using b'(2) by blast
    qed
  qed
qed

section \<open>Freeing\<close>

lemma untyped_not_buddy: "untyped b \<Longrightarrow> \<not> PageBuddy (pages b p)"
proof
  assume u: "untyped b" and "PageBuddy (pages b p)"
  then have "(pg_type (pages b p) AND (PAGE_TYPE_BASE OR PG_buddy)) AND PAGE_TYPE_BASE = PAGE_TYPE_BASE"
    by (simp add: PageBuddy_def)
  moreover have "(PAGE_TYPE_BASE OR PG_buddy) AND PAGE_TYPE_BASE = PAGE_TYPE_BASE"
    by (simp add: PAGE_TYPE_BASE_def PG_buddy_def)
  ultimately show False using u unfolding untyped_def by (metis and.assoc)
qed

lemma merge_buddies_untyped: "untyped b \<Longrightarrow> merge_buddies b p k = Ret (p, k)"
  by (subst merge_buddies.simps) (simp add: find_buddy_page_pfn_def Let_def page_is_buddy_def untyped_not_buddy)

lemma page_zone_lt: "myos_page_zone b p = Ret z \<Longrightarrow> z < MAX_NR_ZONES"
  by (auto simp: myos_page_zone_def find_Some_iff split: option.splits)

lemma page_zone_cong: "zones b' = zones b \<Longrightarrow> myos_page_zone b' p = myos_page_zone b p"
  by (simp add: myos_page_zone_def)

lemma keeps_prepare: "keeps b (free_pages_prepare p b)"
  by (simp add: keeps_def free_pages_prepare_def upd_page_def)

lemma rep_prepare [simp]: "rep (free_pages_prepare p b) fl = rep b fl"
  by (simp add: free_pages_prepare_def)

lemma free_pages_ok_ok:
  assumes "rep b fl" "untyped b" "myos_page_zone b p = Ret z" "good_block k p" "blk k p \<inter> fl_frames fl = {}"
  shows "\<exists>b'. free_pages_ok p k b = Ret b' \<and> rep b' (fl_put z k (p # fl z k) fl) \<and> keeps b b'
    \<and> fl_frames (fl_put z k (p # fl z k) fl) = fl_frames fl \<union> blk k p"
proof -
  let ?b1 = "free_pages_prepare p b" and ?b2 = "set_buddy_order p k (free_pages_prepare p b)"
  note z = page_zone_lt [OF assms(3)]
  have u: "untyped ?b1" using keeps_untyped [OF keeps_prepare assms(2)] .
  have "rep ?b2 fl" using assms(1) by simp
  from add_to_free_list_ok [OF this z assms(4,5)] obtain l where
    l: "add_to_free_list p z k ?b2 = Ret (?b2\<lparr>free_area := l\<rparr>)" "rep (?b2\<lparr>free_area := l\<rparr>) (fl_put z k (p # fl z k) fl)" by blast
  have "free_pages_ok p k b = Ret (?b2\<lparr>free_area := l\<rparr>)"
    using assms(3) l(1) merge_buddies_untyped [OF u] by (simp add: free_pages_ok_def myos_free_one_page_def)
  moreover have "keeps b (?b2\<lparr>free_area := l\<rparr>)"
    using keeps_trans [OF keeps_prepare keeps_trans [OF keeps_set_buddy_order keeps_free_area]] .
  moreover have "fl_frames (fl_put z k (p # fl z k) fl) = fl_frames fl \<union> blk k p"
    using assms(1) by (intro fl_ok_push(2) [OF _ z assms(4,5)]) (simp add: rep_def)
  ultimately show ?thesis using l(2) by blast
qed

text \<open>The zones without the counter of managed pages.\<close>

definition same_spans :: "buddy \<Rightarrow> buddy \<Rightarrow> bool" where
  "same_spans b b' \<longleftrightarrow> (\<forall>i. zone_start_pfn (zones b' i) = zone_start_pfn (zones b i)
     \<and> spanned_pages (zones b' i) = spanned_pages (zones b i)) \<and> nr_zones b' = nr_zones b"

lemma page_zone_spans: "same_spans b b' \<Longrightarrow> myos_page_zone b' p = myos_page_zone b p"
  by (simp add: myos_page_zone_def same_spans_def)

lemma untyped_upd_page: "(\<And>p. pg_type (f p) = pg_type p) \<Longrightarrow> untyped (upd_page p f b) = untyped b"
  by (auto simp: untyped_def upd_page_def)

lemma fold_upd_page_facts:
  assumes "\<And>p. pg_type (f p) = pg_type p"
  shows "rep (fold (\<lambda>i. upd_page (q i) f) js b) fl = rep b fl" "zones (fold (\<lambda>i. upd_page (q i) f) js b) = zones b"
    "nr_zones (fold (\<lambda>i. upd_page (q i) f) js b) = nr_zones b"
    "untyped (fold (\<lambda>i. upd_page (q i) f) js b) = untyped b"
proof (induction js arbitrary: b)
  case (Cons i js)
  { case 1 show ?case by (simp add: Cons) next
    case 2 show ?case by (simp add: Cons) (simp add: upd_page_def) next
    case 3 show ?case by (simp add: Cons) (simp add: upd_page_def) next
    case 4 show ?case by (simp add: Cons untyped_upd_page assms) }
qed simp_all

lemma memblock_free_pages_ok:
  assumes "rep b fl" "untyped b" "myos_page_zone b p = Ret z" "good_block k p" "blk k p \<inter> fl_frames fl = {}"
  shows "\<exists>b'. memblock_free_pages p k b = Ret b' \<and> rep b' (fl_put z k (p # fl z k) fl) \<and> untyped b' \<and> same_spans b b'
    \<and> fl_frames (fl_put z k (p # fl z k) fl) = fl_frames fl \<union> blk k p"
proof -
  define b1 where "b1 = fold (\<lambda>i. upd_page (p + of_nat i) (\<lambda>p. set_page_count 0 (ClearPageReserved p))) [0..<2 ^ k] b"
  have F: "pg_type (set_page_count 0 (ClearPageReserved q)) = pg_type q" for q
    by (simp add: set_page_count_def ClearPageReserved_def)
  note b1 = fold_upd_page_facts [where f = "\<lambda>p. set_page_count 0 (ClearPageReserved p)"
      and q = "\<lambda>i. p + of_nat i" and js = "[0..<2 ^ k]" and b = b, OF F, folded b1_def]
  define b2 where "b2 = b1\<lparr>zones := (zones b1)(z := (zones b1 z)\<lparr>managed_pages := managed_pages (zones b1 z) + 2 ^ k\<rparr>)\<rparr>"
  have z1: "myos_page_zone b1 p = Ret z" using assms(3) page_zone_cong [OF b1(2)] by simp
  have sp: "same_spans b b2" by (simp add: same_spans_def b2_def b1)
  have r2: "rep b2 fl" and u2: "untyped b2"
    using assms(1,2) b1(1) [of fl] b1(4) by (simp_all add: b2_def rep_def untyped_def)
  have "myos_page_zone b2 p = Ret z" using page_zone_spans [OF sp] assms(3) by simp
  from free_pages_ok_ok [OF r2 u2 this assms(4,5)] obtain b' where
    b': "free_pages_ok p k b2 = Ret b'" "rep b' (fl_put z k (p # fl z k) fl)" "keeps b2 b'"
    "fl_frames (fl_put z k (p # fl z k) fl) = fl_frames fl \<union> blk k p" by blast
  have "memblock_free_pages p k b = Ret b'"
    using z1 b'(1) unfolding memblock_free_pages_def Let_def b1_def [symmetric] b2_def by simp
  moreover have "same_spans b b'" using sp b'(3) by (simp add: same_spans_def keeps_def)
  moreover have "untyped b'" using keeps_untyped [OF b'(3) u2] .
  ultimately show ?thesis using b'(2,4) by blast
qed

section \<open>Allocating\<close>

lemma rmqueue_smallest_ok:
  assumes "rep b fl" "z < MAX_NR_ZONES" "order \<le> MAX_ORDER"
  shows "(rmqueue_smallest z order b = Ret (None, b) \<and> (\<forall>i. order \<le> i \<and> i \<le> MAX_ORDER \<longrightarrow> fl z i = []))
    \<or> (\<exists>p j b' fl'. rmqueue_smallest z order b = Ret (Some p, inc_refcounts p (2 ^ order) b') \<and> rep b' fl'
         \<and> takes z order j p fl fl' \<and> keeps b b')"
  unfolding rmqueue_smallest_def
  using assms by (intro rmqueue_loop_ok) (auto simp: NR_PAGE_ORDERS_def)

text \<open>The loop that clears a block steps by bytes.\<close>

lemma clear_range: "clear_page (a + of_nat n) (\<lambda>x. if x - a < PAGE_SIZE + of_nat n - 1 then 0 else c x) =
    (\<lambda>x. if x - a < PAGE_SIZE + of_nat (Suc n) - 1 then 0 else c x)" if "n < 2 ^ 32"
proof
  fix x
  have n: "unat (of_nat n :: ulong) = n" using that by (intro unat_of_nat_small) simp
  have p: "unat (PAGE_SIZE + of_nat n - 1) = 4095 + n" "unat (PAGE_SIZE + of_nat (Suc n) - 1) = 4096 + n"
    using that n by (simp_all add: PAGE_SIZE_def PAGE_SHIFT_def unat_word_ariths)
  have q: "unat PAGE_SIZE = 4096" by (simp add: PAGE_SIZE_def PAGE_SHIFT_def)
  define d where "d = x - a"
  have xa: "x - (a + of_nat n) = d - of_nat n" by (simp add: d_def)
  show "clear_page (a + of_nat n) (\<lambda>x. if x - a < PAGE_SIZE + of_nat n - 1 then 0 else c x) x =
    (if x - a < PAGE_SIZE + of_nat (Suc n) - 1 then 0 else c x)"
  proof (cases "n \<le> unat d")
    case True
    then have "of_nat n \<le> d" using n by (simp add: word_le_nat_alt)
    then have "unat (d - of_nat n) = unat d - n" using n by (simp add: unat_sub)
    then show ?thesis unfolding clear_page_def xa d_def [symmetric] word_less_nat_alt p q using True by auto
  next
    case False
    then show ?thesis unfolding clear_page_def xa d_def [symmetric] word_less_nat_alt p q by auto
  qed
qed

lemma post_alloc_hook_contents:
  assumes "gfp_flags AND GFP_ZERO \<noteq> 0" "order \<le> MAX_ORDER"
  shows "contents (post_alloc_hook p order gfp_flags b) x =
    (if x - push_bit PAGE_SHIFT p < PAGE_SIZE + 2 ^ order - 1 then 0 else contents b x)"
proof -
  let ?a = "push_bit PAGE_SHIFT p"
  have "fold (\<lambda>i. clear_page (?a + of_nat i)) [0..<Suc n] c = (\<lambda>x. if x - ?a < PAGE_SIZE + of_nat (Suc n) - 1 then 0 else c x)"
    if "Suc n < 2 ^ 32" for n c
    using that
  proof (induction n)
    case 0
    show ?case by (simp add: clear_page_def)
  next
    case (Suc n)
    have "fold (\<lambda>i. clear_page (?a + of_nat i)) [0..<Suc (Suc n)] c =
      clear_page (?a + of_nat (Suc n)) (fold (\<lambda>i. clear_page (?a + of_nat i)) [0..<Suc n] c)"
      by simp
    also have "\<dots> = clear_page (?a + of_nat (Suc n)) (\<lambda>x. if x - ?a < PAGE_SIZE + of_nat (Suc n) - 1 then 0 else c x)"
      using Suc by simp
    also have "\<dots> = (\<lambda>x. if x - ?a < PAGE_SIZE + of_nat (Suc (Suc n)) - 1 then 0 else c x)"
      using Suc.prems by (intro clear_range) simp
    finally show ?case .
  qed
  moreover obtain n where n: "(2 :: nat) ^ order = Suc n" by (metis not0_implies_Suc power_not_zero zero_neq_numeral)
  moreover have "(2 :: nat) ^ order \<le> 2 ^ 10" using assms(2) by (intro power_increasing) (simp_all add: MAX_ORDER_def)
  ultimately have "fold (\<lambda>i. clear_page (?a + of_nat i)) [0..<2 ^ order] (contents b) =
    (\<lambda>x. if x - ?a < PAGE_SIZE + of_nat (2 ^ order) - 1 then 0 else contents b x)" by simp
  then show ?thesis using assms(1) by (simp add: post_alloc_hook_def)
qed

definition avail :: "free_lists \<Rightarrow> nat \<Rightarrow> nat \<Rightarrow> bool" where
  "avail fl order z \<longleftrightarrow> (\<exists>k. order \<le> k \<and> k \<le> MAX_ORDER \<and> fl z k \<noteq> [])"

lemma takes_avail: "takes z order k p fl fl' \<Longrightarrow> avail fl order z"
  by (auto simp: takes_def avail_def)

lemma prefered_zone_lt: "i < 3 \<Longrightarrow> prefered_zone_list ! i < MAX_NR_ZONES"
proof -
  assume "i < 3"
  then consider "i = 0" | "i = 1" | "i = 2" by linarith
  then show ?thesis
    by cases (simp_all add: prefered_zone_list_def MAX_NR_ZONES_def ZONE_NORMAL_def ZONE_DMA32_def ZONE_DMA_def)
qed

text \<open>The zones are tried in order; past the third one the array is read out of bounds.\<close>

lemma alloc_zones_ok:
  assumes "rep b fl" "order \<le> MAX_ORDER" "i \<le> 3" "3 \<le> n"
  shows "(\<exists>j p k b' fl'. i \<le> j \<and> j < 3 \<and> (\<forall>m. i \<le> m \<and> m < j \<longrightarrow> \<not> avail fl order (prefered_zone_list ! m))
      \<and> alloc_zones n i g order b = Ret (Some p, prep_new_page p order g (inc_refcounts p (2 ^ order) b')) \<and> rep b' fl'
      \<and> takes (prefered_zone_list ! j) order k p fl fl' \<and> keeps b b')
   \<or> (\<forall>m. i \<le> m \<and> m < 3 \<longrightarrow> \<not> avail fl order (prefered_zone_list ! m))
      \<and> alloc_zones n i g order b = (if 3 < n then Fault else Ret (None, b))"
  using assms(3)
proof (induction "3 - i" arbitrary: i rule: less_induct)
  case less
  have len: "length prefered_zone_list = 3" by (simp add: prefered_zone_list_def)
  show ?case
  proof (cases "i < 3")
    case False
    then have "i = 3" using less.prems by simp
    then show ?thesis using assms(4) by (subst (2) alloc_zones.simps) (auto simp: len)
  next
    case True
    let ?z = "prefered_zone_list ! i"
    from rmqueue_smallest_ok [OF assms(1) prefered_zone_lt [OF True] assms(2)]
    consider (none) "rmqueue_smallest ?z order b = Ret (None, b)" "\<forall>k. order \<le> k \<and> k \<le> MAX_ORDER \<longrightarrow> fl ?z k = []"
      | (some) p k b' fl' where "rmqueue_smallest ?z order b = Ret (Some p, inc_refcounts p (2 ^ order) b')" "rep b' fl'"
          "takes ?z order k p fl fl'" "keeps b b'" by blast
    then show ?thesis
    proof cases
      case none
      have eq: "alloc_zones n i g order b = alloc_zones n (Suc i) g order b"
        using True assms(4) none(1) by (subst alloc_zones.simps) (simp add: len)
      have na: "\<not> avail fl order ?z" using none(2) by (auto simp: avail_def)
      have ext: "\<not> avail fl order (prefered_zone_list ! m)" if "\<forall>m. Suc i \<le> m \<and> m < h \<longrightarrow> \<not> avail fl order (prefered_zone_list ! m)"
        "i \<le> m" "m < h" for h m
        using that na by (cases "m = i") auto
      have "3 - Suc i < 3 - i" "Suc i \<le> 3" using True by simp_all
      from less.hyps [OF this] show ?thesis
      proof (elim disjE exE conjE, goal_cases)
        case (1 j p k b' fl')
        have "\<forall>m. i \<le> m \<and> m < j \<longrightarrow> \<not> avail fl order (prefered_zone_list ! m)" using 1(3) ext by blast
        moreover have "i \<le> j" using 1(1) by simp
        ultimately show ?case using 1 unfolding eq by blast
      next
        case 2
        have "\<forall>m. i \<le> m \<and> m < 3 \<longrightarrow> \<not> avail fl order (prefered_zone_list ! m)" using 2(1) ext by blast
        then show ?case using 2(2) unfolding eq by blast
      qed
    next
      case some
      have "alloc_zones n i g order b = Ret (Some p, prep_new_page p order g (inc_refcounts p (2 ^ order) b'))"
        using True assms(4) some(1) by (subst alloc_zones.simps) (simp add: len)
      then show ?thesis using some True by (intro disjI1 exI [of _ i]) auto
    qed
  qed
qed

lemma prep_compound_head_rep [simp]: "rep (prep_compound_head p k b) fl = rep b fl"
  by (simp add: prep_compound_head_def)

lemma fold_tail_rep: "rep (fold (prep_compound_tail p) js b) fl = rep b fl"
  by (induction js arbitrary: b) (simp_all add: prep_compound_tail_def)

lemma prep_new_page_rep: "rep (prep_new_page p k g b) fl = rep b fl"
proof -
  have "rep (post_alloc_hook p k g b) fl = rep b fl" by (simp add: post_alloc_hook_def rep_def)
  then show ?thesis by (simp add: prep_new_page_def Let_def prep_compound_page_def fold_tail_rep)
qed

text \<open>The state determines its free lists.\<close>

lemma links_unique:
  assumes "successively (linked h) (a # xs @ [c])" "successively (linked h) (a # ys @ [c])" "c \<notin> set xs" "c \<notin> set ys"
  shows "xs = ys"
  using assms
proof (induction xs arbitrary: a ys)
  case Nil
  then show ?case by (cases ys) (auto simp: linked_def)
next
  case (Cons x xs)
  then obtain y ys' where y: "ys = y # ys'" by (cases ys) (auto simp: linked_def)
  then have "x = y" using Cons.prems(1,2) by (simp add: linked_def)
  then show ?case using Cons.IH [of x ys'] Cons.prems y by simp
qed

lemma rep_unique:
  assumes "rep b fl" "rep b fl'" shows "blocks fl = blocks fl'"
proof -
  have "fl z k = fl' z k" if "z < MAX_NR_ZONES" "k \<le> MAX_ORDER" for z k
  proof -
    have "dlist (mem (free_area b)) (Area z k) (map Page (fl z k))" "dlist (mem (free_area b)) (Area z k) (map Page (fl' z k))"
      using assms area_in [OF that] by (auto simp: rep_def hdrs_def fl_nodes_def)
    then have "map Page (fl z k) = map Page (fl' z k)"
      by (intro links_unique [of "mem (free_area b)" "Area z k" _ "Area z k"]) (simp_all add: dlist_def)
    then show ?thesis by (simp add: inj_map_eq_map inj_def)
  qed
  then show ?thesis by (auto simp: blocks_def)
qed

definition free_set :: "buddy \<Rightarrow> nat set" where
  "free_set b = {x. \<exists>fl. rep b fl \<and> x \<in> fl_frames fl}"

lemma free_set_rep:
  assumes "rep b fl" shows "free_set b = fl_frames fl"
proof -
  have "fl_frames fl' = fl_frames fl" if "rep b fl'" for fl'
    unfolding fl_frames_def rep_unique [OF that assms] ..
  then show ?thesis using assms unfolding free_set_def by blast
qed

definition buddy_ok :: "buddy \<Rightarrow> bool" where
  "buddy_ok b \<longleftrightarrow> untyped b \<and> (\<exists>fl. rep b fl)"

definition zone_request :: "nat \<times> nat \<Rightarrow> bool" where
  "zone_request r \<longleftrightarrow> fst r < MAX_NR_ZONES \<and> snd r \<le> MAX_ORDER"

definition zone_extent :: "nat \<times> nat \<Rightarrow> ulong option \<Rightarrow> nat set" where
  "zone_extent r f = (case f of None \<Rightarrow> {} | Some p \<Rightarrow> blk (snd r) p)"

definition zone_alloc :: "nat \<times> nat \<Rightarrow> buddy \<Rightarrow> (ulong option \<times> buddy) outcome" where
  "zone_alloc r = rmqueue_smallest (fst r) (snd r)"

lemma buddy_ok_take:
  assumes "keeps b b'" "rep b' fl'" "untyped b"
  shows "buddy_ok (inc_refcounts p n b')" "free_set (inc_refcounts p n b') = fl_frames fl'"
proof -
  have r: "rep (inc_refcounts p n b') fl'" using assms(2) by (simp add: inc_refcounts_facts)
  then show "free_set (inc_refcounts p n b') = fl_frames fl'" by (rule free_set_rep)
  have "untyped (inc_refcounts p n b')"
    using keeps_untyped [OF assms(1,3)] by (simp add: untyped_def inc_refcounts_facts)
  then show "buddy_ok (inc_refcounts p n b')" using r by (auto simp: buddy_ok_def)
qed

interpretation zone: allocator zone_alloc buddy_ok zone_request "\<lambda>_. UNIV" "\<lambda>b. - free_set b" zone_extent "\<lambda>_. 1" 0 0
proof
  fix b r assume "buddy_ok b" and good: "zone_request r"
  then obtain fl where fl: "rep b fl" "untyped b" by (auto simp: buddy_ok_def)
  note F = free_set_rep [OF fl(1)]
  have g: "fst r < MAX_NR_ZONES" "snd r \<le> MAX_ORDER" using good by (simp_all add: zone_request_def)
  from rmqueue_smallest_ok [OF fl(1) g]
  show "\<exists>f b'. zone_alloc r b = Ret (f, b') \<and> buddy_ok b' \<and> (UNIV :: nat set) = UNIV \<and> (1 :: nat) \<le> 1 + 0
      \<and> - free_set b' = - free_set b \<union> zone_extent r f \<and> zone_extent r f \<subseteq> UNIV - - free_set b"
  proof (elim disjE exE conjE, goal_cases)
    case 1
    then show ?case using \<open>buddy_ok b\<close> by (intro exI [of _ None]) (simp add: zone_alloc_def zone_extent_def)
  next
    case (2 p j b' fl')
    note B = buddy_ok_take [OF 2(4,2) fl(2), of p "2 ^ snd r"]
    have "fl_frames fl' = fl_frames fl - blk (snd r) p" "blk (snd r) p \<subseteq> fl_frames fl"
      using 2(3) by (simp_all add: takes_def)
    then show ?case using 2(1) B F
      by (intro exI [of _ "Some p"] exI [of _ "inc_refcounts p (2 ^ snd r) b'"]) (auto simp: zone_alloc_def zone_extent_def)
  qed
qed

text \<open>Page entries as \<^verbatim>\<open>memset\<close> leaves them, empty lists and one zone, for the examples.\<close>

definition fresh_node :: "u32 \<Rightarrow> buddy" where
  "fresh_node ty = \<lparr>pages = (\<lambda>_. \<lparr>pg_flags = 0, pg_compound_head = None, pg_mapping = 0, pg_index = 0, pg_private = 0,
       pg_type = ty, pg_refcount = 0\<rparr>),
     zones = (\<lambda>i. \<lparr>zone_start_pfn = 0, spanned_pages = (if i = 0 then 0x1000 else 0), present_pages = 0, managed_pages = 0\<rparr>),
     nr_zones = MAX_NR_ZONES, free_area = \<lparr>mem = (\<lambda>p. \<lparr>nxt = At p, prv = At p\<rparr>), count = (\<lambda>_. 0)\<rparr>,
     contents = (\<lambda>_. 0xff)\<rparr>"

lemma rep_fresh_node: "rep (fresh_node ty) (\<lambda>_ _. [])"
proof -
  have "fl_nodes (\<lambda>_ _. []) = (\<lambda>_. [])" by (auto simp: fl_nodes_def split: node.splits)
  then show ?thesis
    by (auto simp: rep_def hdrs_def fresh_node_def dlist_def linked_def fl_ok_def blocks_def pairwise_def)
qed

lemma fl_frames_empty [simp]: "fl_frames (\<lambda>_ _. []) = {}"
  by (simp add: fl_frames_def blocks_def)

lemma untyped_fresh_node: "untyped (fresh_node 0)"
  by (simp add: untyped_def fresh_node_def PAGE_TYPE_BASE_def)

lemma zone_fresh_node: "p < 0x1000 \<Longrightarrow> myos_page_zone (fresh_node ty) p = Ret 0"
  by (simp add: myos_page_zone_def fresh_node_def MAX_NR_ZONES_def upt_rec)

section \<open>Buddies\<close>

lemma bit_aligned:
  assumes "unat (p :: ulong) = 2 ^ k * m" "k < 64" shows "bit p k \<longleftrightarrow> odd m"
proof -
  have "bit p k \<longleftrightarrow> bit (unat p) k" using assms(2) by (simp add: bit_simps)
  then show ?thesis using assms(1) unfolding bit_iff_odd [of "unat p"] by simp
qed

lemma buddy_set:
  assumes "\<not> bit p k" "good_block k p" "k < MAX_ORDER"
  shows "find_buddy_pfn p k = p + 2 ^ k" "find_buddy_pfn p k AND p = p" "good_block (Suc k) p"
proof -
  have k: "k < 64" using assms(3) by (simp add: MAX_ORDER_def)
  have "find_buddy_pfn p k = set_bit k p"
    unfolding find_buddy_pfn_def using assms(1) k by (intro bit_word_eqI) (auto simp: bit_simps)
  then show "find_buddy_pfn p k = p + 2 ^ k" using assms(1) by (simp add: set_bit_eq)
  show "find_buddy_pfn p k AND p = p"
    unfolding find_buddy_pfn_def using assms(1) k by (intro bit_word_eqI) (auto simp: bit_simps)
  obtain m where m: "unat p = 2 ^ k * m" using assms(2) by (auto simp: good_block_def)
  have "even m" using assms(1) bit_aligned [OF m k] by simp
  then obtain m' where "unat p = 2 ^ Suc k * m'" using m by (auto elim!: evenE)
  then have d: "2 ^ Suc k dvd unat p" by simp
  have "(2 :: nat) ^ Suc k dvd 2 ^ 52" using assms(3) by (intro le_imp_power_dvd) (simp add: MAX_ORDER_def)
  then have d2: "2 ^ Suc k dvd 2 ^ 52 - unat p" using d by (rule dvd_diff_nat)
  have "unat p < 2 ^ 52" using assms(2) 
    unfolding good_block_def by (meson less_add_same_cancel1 order_less_le_trans zero_less_numeral zero_less_power)
  then have "2 ^ Suc k \<le> 2 ^ 52 - unat p" using d2 by (intro dvd_imp_le) simp_all
  then have "unat p + 2 ^ Suc k \<le> 2 ^ 52" using \<open>unat p < 2 ^ 52\<close> by linarith
  then show "good_block (Suc k) p" using d assms(3) by (simp add: good_block_def)
qed

lemma buddy_unset:
  assumes "bit p k" "good_block k p" "k < MAX_ORDER"
  shows "find_buddy_pfn p k + 2 ^ k = p" "find_buddy_pfn p k AND p = find_buddy_pfn p k"
    "good_block k (find_buddy_pfn p k)" "\<not> bit (find_buddy_pfn p k) k"
proof -
  have k: "k < 64" using assms(3) by (simp add: MAX_ORDER_def)
  have u: "find_buddy_pfn p k = unset_bit k p"
    unfolding find_buddy_pfn_def using assms(1) k by (intro bit_word_eqI) (auto simp: bit_simps)
  then show s: "find_buddy_pfn p k + 2 ^ k = p" using assms(1) by (simp add: unset_bit_eq)
  show "find_buddy_pfn p k AND p = find_buddy_pfn p k"
    unfolding u by (intro bit_word_eqI) (auto simp: bit_simps)
  show "\<not> bit (find_buddy_pfn p k) k" by (simp add: u bit_simps)
  obtain m where m: "unat p = 2 ^ k * m" using assms(2) by (auto simp: good_block_def)
  have "odd m" using assms(1) bit_aligned [OF m k] by simp
  then have "m \<noteq> 0" by (cases "m = 0") simp_all
  then have le: "2 ^ k \<le> unat p" using m by simp
  have "unat (p - 2 ^ k) = unat p - 2 ^ k"
    using le unat_exp [OF k] by (simp add: unat_sub word_le_nat_alt)
  moreover have "find_buddy_pfn p k = p - 2 ^ k" using s by (simp add: algebra_simps)
  ultimately have q: "unat (find_buddy_pfn p k) = unat p - 2 ^ k" by simp
  have "2 ^ k dvd unat p - 2 ^ k" using assms(2) by (simp add: good_block_def dvd_diff_nat)
  then show "good_block k (find_buddy_pfn p k)" using assms(2) q le by (simp add: good_block_def)
qed

section \<open>Properties\<close>

text \<open>
  C6. \<^verbatim>\<open>__rmqueue_smallest\<close> on well-formed free lists ends and takes the first block of the smallest
  order that is large enough: the block it returns is aligned, was free, and is exactly what leaves
  the free frames, the rest of a larger block going back to the lists. It returns \<^verbatim>\<open>NULL\<close> and changes
  nothing only when every list of that order or above is empty.
\<close>

theorem buddy_rmqueue_smallest_correct:
  assumes "rep b fl" "z < MAX_NR_ZONES" "order \<le> MAX_ORDER"
  shows "(rmqueue_smallest z order b = Ret (None, b) \<and> (\<forall>i. order \<le> i \<and> i \<le> MAX_ORDER \<longrightarrow> fl z i = []))
    \<or> (\<exists>p k b' fl'. rmqueue_smallest z order b = Ret (Some p, b') \<and> rep b' fl' \<and> takes z order k p fl fl' \<and> unchanged b b')"
  using rmqueue_smallest_ok [OF assms]
proof (elim disjE exE conjE, goal_cases)
  case (2 p k b' fl')
  have "rep (inc_refcounts p (2 ^ order) b') fl'" using 2(2) by (simp add: inc_refcounts_facts)
  moreover have "unchanged b (inc_refcounts p (2 ^ order) b')"
    using 2(4) by (simp add: unchanged_def keeps_def inc_refcounts_facts)
  ultimately show ?case using 2(1,3) by blast
qed blast

theorem buddy_rmqueue_smallest_correct_witness:
  "(rmqueue_smallest 0 1 (fresh_node 0) = Ret (None, fresh_node 0) \<and> (\<forall>i. 1 \<le> i \<and> i \<le> MAX_ORDER \<longrightarrow> ([] :: ulong list) = []))
    \<or> (\<exists>p k b' fl'. rmqueue_smallest 0 1 (fresh_node 0) = Ret (Some p, b') \<and> rep b' fl'
        \<and> takes 0 1 k p (\<lambda>_ _. []) fl' \<and> unchanged (fresh_node 0) b')"
  using buddy_rmqueue_smallest_correct [OF rep_fresh_node, of 0 1 0] by (simp add: MAX_NR_ZONES_def MAX_ORDER_def)

text \<open>
  C12. No two allocations from the free lists overlap: any sequence of \<^verbatim>\<open>__rmqueue_smallest\<close> calls ends,
  the blocks returned were free before and are pairwise disjoint, and the free frames lose exactly
  these blocks.
\<close>

theorem buddy_alloc_sequence_disjoint:
  assumes "buddy_ok b" "list_all zone_request rs"
  shows "\<exists>fs b'. alloc_run zone_alloc rs b = Ret (fs, b') \<and> length fs = length rs \<and> buddy_ok b'
     \<and> free_set b' = free_set b - (\<Union>i < length rs. zone_extent (rs ! i) (fs ! i))
     \<and> (\<forall>i < length rs. zone_extent (rs ! i) (fs ! i) \<subseteq> free_set b)
     \<and> (\<forall>i j. i < j \<and> j < length rs \<longrightarrow> zone_extent (rs ! i) (fs ! i) \<inter> zone_extent (rs ! j) (fs ! j) = {})"
proof -
  from zone.run [OF assms] obtain fs b' where r: "alloc_run zone_alloc rs b = Ret (fs, b')" "length fs = length rs" "buddy_ok b'"
    "- free_set b' = - free_set b \<union> (\<Union>i < length rs. zone_extent (rs ! i) (fs ! i))"
    "\<forall>i < length rs. zone_extent (rs ! i) (fs ! i) \<subseteq> UNIV - - free_set b"
    "\<forall>i j. i < j \<and> j < length rs \<longrightarrow> zone_extent (rs ! i) (fs ! i) \<inter> zone_extent (rs ! j) (fs ! j) = {}" by auto
  have "free_set b' = free_set b - (\<Union>i < length rs. zone_extent (rs ! i) (fs ! i))" using r(4) by blast
  moreover have "\<forall>i < length rs. zone_extent (rs ! i) (fs ! i) \<subseteq> free_set b" using r(5) by blast
  ultimately show ?thesis using r(1-3,6) by blast
qed

theorem buddy_alloc_sequence_disjoint_witness:
  "\<exists>fs b'. alloc_run zone_alloc [(0, 3), (2, 0)] (fresh_node 0) = Ret (fs, b') \<and> length fs = 2 \<and> buddy_ok b'"
proof -
  have "buddy_ok (fresh_node 0)" using rep_fresh_node untyped_fresh_node by (auto simp: buddy_ok_def)
  moreover have "list_all zone_request [(0, 3), (2, 0)]" by (simp add: zone_request_def MAX_NR_ZONES_def MAX_ORDER_def)
  ultimately obtain fs b' where "alloc_run zone_alloc [(0, 3), (2, 0)] (fresh_node 0) = Ret (fs, b')"
    "length fs = length [(0 :: nat, 3 :: nat), (2, 0)]" "buddy_ok b'"
    using buddy_alloc_sequence_disjoint by blast
  then show ?thesis by (intro exI [of _ fs] exI [of _ b']) simp
qed

text \<open>
  C8. \<^verbatim>\<open>__free_pages\<close> puts a block back: on entries whose type word was never initialised it ends, the
  block heads the list of its own order in the zone of its first frame, the free frames grow by
  exactly the block, and no list is damaged. It never merges buddies.
\<close>

theorem buddy_free_pages_correct:
  assumes "rep b fl" "untyped b" "myos_page_zone b p = Ret z" "good_block k p" "blk k p \<inter> fl_frames fl = {}"
  shows "\<exists>b'. free_pages_at p k b = Ret b' \<and> rep b' (fl_put z k (p # fl z k) fl) \<and> keeps b b'
    \<and> fl_frames (fl_put z k (p # fl z k) fl) = fl_frames fl \<union> blk k p"
  unfolding free_pages_at_def using assms by (rule free_pages_ok_ok)

theorem buddy_free_pages_correct_witness:
  "\<exists>b'. free_pages_at 8 3 (fresh_node 0) = Ret b' \<and> rep b' (fl_put 0 3 [8] (\<lambda>_ _. [])) \<and> keeps (fresh_node 0) b'
    \<and> fl_frames (fl_put 0 3 [8] (\<lambda>_ _. [])) = {} \<union> blk 3 8"
  using buddy_free_pages_correct [OF rep_fresh_node untyped_fresh_node zone_fresh_node, of 8 3]
  by (simp add: good_block_def MAX_ORDER_def)

text \<open>
  C13. Allocating and freeing is a round trip: a block taken from a zone and given back with
  \<^verbatim>\<open>__free_pages\<close> leaves the same frames free as before.
\<close>

theorem buddy_alloc_free_roundtrip:
  assumes "buddy_ok b" "z < MAX_NR_ZONES" "order \<le> MAX_ORDER" "rmqueue_smallest z order b = Ret (Some p, b1)"
    "myos_page_zone b p = Ret z'"
  shows "\<exists>b2. free_pages_at p order b1 = Ret b2 \<and> buddy_ok b2 \<and> free_set b2 = free_set b"
proof -
  obtain fl where fl: "rep b fl" "untyped b" using assms(1) by (auto simp: buddy_ok_def)
  from rmqueue_smallest_ok [OF fl(1) assms(2,3)] assms(4) obtain k b' fl' where
    t: "b1 = inc_refcounts p (2 ^ order) b'" "rep b' fl'" "takes z order k p fl fl'" "keeps b b'" by auto
  have r1: "rep b1 fl'" and u1: "untyped b1"
    using t(1,2) keeps_untyped [OF t(4) fl(2)] by (simp_all add: inc_refcounts_facts untyped_def)
  have z1: "myos_page_zone b1 p = Ret z'"
    using assms(5) t(1,4) page_zone_cong [of b1 b p] by (simp add: inc_refcounts_facts keeps_def)
  have tk: "good_block order p" "blk order p \<subseteq> fl_frames fl" "fl_frames fl' = fl_frames fl - blk order p"
    using t(3) by (simp_all add: takes_def)
  then have "blk order p \<inter> fl_frames fl' = {}" by blast
  from free_pages_ok_ok [OF r1 u1 z1 tk(1) this] obtain b2 where b2: "free_pages_at p order b1 = Ret b2"
    "rep b2 (fl_put z' order (p # fl' z' order) fl')" "keeps b1 b2"
    "fl_frames (fl_put z' order (p # fl' z' order) fl') = fl_frames fl' \<union> blk order p"
    unfolding free_pages_at_def by blast
  moreover have "free_set b2 = free_set b"
    unfolding free_set_rep [OF b2(2)] free_set_rep [OF fl(1)] b2(4) tk(3) using tk(2) by blast
  ultimately show ?thesis using keeps_untyped [OF b2(3) u1] by (auto simp: buddy_ok_def)
qed

text \<open>A node with one free block of eight frames.\<close>

lemma one_block_node:
  "\<exists>b fl. rep b fl \<and> untyped b \<and> fl 0 3 = [8] \<and> fl_frames fl = blk 3 8 \<and> (\<forall>p < 0x1000. myos_page_zone b p = Ret 0)"
proof -
  have "good_block 3 8" by (simp add: good_block_def MAX_ORDER_def)
  moreover have "myos_page_zone (fresh_node 0) 8 = Ret 0" by (rule zone_fresh_node) simp
  ultimately obtain b where b: "free_pages_ok 8 3 (fresh_node 0) = Ret b" "rep b (fl_put 0 3 [8] (\<lambda>_ _. []))"
    "keeps (fresh_node 0) b" "fl_frames (fl_put 0 3 [8] (\<lambda>_ _. [])) = {} \<union> blk 3 8"
    using free_pages_ok_ok [OF rep_fresh_node untyped_fresh_node, of 8 0 3] by auto
  have "myos_page_zone b p = Ret 0" if "p < 0x1000" for p
    using page_zone_cong [of b "fresh_node 0" p] zone_fresh_node [OF that] b(3) by (simp add: keeps_def)
  then show ?thesis using b keeps_untyped [OF b(3) untyped_fresh_node]
    by (intro exI [of _ b] exI [of _ "fl_put 0 3 [8] (\<lambda>_ _. [])"]) simp
qed

lemma one_block_taken:
  "\<exists>b p b1. buddy_ok b \<and> rmqueue_smallest 0 1 b = Ret (Some p, b1) \<and> myos_page_zone b p = Ret 0"
proof -
  obtain b fl where b: "rep b fl" "untyped b" "fl 0 3 = [8]" "fl_frames fl = blk 3 8"
    "\<And>p. p < 0x1000 \<Longrightarrow> myos_page_zone b p = Ret 0" using one_block_node by blast
  have "\<not> (\<forall>i. 1 \<le> i \<and> i \<le> MAX_ORDER \<longrightarrow> fl 0 i = [])" using b(3) by (auto simp: MAX_ORDER_def intro: exI [of _ 3])
  with rmqueue_smallest_ok [OF b(1), of 0 1] obtain p j b' fl' where
    t: "rmqueue_smallest 0 1 b = Ret (Some p, inc_refcounts p (2 ^ 1) b')" "takes 0 1 j p fl fl'"
    by (auto simp: MAX_NR_ZONES_def MAX_ORDER_def)
  have "unat p \<in> blk 3 8" using t(2) blk_nonempty [of p 1] b(4) by (auto simp: takes_def)
  then have "p < 0x1000" by (simp add: blk_def word_less_nat_alt)
  then show ?thesis using b t(1) by (auto simp: buddy_ok_def)
qed

theorem buddy_alloc_free_roundtrip_witness:
  "\<exists>b p b1 b2. rmqueue_smallest 0 1 b = Ret (Some p, b1) \<and> free_pages_at p 1 b1 = Ret b2 \<and> buddy_ok b2
     \<and> free_set b2 = free_set b"
proof -
  obtain b p b1 where "buddy_ok b" "rmqueue_smallest 0 1 b = Ret (Some p, b1)" "myos_page_zone b p = Ret 0"
    using one_block_taken by blast
  with buddy_alloc_free_roundtrip [of b 0 1 p b1 0] show ?thesis
    by (auto simp: MAX_NR_ZONES_def MAX_ORDER_def)
qed

text \<open>
  C24. \<^verbatim>\<open>__myos_alloc_pages\<close> tries the normal zone, the 32-bit DMA zone and the DMA zone from the first
  one the flags allow, and takes a block from the first of them that has one. When none has, and the
  node counts more than three zones, it goes on to read past the end of the array of preferred
  zones instead of returning \<^verbatim>\<open>NULL\<close>.
\<close>

theorem buddy_alloc_pages_zones:
  assumes "rep b fl" "order \<le> MAX_ORDER" "3 \<le> nr_zones b"
    "i = (if gfp_flags AND GFP_DMA \<noteq> 0 then 2 else if gfp_flags AND GFP_DMA32 \<noteq> 0 then 1 else 0)"
  shows "(\<exists>j p k b' fl'. i \<le> j \<and> j < 3 \<and> (\<forall>m. i \<le> m \<and> m < j \<longrightarrow> \<not> avail fl order (prefered_zone_list ! m))
      \<and> alloc_pages gfp_flags order b = Ret (Some p, b') \<and> rep b' fl' \<and> takes (prefered_zone_list ! j) order k p fl fl')
   \<or> (\<forall>m. i \<le> m \<and> m < 3 \<longrightarrow> \<not> avail fl order (prefered_zone_list ! m))
      \<and> alloc_pages gfp_flags order b = (if 3 < nr_zones b then Fault else Ret (None, b))"
proof -
  have i: "i \<le> 3" using assms(4) by simp
  have eq: "alloc_pages gfp_flags order b = alloc_zones (nr_zones b) i gfp_flags order b"
    using assms(2,4) by (simp add: alloc_pages_def myos_alloc_pages_def)
  from alloc_zones_ok [OF assms(1,2) i assms(3), of gfp_flags] show ?thesis
  proof (elim disjE exE conjE, goal_cases)
    case (1 j p k b' fl')
    have "rep (prep_new_page p order gfp_flags (inc_refcounts p (2 ^ order) b')) fl'"
      using 1(5) by (simp add: prep_new_page_rep inc_refcounts_facts)
    then show ?case using 1 unfolding eq by blast
  qed (simp add: eq)
qed

theorem buddy_alloc_pages_zones_witness: "alloc_pages 0 0 (fresh_node 0) = Fault"
proof -
  have "3 \<le> nr_zones (fresh_node 0)" "3 < nr_zones (fresh_node 0)" by (simp_all add: fresh_node_def MAX_NR_ZONES_def)
  with buddy_alloc_pages_zones [OF rep_fresh_node, of 0 0 0 0] show ?thesis by (auto simp: takes_def)
qed

text \<open>
  C25. \<^verbatim>\<open>__find_buddy_pfn\<close> finds the other half: for an aligned block below the highest order it is an
  involution, block and buddy are disjoint and aligned, and the bitwise and of the two frame numbers
  is the aligned block of the next order that they make up.
\<close>

theorem buddy_find_buddy_pfn_correct:
  assumes "good_block k p" "k < MAX_ORDER"
  shows "find_buddy_pfn (find_buddy_pfn p k) k = p \<and> good_block k (find_buddy_pfn p k)
    \<and> blk k p \<inter> blk k (find_buddy_pfn p k) = {} \<and> good_block (Suc k) (find_buddy_pfn p k AND p)
    \<and> blk (Suc k) (find_buddy_pfn p k AND p) = blk k p \<union> blk k (find_buddy_pfn p k)"
proof -
  have inv: "find_buddy_pfn (find_buddy_pfn p k) k = p" by (simp add: find_buddy_pfn_def xor.assoc)
  show ?thesis
  proof (cases "bit p k")
    case False
    note s = buddy_set [OF False assms]
    note h = good_block_halves [OF s(3)]
    show ?thesis unfolding s(2) inv using h s(1,3) by auto
  next
    case True
    note s = buddy_unset [OF True assms]
    have g: "good_block (Suc k) (find_buddy_pfn p k)" by (rule buddy_set(3) [OF s(4,3) assms(2)])
    note h = good_block_halves [OF g, unfolded s(1)]
    show ?thesis unfolding s(2) inv using h s(3) g by auto
  qed
qed

theorem buddy_find_buddy_pfn_correct_witness:
  "find_buddy_pfn (find_buddy_pfn 8 1) 1 = 8 \<and> good_block 1 (find_buddy_pfn 8 1)
    \<and> blk 1 8 \<inter> blk 1 (find_buddy_pfn 8 1) = {} \<and> good_block (Suc 1) (find_buddy_pfn 8 1 AND 8)
    \<and> blk (Suc 1) (find_buddy_pfn 8 1 AND 8) = blk 1 8 \<union> blk 1 (find_buddy_pfn 8 1)"
  by (rule buddy_find_buddy_pfn_correct) (simp_all add: good_block_def MAX_ORDER_def)

text \<open>
  C26. An allocation with \<^verbatim>\<open>__GFP_ZERO\<close> clears exactly the first page and one byte less than the number
  of pages behind it: a single page is cleared, but of a block of two or more pages nearly everything
  behind the first page keeps its old contents.
\<close>

theorem buddy_post_alloc_hook_clears:
  assumes "gfp_flags AND GFP_ZERO \<noteq> 0" "order \<le> MAX_ORDER"
  shows "contents (post_alloc_hook p order gfp_flags b) x =
    (if x - push_bit PAGE_SHIFT p < PAGE_SIZE + 2 ^ order - 1 then 0 else contents b x)"
  using assms by (rule post_alloc_hook_contents)

theorem buddy_post_alloc_hook_clears_witness:
  "contents (post_alloc_hook 2 1 GFP_ZERO (fresh_node 0)) 0x2fff = 0
   \<and> contents (post_alloc_hook 2 1 GFP_ZERO (fresh_node 0)) 0x3fff = 0xff"
  using buddy_post_alloc_hook_clears [of GFP_ZERO 1 2 "fresh_node 0" "0x2fff"]
    buddy_post_alloc_hook_clears [of GFP_ZERO 1 2 "fresh_node 0" "0x3fff"]
  by (simp add: GFP_ZERO_def MAX_ORDER_def PAGE_SIZE_def PAGE_SHIFT_def) (simp add: fresh_node_def)


text \<open>
  \<^verbatim>\<open>__free_pages\<close> leaves the reference count of the pages alone, and allocation adds one: a page that
  is allocated, freed and allocated again has two references although it has one user.
\<close>

theorem buddy_refcount_survives_free:
  "bnd (free_pages_at 4 0 (fresh_node 0)) (\<lambda>b. bnd (rmqueue_smallest 0 0 b) (\<lambda>(p, b).
   bnd (free_pages_at 4 0 b) (\<lambda>b. bnd (rmqueue_smallest 0 0 b) (\<lambda>(q, b).
   Ret (p, q, pg_refcount (pages b 4)))))) = Ret (Some 4, Some 4, 2)"
  by code_simp

end
