(* ===== verification/Mm_Init.thy ===== *)
theory Mm_Init
  imports Memblock_Alloc Buddy_Alloc
begin

unbundle bit_operations_syntax

text \<open>
  The set-up of the page allocator at boot: \<^verbatim>\<open>mykernel/mm/misc/mm_init.c\<close>, \<^verbatim>\<open>zone_sizes_init\<close> of
  \<^verbatim>\<open>mm/page_alloc/mmzone.c\<close>, \<^verbatim>\<open>get_pfn_range\<close> of \<^verbatim>\<open>mm/page_alloc/buddy.c\<close> and \<^verbatim>\<open>mem_init\<close> of
  \<^verbatim>\<open>arch/x86_64/mm/init.c\<close>. The state of a boot is the allocator of theory \<^verbatim>\<open>Buddy\<close> with the counters of
  the node, the zone limits and the page array. The array starts at entry \<open>mem_map\<close>; \<open>map_entries\<close>
  is the number of entries from there to its end, and an initialisation that writes behind the
  end is a \<open>Fault\<close>. The sizes of the page and node structures are the parameters \<open>sz_page\<close> and
  \<open>sz_pgdat\<close>. Zone names and back pointers are left out.
\<close>

section \<open>State\<close>

record boot =
  bt_buddy :: buddy
  node_start_pfn :: ulong
  node_spanned_pages :: ulong
  node_present_pages :: ulong
  node_mem_map :: ulong
  map_entries :: nat
  zone_lowest :: "nat \<Rightarrow> ulong"
  zone_highest :: "nat \<Rightarrow> ulong"
  highest_memmap_pfn :: ulong

primrec seq :: "('x \<Rightarrow> 's \<Rightarrow> 's outcome) \<Rightarrow> 'x list \<Rightarrow> 's \<Rightarrow> 's outcome" where
  "seq f [] s = Ret s"
| "seq f (x # xs) s = bnd (f x s) (seq f xs)"

definition MAX_ORDER_NR_PAGES :: ulong where "MAX_ORDER_NR_PAGES = push_bit MAX_ORDER 1"
definition MAX_NUMNODES :: ulong where "MAX_NUMNODES = 1"

section \<open>Page entries\<close>

definition init_list_of :: "ulong \<Rightarrow> boot \<Rightarrow> boot outcome" where
  "init_list_of pfn bt =
     (let b = bt_buddy bt
      in if unat pfn < map_entries bt
         then bnd (INIT_LIST_S (At (Page pfn)) (mem (free_area b))) (\<lambda>h.
              bnd (INIT_LIST_S (At (Page pfn)) h) (\<lambda>h.
              Ret (bt\<lparr>bt_buddy := b\<lparr>free_area := (free_area b)\<lparr>mem := h\<rparr>\<rparr>\<rparr>)))
         else Fault)"

definition init_single_page :: "ulong \<Rightarrow> boot \<Rightarrow> boot outcome" where
  "init_single_page pfn bt =
     init_list_of pfn (bt\<lparr>bt_buddy := upd_page pfn (set_page_count 1) (bt_buddy bt)\<rparr>)"

definition reserve_bootmem_region :: "ulong \<Rightarrow> phys_addr_t \<times> phys_addr_t \<Rightarrow> boot \<Rightarrow> boot outcome" where
  "reserve_bootmem_region max_pfn rg bt =
     seq (\<lambda>n bt. let pfn = of_nat n
                 in if pfn < max_pfn
                    then bnd (init_single_page pfn bt) (\<lambda>bt.
                         Ret (bt\<lparr>bt_buddy := upd_page pfn SetPageReserved (bt_buddy bt)\<rparr>))
                    else Ret bt)
       [unat (PFN_DOWN (fst rg))..<unat (PFN_UP (snd rg))] bt"

definition init_zone_lists :: "nat \<Rightarrow> boot \<Rightarrow> boot outcome" where
  "init_zone_lists i = seq (\<lambda>j bt. bnd (INIT_LIST_HEADER_S (Area i j) (free_area (bt_buddy bt))) (\<lambda>l.
     Ret (bt\<lparr>bt_buddy := (bt_buddy bt)\<lparr>free_area := l\<rparr>\<rparr>))) [0..<NR_PAGE_ORDERS]"

primrec memmap_init_zones :: "(nat \<Rightarrow> ulong) \<Rightarrow> nat list \<Rightarrow> ulong \<Rightarrow> boot \<Rightarrow> boot outcome" where
  "memmap_init_zones max_zone_pfn [] start_pfn bt = Ret bt"
| "memmap_init_zones max_zone_pfn (i # is) start_pfn bt =
     (let end_pfn = max (max_zone_pfn i) start_pfn;
          b = bt_buddy bt;
          z = (zones b i)\<lparr>zone_start_pfn := start_pfn, spanned_pages := end_pfn - start_pfn, present_pages := 0\<rparr>;
          bt = bt\<lparr>bt_buddy := b\<lparr>zones := (zones b)(i := z)\<rparr>,
                  highest_memmap_pfn := (if highest_memmap_pfn bt < end_pfn - 1 then end_pfn - 1
                                         else highest_memmap_pfn bt)\<rparr>
      in bnd (init_zone_lists i bt) (\<lambda>bt.
         bnd (seq (\<lambda>n. init_single_page (of_nat n)) [unat start_pfn..<unat end_pfn] bt) (\<lambda>bt.
         memmap_init_zones max_zone_pfn is end_pfn bt)))"

definition memmap_init :: "(nat \<Rightarrow> ulong) \<Rightarrow> boot \<Rightarrow> boot outcome" where
  "memmap_init max_zone_pfn = memmap_init_zones max_zone_pfn [0..<MAX_NR_ZONES] 1"

section \<open>Zone sizes\<close>

text \<open>The ranges a \<^verbatim>\<open>for_each_mem_pfn_range\<close> loop visits.\<close>

lemma unat_word_succ: "w < (e :: ulong) \<Longrightarrow> unat (w + 1) = Suc (unat w)"
  by unat_arith

lemma next_pfn_idx_ge: "(word_of_int (next_pfn_idx t i) :: ulong) \<ge> word_of_int (i + 1)"
proof (induction t i rule: next_pfn_idx.induct)
  case (1 t i)
  show ?case
  proof (cases "(word_of_int (i + 1) :: ulong) < cnt t
      \<and> \<not> PFN_UP (rgn_base (regions t (nat (i + 1)))) < PFN_DOWN (rgn_base (regions t (nat (i + 1))) + rgn_size (regions t (nat (i + 1))))")
    case True
    then have "next_pfn_idx t i = next_pfn_idx t (i + 1)" by (subst next_pfn_idx.simps) (simp add: Let_def)
    moreover have "(word_of_int (i + 1 + 1) :: ulong) \<le> word_of_int (next_pfn_idx t (i + 1))"
      using 1 [OF _ refl] True by blast
    moreover have "(word_of_int (i + 1) :: ulong) \<le> word_of_int (i + 1) + 1"
      using unat_word_succ [of "word_of_int (i + 1)" "cnt t"] True unfolding word_le_nat_alt by linarith
    ultimately show ?thesis by (simp add: add.assoc)
  next
    case False
    then have "next_pfn_idx t i = i + 1" by (subst next_pfn_idx.simps) (auto simp: Let_def)
    then show ?thesis by simp
  qed
qed

function pfn_ranges :: "mmblk_type \<Rightarrow> int \<Rightarrow> (ulong \<times> ulong) list" where
  "pfn_ranges t i =
     (case next_mem_pfn_range t i of (i', None) \<Rightarrow> [] | (i', Some r) \<Rightarrow> if i' \<ge> 0 then r # pfn_ranges t i' else [])"
  by pat_completeness auto
termination
proof (relation "measure (\<lambda>(t, i). unat (cnt t) - unat (word_of_int (i + 1) :: ulong))", goal_cases)
  case (2 t i i' r)
  then have i': "i' = next_pfn_idx t i" "(word_of_int i' :: ulong) < cnt t"
    by (auto simp: next_mem_pfn_range_def Let_def not_le split: if_splits)
  then have "unat (word_of_int (i + 1) :: ulong) \<le> unat (word_of_int i' :: ulong)"
    using next_pfn_idx_ge [of i t] by (simp add: word_le_nat_alt)
  moreover have "unat (word_of_int (i' + 1) :: ulong) = Suc (unat (word_of_int i' :: ulong))"
    using unat_word_succ [OF i'(2)] by simp
  moreover have "unat (word_of_int i' :: ulong) < unat (cnt t)" using i'(2) by (simp add: word_less_nat_alt)
  ultimately show ?case by simp
qed simp

declare pfn_ranges.simps [simp del]

definition get_pfn_range :: "mmblk_type \<Rightarrow> ulong \<times> ulong" where
  "get_pfn_range t =
     (let (s, e) = fold (\<lambda>(s', e') (s, e). (min s s', max e e')) (pfn_ranges t (-1)) (NOT 0, 0)
      in (if s = NOT 0 then 0 else s, e))"

text \<open>
  \<^verbatim>\<open>__myos_calculate_node_pages\<close>: the start of the zone, its absent and its spanned pages. The
  early returns leave the results unset.
\<close>

definition calculate_node_pages ::
    "mmblk_type \<Rightarrow> ulong \<Rightarrow> ulong \<Rightarrow> ulong \<Rightarrow> ulong \<Rightarrow> (ulong \<times> ulong \<times> ulong) option" where
  "calculate_node_pages t zone_low zone_high node_start node_end =
     (if node_start = 0 \<and> node_end = 0 then None
      else let zs = clamp node_start zone_low zone_high; ze = clamp node_end zone_low zone_high
           in if ze < node_start \<or> zs > node_end then None
              else let absent = fold (\<lambda>(s, e) a. a - (clamp e zs ze - clamp s zs ze)) (pfn_ranges t (-1)) (ze - zs);
                       ze = min ze node_end; zs = max zs node_start
                   in Some (zs, absent, ze - zs))"

text \<open>Results the callee left unset are read by the caller.\<close>

primrec totalpages_loop :: "mmblk_type \<Rightarrow> ulong \<Rightarrow> ulong \<Rightarrow> nat list \<Rightarrow> ulong \<Rightarrow> ulong \<Rightarrow> boot \<Rightarrow> boot outcome" where
  "totalpages_loop t node_start node_end [] totalpages realtotalpages bt =
     Ret (bt\<lparr>bt_buddy := (bt_buddy bt)\<lparr>nr_zones := MAX_NR_ZONES\<rparr>,
             node_spanned_pages := totalpages, node_present_pages := realtotalpages\<rparr>)"
| "totalpages_loop t node_start node_end (i # is) totalpages realtotalpages bt =
     (case calculate_node_pages t (zone_lowest bt i) (zone_highest bt i) node_start node_end of
        None \<Rightarrow> Fault
      | Some (zs, absent, spanned) \<Rightarrow>
          let real_size = spanned - absent;
              b = bt_buddy bt;
              z = (zones b i)\<lparr>zone_start_pfn := (if spanned \<noteq> 0 then zs else 0),
                    spanned_pages := spanned, present_pages := real_size\<rparr>
          in totalpages_loop t node_start node_end is (totalpages + spanned) (realtotalpages + real_size)
               (bt\<lparr>bt_buddy := b\<lparr>zones := (zones b)(i := z)\<rparr>\<rparr>))"

definition calculate_node_totalpages :: "mmblk_type \<Rightarrow> ulong \<Rightarrow> ulong \<Rightarrow> boot \<Rightarrow> boot outcome" where
  "calculate_node_totalpages t node_start node_end =
     totalpages_loop t node_start node_end [0..<MAX_NR_ZONES] 0 0"

section \<open>The page array\<close>

definition zero_page :: page where
  "zero_page = \<lparr>pg_flags = 0, pg_compound_head = None, pg_mapping = 0, pg_index = 0, pg_private = 0,
     pg_type = 0, pg_refcount = 0\<rparr>"

text \<open>
  A block that cannot be had has the physical address 0, whose virtual address is not \<^verbatim>\<open>NULL\<close>
  unless \<open>k_offset\<close> is 0: the test for failure spins only then.
\<close>

definition alloc_node_mem_map :: "ulong \<Rightarrow> ulong \<Rightarrow> boot \<Rightarrow> memblock \<Rightarrow> (boot \<times> memblock) outcome" where
  "alloc_node_mem_map k_offset sz_page bt mb =
     (if node_spanned_pages bt = 0 then Ret (bt, mb)
      else let start = node_start_pfn bt AND NOT (MAX_ORDER_NR_PAGES - 1);
               offset = node_start_pfn bt - start
           in bnd (if node_mem_map bt = 0
                   then let end = round_up (node_start_pfn bt + node_spanned_pages bt) MAX_ORDER_NR_PAGES;
                            sz = (end - start) * sz_page
                        in bnd (memblock_alloc_range sz SMP_CACHE_BYTES MAX_DMA_PFN 0 mb) (\<lambda>(a, mb).
                           let m = a + k_offset; b = bt_buddy bt
                           in if m = 0 then Hang
                              else Ret (bt\<lparr>bt_buddy := b\<lparr>pages := (\<lambda>_. zero_page),
                                     contents := (\<lambda>x. if x - a < sz then 0 else contents b x)\<rparr>,
                                   node_mem_map := m + offset * sz_page,
                                   map_entries := unat (end - start) - unat offset\<rparr>, mb))
                   else Ret (bt, mb)) (\<lambda>(bt, mb).
              bnd (seq (\<lambda>n. init_list_of (of_nat n)) [0..<unat (node_spanned_pages bt)] bt) (\<lambda>bt. Ret (bt, mb))))"

section \<open>All of it\<close>

primrec zone_limits_loop :: "(nat \<Rightarrow> ulong) \<Rightarrow> nat list \<Rightarrow> ulong \<Rightarrow> boot \<Rightarrow> boot" where
  "zone_limits_loop max_zone_pfn [] start_pfn bt = bt"
| "zone_limits_loop max_zone_pfn (i # is) start_pfn bt =
     (let end_pfn = max (max_zone_pfn i) start_pfn
      in zone_limits_loop max_zone_pfn is end_pfn
           (bt\<lparr>zone_lowest := (zone_lowest bt)(i := start_pfn), zone_highest := (zone_highest bt)(i := end_pfn)\<rparr>))"

text \<open>The \<^verbatim>\<open>memset\<close> of the node.\<close>

definition clear_pgdat :: "boot \<Rightarrow> boot" where
  "clear_pgdat bt =
     (let b = bt_buddy bt; fa = free_area b;
          fa = \<lparr>mem = (\<lambda>n. case n of Area _ _ \<Rightarrow> \<lparr>nxt = NULL, prv = NULL\<rparr> | Page _ \<Rightarrow> mem fa n),
                count = (\<lambda>n. case n of Area _ _ \<Rightarrow> 0 | Page _ \<Rightarrow> count fa n)\<rparr>
      in bt\<lparr>bt_buddy := b\<lparr>zones := (\<lambda>_. \<lparr>zone_start_pfn = 0, spanned_pages = 0, present_pages = 0, managed_pages = 0\<rparr>),
              nr_zones := 0, free_area := fa\<rparr>,
            node_start_pfn := 0, node_spanned_pages := 0, node_present_pages := 0, node_mem_map := 0\<rparr>)"

definition free_area_init :: "ulong \<Rightarrow> ulong \<Rightarrow> (nat \<Rightarrow> ulong) \<Rightarrow> boot \<Rightarrow> memblock \<Rightarrow> (boot \<times> memblock) outcome" where
  "free_area_init k_offset sz_page max_zone_pfn bt mb =
     (let bt = bt\<lparr>zone_lowest := (\<lambda>_. 0), zone_highest := (\<lambda>_. 0)\<rparr>;
          bt = zone_limits_loop max_zone_pfn [0..<MAX_NR_ZONES] 1 bt;
          bt = clear_pgdat bt;
          (start_pfn, end_pfn) = get_pfn_range (memory mb);
          bt = bt\<lparr>node_start_pfn := start_pfn\<rparr>
      in bnd (calculate_node_totalpages (memory mb) start_pfn end_pfn bt) (\<lambda>bt.
         bnd (alloc_node_mem_map k_offset sz_page bt mb) (\<lambda>(bt, mb).
         bnd (memmap_init max_zone_pfn bt) (\<lambda>bt. Ret (bt, mb)))))"

definition max_zone_pfns :: "ulong \<Rightarrow> nat \<Rightarrow> ulong" where
  "max_zone_pfns max_low_pfn i =
     (if i = ZONE_DMA then min MAX_DMA_PFN max_low_pfn
      else if i = ZONE_DMA32 then min MAX_DMA32_PFN max_low_pfn
      else if i = ZONE_NORMAL then max_low_pfn else 0)"

definition zone_sizes_init :: "ulong \<Rightarrow> ulong \<Rightarrow> ulong \<Rightarrow> ulong \<Rightarrow> boot \<Rightarrow> memblock \<Rightarrow> (boot \<times> memblock) outcome" where
  "zone_sizes_init k_offset sz_pgdat sz_page max_low_pfn bt mb =
     bnd (myos_memblock_alloc_normal (MAX_NUMNODES * sz_pgdat) SMP_CACHE_BYTES mb) (\<lambda>(nodes, mb).
     free_area_init k_offset sz_page (max_zone_pfns max_low_pfn) bt mb)"

text \<open>\<^verbatim>\<open>mem_init\<close> with the effects of the calls \<^verbatim>\<open>memblock_free_all\<close> makes.\<close>

definition mem_init :: "nat \<Rightarrow> ulong \<Rightarrow> ulong \<Rightarrow> memblock \<Rightarrow> boot \<Rightarrow> boot outcome" where
  "mem_init ffs0 max_pfn max_low_pfn mb bt =
     bnd (seq (reserve_bootmem_region max_pfn) (memmap_init_reserved_pages mb) bt) (\<lambda>bt.
     bnd (memblock_free_all ffs0 max_low_pfn mb) (\<lambda>calls.
     bnd (seq (\<lambda>(p, order). memblock_free_pages p order) calls (bt_buddy bt)) (\<lambda>b.
     Ret (bt\<lparr>bt_buddy := b\<rparr>))))"

section \<open>Initialising page entries\<close>

lemma seq_ok:
  assumes "\<And>x s. x \<in> set xs \<Longrightarrow> I s \<Longrightarrow> \<exists>s'. f x s = Ret s' \<and> I s'" "I s"
  shows "\<exists>s'. seq f xs s = Ret s' \<and> I s'"
  using assms
proof (induction xs arbitrary: s)
  case (Cons x xs)
  then obtain s1 where "f x s = Ret s1" "I s1" by (meson list.set_intros(1))
  moreover obtain s2 where "seq f xs s1 = Ret s2" "I s2"
    using Cons.IH [OF Cons.prems(1) \<open>I s1\<close>] by auto
  ultimately show ?case by simp
qed simp

lemma seq_append: "seq f (xs @ ys) s = bnd (seq f xs s) (seq f ys)"
proof (induction xs arbitrary: s)
  case (Cons x xs)
  then have "seq f (xs @ ys) = (\<lambda>s. bnd (seq f xs s) (seq f ys))" by (simp add: fun_eq_iff)
  then show ?case by (simp add: bnd_assoc)
qed simp

text \<open>What the initialisation of page entries leaves alone: everything but list links of pages and
  the words of the entries other than the type.\<close>

definition entries_only :: "boot \<Rightarrow> boot \<Rightarrow> bool" where
  "entries_only bt bt' \<longleftrightarrow> (\<exists>pg h. bt' = bt\<lparr>bt_buddy := (bt_buddy bt)\<lparr>pages := pg, free_area := (free_area (bt_buddy bt))\<lparr>mem := h\<rparr>\<rparr>\<rparr>
     \<and> (\<forall>p. pg_type (pg p) = pg_type (pages (bt_buddy bt) p))
     \<and> (\<forall>z k. h (Area z k) = mem (free_area (bt_buddy bt)) (Area z k)))"

lemma entries_onlyI:
  "bt' = bt\<lparr>bt_buddy := (bt_buddy bt)\<lparr>pages := pg, free_area := (free_area (bt_buddy bt))\<lparr>mem := h\<rparr>\<rparr>\<rparr> \<Longrightarrow>
   (\<And>p. pg_type (pg p) = pg_type (pages (bt_buddy bt) p)) \<Longrightarrow>
   (\<And>z k. h (Area z k) = mem (free_area (bt_buddy bt)) (Area z k)) \<Longrightarrow> entries_only bt bt'"
  unfolding entries_only_def by blast

lemma entries_only_refl [simp]: "entries_only bt bt"
  by (rule entries_onlyI [where pg = "pages (bt_buddy bt)" and h = "mem (free_area (bt_buddy bt))"]) simp_all

lemma entries_only_trans:
  assumes "entries_only a b" "entries_only b c" shows "entries_only a c"
proof -
  from assms(1) obtain pg h where 1: "b = a\<lparr>bt_buddy := (bt_buddy a)\<lparr>pages := pg, free_area := (free_area (bt_buddy a))\<lparr>mem := h\<rparr>\<rparr>\<rparr>"
    "\<And>p. pg_type (pg p) = pg_type (pages (bt_buddy a) p)" "\<And>z k. h (Area z k) = mem (free_area (bt_buddy a)) (Area z k)"
    unfolding entries_only_def by blast
  from assms(2) obtain pg' h' where 2: "c = b\<lparr>bt_buddy := (bt_buddy b)\<lparr>pages := pg', free_area := (free_area (bt_buddy b))\<lparr>mem := h'\<rparr>\<rparr>\<rparr>"
    "\<And>p. pg_type (pg' p) = pg_type (pages (bt_buddy b) p)" "\<And>z k. h' (Area z k) = mem (free_area (bt_buddy b)) (Area z k)"
    unfolding entries_only_def by blast
  show ?thesis by (rule entries_onlyI [where pg = pg' and h = h']) (simp_all add: 1 2)
qed

lemma entries_only_simps:
  assumes "entries_only a b"
  shows "map_entries b = map_entries a" "zones (bt_buddy b) = zones (bt_buddy a)"
    "count (free_area (bt_buddy b)) = count (free_area (bt_buddy a))"
    "mem (free_area (bt_buddy b)) (Area z k) = mem (free_area (bt_buddy a)) (Area z k)"
    "pg_type (pages (bt_buddy b) p) = pg_type (pages (bt_buddy a) p)"
    "nr_zones (bt_buddy b) = nr_zones (bt_buddy a)"
    "node_spanned_pages b = node_spanned_pages a" "node_mem_map b = node_mem_map a"
  using assms by (auto simp: entries_only_def)

lemma init_list_of_ok:
  assumes "unat pfn < map_entries bt"
  shows "\<exists>bt'. init_list_of pfn bt = Ret bt' \<and> entries_only bt bt'"
  using assms by (auto simp: init_list_of_def INIT_LIST_S_eq Let_def intro!: entries_onlyI [where pg = "pages (bt_buddy bt)"])

lemma entries_only_page:
  assumes "\<And>p. pg_type (f p) = pg_type p"
  shows "entries_only bt (bt\<lparr>bt_buddy := upd_page pfn f (bt_buddy bt)\<rparr>)"
  by (rule entries_onlyI [where pg = "(pages (bt_buddy bt))(pfn := f (pages (bt_buddy bt) pfn))" and h = "mem (free_area (bt_buddy bt))"])
    (simp_all add: upd_page_def assms)

lemma init_single_page_ok:
  assumes "unat pfn < map_entries bt"
  shows "\<exists>bt'. init_single_page pfn bt = Ret bt' \<and> entries_only bt bt'"
proof -
  have "entries_only bt (bt\<lparr>bt_buddy := upd_page pfn (set_page_count 1) (bt_buddy bt)\<rparr>)"
    by (rule entries_only_page) (simp add: set_page_count_def)
  then show ?thesis
    using init_list_of_ok [of pfn "bt\<lparr>bt_buddy := upd_page pfn (set_page_count 1) (bt_buddy bt)\<rparr>"] assms entries_only_trans
    by (simp add: init_single_page_def) blast
qed

lemma init_pages_ok:
  assumes "e \<le> map_entries bt" "e \<le> 2 ^ 64"
  shows "\<exists>bt'. seq (\<lambda>n. init_single_page (of_nat n)) [s..<e] bt = Ret bt' \<and> entries_only bt bt'"
proof (rule seq_ok)
  fix n st assume n: "n \<in> set [s..<e]" and st: "entries_only bt st"
  have "unat (of_nat n :: ulong) < map_entries st"
    using n assms entries_only_simps(1) [OF st] by (simp add: unat_of_nat_small)
  from init_single_page_ok [OF this] show "\<exists>s'. init_single_page (of_nat n) st = Ret s' \<and> entries_only bt s'"
    using st entries_only_trans by blast
qed simp

lemma init_pages_fault:
  assumes "s < e" "map_entries bt < e" "e \<le> 2 ^ 64"
  shows "seq (\<lambda>n. init_single_page (of_nat n)) [s..<e] bt = Fault"
proof -
  define m where "m = max s (map_entries bt)"
  have m: "s \<le> m" "m < e" using assms by (simp_all add: m_def)
  have *: "init_single_page (of_nat m) st = Fault" if "map_entries st = map_entries bt" for st
    using that m assms(3) by (simp add: init_single_page_def init_list_of_def unat_of_nat_small m_def)
  have "[s..<e] = [s..<m] @ [m..<e]"
    using m(2) upt_add_eq_append [OF m(1), of "e - m"] by simp
  then have "[s..<e] = [s..<m] @ m # [Suc m..<e]" using upt_conv_Cons [OF m(2)] by simp
  moreover have "\<exists>st. seq (\<lambda>n. init_single_page (of_nat n)) [s..<m] bt = Ret st \<and> map_entries st = map_entries bt"
  proof (cases "m = s")
    case False
    then have "m \<le> map_entries bt" by (auto simp: m_def)
    moreover have "m \<le> 2 ^ 64" using m(2) assms(3) by linarith
    ultimately obtain st where "seq (\<lambda>n. init_single_page (of_nat n)) [s..<m] bt = Ret st" "entries_only bt st"
      using init_pages_ok by blast
    then show ?thesis using entries_only_simps(1) by blast
  qed simp
  ultimately show ?thesis using * by (auto simp: seq_append)
qed

text \<open>The free areas of a zone are empty rings with counters of 0.\<close>

definition empty_zone :: "buddy \<Rightarrow> nat \<Rightarrow> bool" where
  "empty_zone b i \<longleftrightarrow> (\<forall>j < NR_PAGE_ORDERS. mem (free_area b) (Area i j) = \<lparr>nxt = At (Area i j), prv = At (Area i j)\<rparr>
     \<and> count (free_area b) (Area i j) = 0)"

definition zone_reset :: "nat \<Rightarrow> nat \<Rightarrow> buddy \<Rightarrow> buddy" where
  "zone_reset i n b = b\<lparr>free_area := \<lparr>
     mem = (\<lambda>x. if x \<in> Area i ` {..<n} then \<lparr>nxt = At x, prv = At x\<rparr> else mem (free_area b) x),
     count = (\<lambda>x. if x \<in> Area i ` {..<n} then 0 else count (free_area b) x)\<rparr>\<rparr>"

lemma zone_reset_simps [simp]:
  "zones (zone_reset i n b) = zones b" "nr_zones (zone_reset i n b) = nr_zones b" "pages (zone_reset i n b) = pages b"
  by (simp_all add: zone_reset_def)

lemma init_zone_lists_eq: "init_zone_lists i bt = Ret (bt\<lparr>bt_buddy := zone_reset i NR_PAGE_ORDERS (bt_buddy bt)\<rparr>)"
proof -
  have "seq (\<lambda>j bt. bnd (INIT_LIST_HEADER_S (Area i j) (free_area (bt_buddy bt))) (\<lambda>l.
     Ret (bt\<lparr>bt_buddy := (bt_buddy bt)\<lparr>free_area := l\<rparr>\<rparr>))) [0..<n] bt = Ret (bt\<lparr>bt_buddy := zone_reset i n (bt_buddy bt)\<rparr>)" for n
  proof (induction n)
    case (Suc n)
    have "[0..<Suc n] = [0..<n] @ [n]" by simp
    then show ?case
      by (simp only: seq_append Suc.IH)
        (auto simp: INIT_LIST_HEADER_S_def INIT_LIST_S_eq Let_def zone_reset_def fun_eq_iff lessThan_Suc)
  qed (simp add: zone_reset_def)
  then show ?thesis by (simp add: init_zone_lists_def)
qed

lemma empty_zone_reset: "empty_zone (zone_reset i NR_PAGE_ORDERS b) i"
  "k \<noteq> i \<Longrightarrow> empty_zone (zone_reset i NR_PAGE_ORDERS b) k = empty_zone b k"
  by (auto simp: empty_zone_def zone_reset_def)

lemma empty_zone_entries: "entries_only a b \<Longrightarrow> empty_zone (bt_buddy b) i = empty_zone (bt_buddy a) i"
  by (simp add: empty_zone_def entries_only_simps)

section \<open>Zones and their page entries\<close>

definition in_zone :: "buddy \<Rightarrow> nat \<Rightarrow> ulong \<Rightarrow> bool" where
  "in_zone b i p \<longleftrightarrow> zone_start_pfn (zones b i) \<le> p \<and> p < zone_start_pfn (zones b i) + spanned_pages (zones b i)"

definition zones_end :: "(nat \<Rightarrow> ulong) \<Rightarrow> nat list \<Rightarrow> ulong \<Rightarrow> ulong" where
  "zones_end mz is s = fold (\<lambda>i s. max (mz i) s) is s"

lemma unat_lt_64: "unat (w :: ulong) < 2 ^ 64"
  using unsigned_less [of w, where ?'a = nat] by simp

lemma zones_end_ge: "s \<le> zones_end mz is s"
proof (induction "is" arbitrary: s)
  case (Cons i "is")
  have "s \<le> max (mz i) s" by simp
  also have "\<dots> \<le> zones_end mz is (max (mz i) s)" by (rule Cons)
  finally show ?case by (simp add: zones_end_def)
qed (simp add: zones_end_def)

text \<open>The zones \<open>is\<close> are set up one after the other, from \<open>s\<close> to \<open>zones_end mz is s\<close>.\<close>

definition zones_set :: "(nat \<Rightarrow> ulong) \<Rightarrow> nat list \<Rightarrow> ulong \<Rightarrow> boot \<Rightarrow> boot \<Rightarrow> bool" where
  "zones_set mz is s bt bt' \<longleftrightarrow> map_entries bt' = map_entries bt
     \<and> (\<forall>p. pg_type (pages (bt_buddy bt') p) = pg_type (pages (bt_buddy bt) p))
     \<and> (\<forall>i. i \<notin> set is \<longrightarrow> zones (bt_buddy bt') i = zones (bt_buddy bt) i \<and> empty_zone (bt_buddy bt') i = empty_zone (bt_buddy bt) i)
     \<and> (\<forall>i \<in> set is. empty_zone (bt_buddy bt') i)
     \<and> (\<forall>p. (\<exists>i \<in> set is. in_zone (bt_buddy bt') i p) \<longleftrightarrow> s \<le> p \<and> p < zones_end mz is s)"

definition enter_zone :: "nat \<Rightarrow> ulong \<Rightarrow> ulong \<Rightarrow> boot \<Rightarrow> boot" where
  "enter_zone i s e bt = bt\<lparr>bt_buddy := (bt_buddy bt)\<lparr>zones := (zones (bt_buddy bt))(i := (zones (bt_buddy bt) i)
      \<lparr>zone_start_pfn := s, spanned_pages := e - s, present_pages := 0\<rparr>)\<rparr>,
    highest_memmap_pfn := (if highest_memmap_pfn bt < e - 1 then e - 1 else highest_memmap_pfn bt)\<rparr>"

lemma memmap_init_zones_step:
  "memmap_init_zones mz (i # is) s bt =
     bnd (seq (\<lambda>n. init_single_page (of_nat n)) [unat s..<unat (max (mz i) s)]
            ((enter_zone i s (max (mz i) s) bt)\<lparr>bt_buddy := zone_reset i NR_PAGE_ORDERS (bt_buddy (enter_zone i s (max (mz i) s) bt))\<rparr>))
       (memmap_init_zones mz is (max (mz i) s))"
  unfolding memmap_init_zones.simps Let_def enter_zone_def init_zone_lists_eq bnd.simps ..

lemma memmap_init_zones_ok:
  assumes "distinct is" "unat (zones_end mz is s) \<le> map_entries bt"
  shows "\<exists>bt'. memmap_init_zones mz is s bt = Ret bt' \<and> zones_set mz is s bt bt'"
  using assms
proof (induction "is" arbitrary: s bt)
  case Nil
  then show ?case by (auto simp: zones_set_def zones_end_def)
next
  case (Cons i "is")
  define e where "e = max (mz i) s"
  have se: "s \<le> e" by (simp add: e_def)
  have E: "zones_end mz (i # is) s = zones_end mz is e" by (simp add: zones_end_def e_def)
  define bt1 where "bt1 = enter_zone i s e bt"
  define bt2 where "bt2 = bt1\<lparr>bt_buddy := zone_reset i NR_PAGE_ORDERS (bt_buddy bt1)\<rparr>"
  have "unat e \<le> unat (zones_end mz is e)" using zones_end_ge by (simp add: word_le_nat_alt [symmetric])
  then have le: "unat e \<le> map_entries bt2" using Cons.prems(2) by (simp add: E bt2_def bt1_def enter_zone_def)
  have e64: "unat e \<le> 2 ^ 64" by (rule less_imp_le) (rule unat_lt_64)
  from init_pages_ok [OF le e64, of "unat s"] obtain bt3 where
    bt3: "seq (\<lambda>n. init_single_page (of_nat n)) [unat s..<unat e] bt2 = Ret bt3" "entries_only bt2 bt3" by blast
  note k3 = entries_only_simps [OF bt3(2)]
  have "unat (zones_end mz is e) \<le> map_entries bt3"
    using Cons.prems(2) by (simp add: E k3 bt2_def bt1_def enter_zone_def)
  then obtain bt' where bt': "memmap_init_zones mz is e bt3 = Ret bt'" "zones_set mz is e bt3 bt'"
    using Cons by (meson distinct.simps(2))
  have run: "memmap_init_zones mz (i # is) s bt = Ret bt'"
    using bt3(1) bt'(1) memmap_init_zones_step [of mz i "is" s bt] unfolding e_def [symmetric] bt1_def [symmetric] bt2_def [symmetric] by simp
  have ni: "i \<notin> set is" using Cons.prems(1) by simp
  have S: "map_entries bt' = map_entries bt" "\<And>p. pg_type (pages (bt_buddy bt') p) = pg_type (pages (bt_buddy bt) p)"
    "\<And>j. j \<in> set is \<Longrightarrow> empty_zone (bt_buddy bt') j"
    "\<And>p. (\<exists>i \<in> set is. in_zone (bt_buddy bt') i p) \<longleftrightarrow> e \<le> p \<and> p < zones_end mz is e"
    using bt'(2) by (simp_all add: zones_set_def k3 bt2_def bt1_def enter_zone_def)
  have keep: "zones (bt_buddy bt') j = zones (bt_buddy bt1) j" "empty_zone (bt_buddy bt') j = empty_zone (bt_buddy bt2) j"
    if "j \<notin> set is" for j
    using bt'(2) that empty_zone_entries [OF bt3(2)] by (simp_all add: zones_set_def k3 bt2_def)
  have "zones (bt_buddy bt') j = zones (bt_buddy bt) j \<and> empty_zone (bt_buddy bt') j = empty_zone (bt_buddy bt) j"
    if "j \<notin> set (i # is)" for j
  proof -
    have j: "j \<noteq> i" "j \<notin> set is" using that by auto
    have "empty_zone (bt_buddy bt2) j = empty_zone (bt_buddy bt1) j" using j by (simp add: bt2_def empty_zone_reset)
    also have "\<dots> = empty_zone (bt_buddy bt) j" by (simp add: bt1_def enter_zone_def empty_zone_def)
    finally show ?thesis using keep [OF j(2)] j(1) by (simp add: bt1_def enter_zone_def)
  qed
  moreover have "empty_zone (bt_buddy bt') j" if "j \<in> set (i # is)" for j
    using that keep(2) [OF ni] S(3) by (auto simp: bt2_def empty_zone_reset)
  moreover have iz: "in_zone (bt_buddy bt') i p \<longleftrightarrow> s \<le> p \<and> p < e" for p
    using keep(1) [OF ni] by (simp add: in_zone_def bt1_def enter_zone_def)
  have "(\<exists>j \<in> set (i # is). in_zone (bt_buddy bt') j p) \<longleftrightarrow> s \<le> p \<and> p < zones_end mz (i # is) s" for p
  proof -
    have "(s \<le> p \<and> p < e) \<or> (e \<le> p \<and> p < zones_end mz is e) \<longleftrightarrow> s \<le> p \<and> p < zones_end mz is e"
      using zones_end_ge [of e mz "is"] se by (meson le_less_linear le_less_trans less_le_trans order_trans)
    then show ?thesis using S(4) [of p] iz [of p]
      unfolding E list.set bex_simps(5) by blast
  qed
  ultimately show ?case using run S(1,2) unfolding zones_set_def by blast
qed

lemma memmap_init_zones_fault:
  assumes "map_entries bt < unat (zones_end mz is s)" "s < zones_end mz is s"
  shows "memmap_init_zones mz is s bt = Fault"
  using assms
proof (induction "is" arbitrary: s bt)
  case (Cons i "is")
  define e where "e = max (mz i) s"
  have se: "s \<le> e" by (simp add: e_def)
  have E: "zones_end mz (i # is) s = zones_end mz is e" by (simp add: zones_end_def e_def)
  define bt1 where "bt1 = enter_zone i s e bt"
  define bt2 where "bt2 = bt1\<lparr>bt_buddy := zone_reset i NR_PAGE_ORDERS (bt_buddy bt1)\<rparr>"
  have m2: "map_entries bt2 = map_entries bt" by (simp add: bt2_def bt1_def enter_zone_def)
  have run: "memmap_init_zones mz (i # is) s bt =
      bnd (seq (\<lambda>n. init_single_page (of_nat n)) [unat s..<unat e] bt2) (memmap_init_zones mz is e)"
    using memmap_init_zones_step [of mz i "is" s bt] unfolding e_def [symmetric] bt1_def [symmetric] bt2_def [symmetric] .
  have e64: "unat e \<le> 2 ^ 64" by (rule less_imp_le) (rule unat_lt_64)
  show ?case
  proof (cases "unat e \<le> map_entries bt \<or> s = e")
    case True
    then obtain bt3 where
      bt3: "seq (\<lambda>n. init_single_page (of_nat n)) [unat s..<unat e] bt2 = Ret bt3" "entries_only bt2 bt3"
      using init_pages_ok [OF _ e64, of bt2 "unat s"] m2 by auto
    have "e < zones_end mz is e"
      using True Cons.prems E by (auto simp: word_less_nat_alt)
    then have "memmap_init_zones mz is e bt3 = Fault"
      using Cons.prems(1) E by (intro Cons.IH) (simp_all add: entries_only_simps [OF bt3(2)] m2)
    then show ?thesis using run bt3(1) by simp
  next
    case False
    then have "s < e" using se by (simp add: order_less_le)
    then have "unat s < unat e" by (simp add: word_less_nat_alt)
    then have "seq (\<lambda>n. init_single_page (of_nat n)) [unat s..<unat e] bt2 = Fault"
      using False e64 by (intro init_pages_fault) (simp_all add: m2)
    then show ?thesis using run by simp
  qed
qed (simp add: zones_end_def)

text \<open>With every zone set up, the frames from 1 have a zone and the free lists are empty.\<close>

lemma page_zone_iff: "(\<exists>z. myos_page_zone b p = Ret z) \<longleftrightarrow> (\<exists>i \<in> set [0..<MAX_NR_ZONES]. in_zone b i p)"
proof (cases "find (\<lambda>i. in_zone b i p) [0..<MAX_NR_ZONES]")
  case None
  moreover from this have "\<not> (\<exists>i \<in> set [0..<MAX_NR_ZONES]. in_zone b i p)" by (simp add: find_None_iff)
  ultimately show ?thesis by (simp add: myos_page_zone_def in_zone_def [symmetric])
next
  case (Some i)
  moreover from this have "i < MAX_NR_ZONES" "in_zone b i p" by (auto simp: find_Some_iff)
  ultimately show ?thesis by (auto simp: myos_page_zone_def in_zone_def [symmetric])
qed

lemma rep_empty:
  assumes "\<forall>i < MAX_NR_ZONES. empty_zone b i"
  shows "rep b (\<lambda>_ _. [])"
proof -
  have "fl_nodes (\<lambda>_ _. []) = (\<lambda>_. [])" by (auto simp: fl_nodes_def split: node.splits)
  moreover have "mem (free_area b) a = \<lparr>nxt = At a, prv = At a\<rparr>" "count (free_area b) a = 0" if "a \<in> areas" for a
    using assms that by (auto simp: empty_zone_def areas_def NR_PAGE_ORDERS_def)
  ultimately show ?thesis
    by (auto simp: rep_def hdrs_def dlist_def linked_def fl_ok_def blocks_def pairwise_def)
qed

section \<open>Handing the memory over\<close>

lemma reserve_bootmem_region_ok:
  assumes "unat max_pfn \<le> map_entries bt"
  shows "\<exists>bt'. reserve_bootmem_region max_pfn rg bt = Ret bt' \<and> entries_only bt bt'"
  unfolding reserve_bootmem_region_def
proof (rule seq_ok)
  fix n st assume st: "entries_only bt st"
  show "\<exists>s'. (let pfn = of_nat n in if pfn < max_pfn then bnd (init_single_page pfn st) (\<lambda>bt.
      Ret (bt\<lparr>bt_buddy := upd_page pfn SetPageReserved (bt_buddy bt)\<rparr>)) else Ret st) = Ret s' \<and> entries_only bt s'"
  proof (cases "(of_nat n :: ulong) < max_pfn")
    case True
    then have "unat (of_nat n :: ulong) < map_entries st"
      using assms entries_only_simps(1) [OF st] by (simp add: word_less_nat_alt)
    from init_single_page_ok [OF this] obtain st1 where st1: "init_single_page (of_nat n) st = Ret st1" "entries_only st st1" by blast
    have "entries_only st1 (st1\<lparr>bt_buddy := upd_page (of_nat n) SetPageReserved (bt_buddy st1)\<rparr>)"
      by (rule entries_only_page) (simp add: SetPageReserved_def)
    then show ?thesis using True st1 st by (simp add: Let_def) (blast intro: entries_only_trans)
  qed (use st in simp)
qed simp

lemma reserve_all_ok:
  assumes "unat max_pfn \<le> map_entries bt"
  shows "\<exists>bt'. seq (reserve_bootmem_region max_pfn) rgs bt = Ret bt' \<and> entries_only bt bt'"
proof (rule seq_ok)
  fix rg st assume st: "entries_only bt st"
  then have "unat max_pfn \<le> map_entries st" using assms by (simp add: entries_only_simps)
  from reserve_bootmem_region_ok [OF this] show "\<exists>s'. reserve_bootmem_region max_pfn rg st = Ret s' \<and> entries_only bt s'"
    using entries_only_trans [OF st] by blast
qed simp

lemma same_spans_trans: "same_spans a b \<Longrightarrow> same_spans b c \<Longrightarrow> same_spans a c"
  by (simp add: same_spans_def)

lemma blk_frames: "frames ((p, k) # bs) = blk k p \<union> frames bs"
  by (simp add: blk_def)

lemma free_blocks_ok:
  assumes "rep b fl" "untyped b" "blocks_ok bs" "frames bs \<inter> fl_frames fl = {}"
    and "frames bs \<subseteq> {..<2 ^ 52}" "\<And>p. unat p \<in> frames bs \<Longrightarrow> \<exists>z. myos_page_zone b p = Ret z"
  shows "\<exists>b' fl'. seq (\<lambda>(p, order). memblock_free_pages p order) bs b = Ret b' \<and> rep b' fl' \<and> untyped b'
     \<and> fl_frames fl' = fl_frames fl \<union> frames bs"
  using assms
proof (induction bs arbitrary: b fl)
  case Nil
  then show ?case by auto
next
  case (Cons x bs)
  obtain p k where x: "x = (p, k)" by fastforce
  have k: "k \<le> MAX_ORDER" "2 ^ k dvd unat p" and bs: "blocks_ok bs"
    and later: "\<forall>(q, l) \<in> set bs. unat p + 2 ^ k \<le> unat q"
    using Cons.prems(3) by (auto simp: blocks_ok_def x)
  have F: "frames (x # bs) = blk k p \<union> frames bs" by (simp add: x blk_def)
  have lastf: "unat p + 2 ^ k - 1 \<in> frames (x # bs)" using frame_last [of p k "x # bs"] by (simp add: x)
  have "unat p + 2 ^ k - 1 < 2 ^ 52" using Cons.prems(5) lastf by blast
  moreover have "(0 :: nat) < 2 ^ k" by simp
  ultimately have "unat p + 2 ^ k \<le> 2 ^ 52" by linarith
  then have good: "good_block k p" using k by (simp add: good_block_def)
  obtain z where z: "myos_page_zone b p = Ret z" using Cons.prems(6) [of p] frame_first [of p k "x # bs"] x by auto
  have dis: "blk k p \<inter> fl_frames fl = {}" using Cons.prems(4) F by blast
  from memblock_free_pages_ok [OF Cons.prems(1,2) z good dis] obtain b1 where
    b1: "memblock_free_pages p k b = Ret b1" "rep b1 (fl_put z k (p # fl z k) fl)" "untyped b1" "same_spans b b1"
    "fl_frames (fl_put z k (p # fl z k) fl) = fl_frames fl \<union> blk k p" by blast
  have "blk k p \<inter> frames bs = {}" using later by (auto simp: blk_def frames_def)
  then have "frames bs \<inter> fl_frames (fl_put z k (p # fl z k) fl) = {}" using Cons.prems(4) F b1(5) by blast
  moreover have "frames bs \<subseteq> {..<2 ^ 52}" using Cons.prems(5) F by blast
  moreover have "\<exists>z. myos_page_zone b1 q = Ret z" if "unat q \<in> frames bs" for q
    using Cons.prems(6) [of q] that F page_zone_spans [OF b1(4)] by simp
  ultimately obtain b' fl' where "seq (\<lambda>(p, order). memblock_free_pages p order) bs b1 = Ret b'" "rep b' fl'" "untyped b'"
    "fl_frames fl' = fl_frames fl \<union> blk k p \<union> frames bs"
    using Cons.IH [OF b1(2,3) bs] b1(5) by metis
  then show ?case using b1(1) F by (simp add: x Un_assoc) blast
qed

lemma zones_end_limits: "zones_end (max_zone_pfns n) [0..<MAX_NR_ZONES] 1 = max n 1"
proof -
  have "max (0 :: ulong) x = x" for x by (simp add: max_def)
  moreover have "max (min a n) 1 \<le> max n 1" for a :: ulong by (auto simp: max_def min_def)
  ultimately show ?thesis
    by (simp add: zones_end_def MAX_NR_ZONES_def upt_rec max_zone_pfns_def ZONE_DMA_def ZONE_DMA32_def ZONE_NORMAL_def)
      (simp add: max.assoc [symmetric] max_absorb1 min.coboundedI2)
qed

lemma mem_init_ok:
  assumes "memmap_init (max_zone_pfns n) bt = Ret bt1" "untyped (bt_buddy bt)" "1 < n" "unat n \<le> 2 ^ 52"
    and "mb_ok mb" "\<forall>r \<in> set (rgns (memory mb)). rgn_end r \<le> 2 ^ 64 - 4096" "0 \<notin> free_frames mb (unat n)"
  shows "\<exists>bt2. mem_init ffs0 n n mb bt1 = Ret bt2 \<and> buddy_ok (bt_buddy bt2) \<and> free_set (bt_buddy bt2) = free_frames mb (unat n)"
proof -
  have E: "zones_end (max_zone_pfns n) [0..<MAX_NR_ZONES] 1 = n" using assms(3) by (simp add: zones_end_limits max.absorb1 less_imp_le)
  have "unat n \<le> map_entries bt"
  proof (rule ccontr)
    assume "\<not> ?thesis"
    then have "memmap_init (max_zone_pfns n) bt = Fault"
      unfolding memmap_init_def using assms(3) by (intro memmap_init_zones_fault) (simp_all add: E)
    then show False using assms(1) by simp
  qed
  moreover from this obtain bt' where "memmap_init (max_zone_pfns n) bt = Ret bt'"
    "zones_set (max_zone_pfns n) [0..<MAX_NR_ZONES] 1 bt bt'"
    using memmap_init_zones_ok [of "[0..<MAX_NR_ZONES]" "max_zone_pfns n" 1 bt] E unfolding memmap_init_def by auto
  ultimately have Z: "zones_set (max_zone_pfns n) [0..<MAX_NR_ZONES] 1 bt bt1" and me: "unat n \<le> map_entries bt1"
    using assms(1) by (auto simp: zones_set_def)
  obtain bt2 where bt2: "seq (reserve_bootmem_region n) (memmap_init_reserved_pages mb) bt1 = Ret bt2" "entries_only bt1 bt2"
    using reserve_all_ok [OF me] by blast
  obtain bs where bs: "memblock_free_all ffs0 n mb = Ret bs" "blocks_ok bs" "frames bs = free_frames mb (unat n)"
    using memblock_free_all_ok [OF assms(5,6)] by blast
  have "empty_zone (bt_buddy bt2) i" if "i < MAX_NR_ZONES" for i
    using Z that empty_zone_entries [OF bt2(2)] by (simp add: zones_set_def)
  then have r: "rep (bt_buddy bt2) (\<lambda>_ _. [])" by (intro rep_empty) blast
  have u: "untyped (bt_buddy bt2)"
    using assms(2) Z by (simp add: untyped_def zones_set_def entries_only_simps [OF bt2(2)])
  have z: "\<exists>z. myos_page_zone (bt_buddy bt2) p = Ret z" if "unat p \<in> frames bs" for p
  proof -
    have "unat p < unat n" "unat p \<noteq> 0" using that assms(7) unfolding bs(3) by (auto simp: free_frames_def)
    then have "1 \<le> p \<and> p < n" by (simp add: word_less_nat_alt word_le_nat_alt)
    then have "\<exists>i \<in> set [0..<MAX_NR_ZONES]. in_zone (bt_buddy bt1) i p" using Z unfolding zones_set_def E by blast
    then show ?thesis unfolding page_zone_iff by (simp add: in_zone_def entries_only_simps [OF bt2(2)])
  qed
  have "frames bs \<subseteq> {..<2 ^ 52}" using assms(4) unfolding bs(3) by (auto simp: free_frames_def)
  from free_blocks_ok [OF r u bs(2) _ this z] obtain b' fl' where
    b': "seq (\<lambda>(p, order). memblock_free_pages p order) bs (bt_buddy bt2) = Ret b'" "rep b' fl'" "untyped b'" "fl_frames fl' = frames bs"
    by auto
  then show ?thesis
    using bt2(1) bs(1,3) free_set_rep [OF b'(2)] by (auto simp: mem_init_def buddy_ok_def)
qed

text \<open>The page array is cleared before the zones are set up.\<close>

lemma totalpages_keeps:
  "totalpages_loop t s e is a r bt = Ret bt' \<Longrightarrow> map_entries bt' = map_entries bt \<and> node_mem_map bt' = node_mem_map bt
     \<and> pages (bt_buddy bt') = pages (bt_buddy bt) \<and> node_start_pfn bt' = node_start_pfn bt"
  by (induction "is" arbitrary: a r bt) (auto simp: Let_def split: option.splits)

lemma alloc_node_mem_map_untyped:
  assumes "alloc_node_mem_map k sz bt mb = Ret (bt', mb')" "node_mem_map bt = 0" "node_spanned_pages bt \<noteq> 0"
  shows "untyped (bt_buddy bt')"
proof -
  obtain bt1 ns where bt1: "pages (bt_buddy bt1) = (\<lambda>_. zero_page)"
    "seq (\<lambda>n. init_list_of (of_nat n)) ns bt1 = Ret bt'"
    using assms by (auto simp: alloc_node_mem_map_def Let_def bnd_eq_Ret simp del: seq.simps split: if_splits prod.splits intro: that [rotated])
  have seqr: "seq (\<lambda>n. init_list_of (of_nat n)) ns st = Ret st' \<Longrightarrow> pages (bt_buddy st') = pages (bt_buddy st)" for ns st st'
    by (induction ns arbitrary: st) (auto simp: bnd_eq_Ret init_list_of_def Let_def INIT_LIST_S_eq split: if_splits)
  show ?thesis using seqr [OF bt1(2)] bt1(1) by (simp add: untyped_def zero_page_def PAGE_TYPE_BASE_def)
qed

lemma clear_pgdat_simps [simp]:
  "map_entries (clear_pgdat bt) = map_entries bt" "node_mem_map (clear_pgdat bt) = 0"
  by (simp_all add: clear_pgdat_def Let_def)

lemma zone_limits_simps [simp]: "map_entries (zone_limits_loop mz is s bt) = map_entries bt"
  by (induction "is" arbitrary: s bt) (simp_all add: Let_def)

lemma free_area_init_untyped:
  assumes "free_area_init k sz (max_zone_pfns n) bt mb = Ret (bt', mb')" "map_entries bt = 0" "1 < n"
  shows "\<exists>st. memmap_init (max_zone_pfns n) st = Ret bt' \<and> untyped (bt_buddy st)"
proof -
  obtain s e where se: "get_pfn_range (memory mb) = (s, e)" by fastforce
  define st0 where "st0 = (clear_pgdat (zone_limits_loop (max_zone_pfns n) [0..<MAX_NR_ZONES] 1
      (bt\<lparr>zone_lowest := (\<lambda>_. 0), zone_highest := (\<lambda>_. 0)\<rparr>)))\<lparr>node_start_pfn := s\<rparr>"
  from assms(1) obtain st1 st2 where
    st1: "calculate_node_totalpages (memory mb) s e st0 = Ret st1" and
    st2: "alloc_node_mem_map k sz st1 mb = Ret (st2, mb')" and
    mi: "memmap_init (max_zone_pfns n) st2 = Ret bt'"
    unfolding free_area_init_def Let_def se prod.case st0_def [symmetric] by (auto simp: bnd_eq_Ret)
  have k1: "map_entries st1 = 0" "node_mem_map st1 = 0"
    using totalpages_keeps [OF st1 [unfolded calculate_node_totalpages_def]] assms(2) by (simp_all add: st0_def)
  have "node_spanned_pages st1 \<noteq> 0"
  proof
    assume "node_spanned_pages st1 = 0"
    then have "map_entries st2 = 0" using st2 k1 by (simp add: alloc_node_mem_map_def)
    then have "memmap_init (max_zone_pfns n) st2 = Fault"
      unfolding memmap_init_def using assms(3)
      by (intro memmap_init_zones_fault) (simp_all add: zones_end_limits max.absorb1 less_imp_le word_less_nat_alt)
    then show False using mi by simp
  qed
  from alloc_node_mem_map_untyped [OF st2 k1(2) this] show ?thesis using mi by blast
qed

section \<open>The sizes of the zones and of the page array\<close>

definition lim0 :: "ulong \<Rightarrow> ulong" where "lim0 n = min MAX_DMA_PFN n"
definition lim1 :: "ulong \<Rightarrow> ulong" where "lim1 n = min MAX_DMA32_PFN n"

lemma lims: "1 < n \<Longrightarrow> 1 < lim0 n" "lim0 n \<le> lim1 n" "lim1 n \<le> n"
proof -
  show "1 < n \<Longrightarrow> 1 < lim0 n" by (simp add: lim0_def MAX_DMA_PFN_def PAGE_SHIFT_def)
  have "MAX_DMA_PFN \<le> MAX_DMA32_PFN" by (simp add: MAX_DMA_PFN_def MAX_DMA32_PFN_def PAGE_SHIFT_def)
  then show "lim0 n \<le> lim1 n" unfolding lim0_def lim1_def by (rule min.mono) simp
  show "lim1 n \<le> n" by (simp add: lim1_def)
qed

lemma zone_limits:
  fixes bt :: boot
  assumes "1 < n"
  defines "st \<equiv> zone_limits_loop (max_zone_pfns n) [0..<MAX_NR_ZONES] 1 bt"
  shows "map (\<lambda>i. (zone_lowest st i, zone_highest st i)) [0..<MAX_NR_ZONES] = [(1, lim0 n), (lim0 n, lim1 n), (lim1 n, n), (n, n), (n, n)]"
proof -
  have 0: "max (lim0 n) 1 = lim0 n" "max (lim1 n) (lim0 n) = lim1 n" "max n (lim1 n) = n"
    using lims [of n] assms(1) by (simp_all add: max.absorb1 less_imp_le)
  have m: "max (0 :: ulong) x = x" for x by (simp add: max_def)
  have "[0..<MAX_NR_ZONES] = [0, 1, 2, 3, 4]" by (simp add: MAX_NR_ZONES_def upt_rec)
  then show ?thesis
    unfolding st_def
    by (simp add: Let_def max_zone_pfns_def ZONE_DMA_def ZONE_DMA32_def ZONE_NORMAL_def lim0_def [symmetric] lim1_def [symmetric] 0 m)
qed

lemma node_pages_spanned:
  assumes "lo \<le> hi" "hi \<le> e" "s \<le> hi" "e \<noteq> 0"
  shows "\<exists>absent. calculate_node_pages t lo hi s e = Some (max s lo, absent, hi - max s lo)"
proof -
  have "clamp s lo hi = max s lo" using assms by (simp add: clamp_def min.absorb1)
  moreover have "clamp e lo hi = hi" using assms by (simp add: clamp_def min.absorb2 le_max_iff_disj)
  moreover have "max s lo \<le> e" using assms by (meson max.boundedI order_trans)
  ultimately show ?thesis
    using assms by (simp add: calculate_node_pages_def Let_def not_less min.absorb1 max.commute max.left_commute)
qed

lemma totalpages_ok:
  assumes "map (\<lambda>i. (zone_lowest bt i, zone_highest bt i)) is = zs" "\<forall>(lo, hi) \<in> set zs. lo \<le> hi \<and> hi \<le> e \<and> s \<le> hi" "e \<noteq> 0"
  shows "\<exists>bt'. totalpages_loop t s e is a r bt = Ret bt'
     \<and> node_spanned_pages bt' = a + sum_list (map (\<lambda>(lo, hi). hi - max s lo) zs)"
  using assms(1,2)
proof (induction "is" arbitrary: zs a r bt)
  case (Cons i "is")
  then obtain lo hi zs' where zs: "zs = (lo, hi) # zs'" "zone_lowest bt i = lo" "zone_highest bt i = hi"
    "map (\<lambda>i. (zone_lowest bt i, zone_highest bt i)) is = zs'" by (cases zs) auto
  have "lo \<le> hi" "hi \<le> e" "s \<le> hi" using Cons.prems(2) zs(1) by auto
  from node_pages_spanned [OF this assms(3)] obtain ab where
    ab: "calculate_node_pages t lo hi s e = Some (max s lo, ab, hi - max s lo)" by blast
  define bt1 where "bt1 = bt\<lparr>bt_buddy := (bt_buddy bt)\<lparr>zones := (zones (bt_buddy bt))(i := (zones (bt_buddy bt) i)
     \<lparr>zone_start_pfn := (if hi - max s lo \<noteq> 0 then max s lo else 0), spanned_pages := hi - max s lo, present_pages := hi - max s lo - ab\<rparr>)\<rparr>\<rparr>"
  have "map (\<lambda>i. (zone_lowest bt1 i, zone_highest bt1 i)) is = zs'" using zs(4) by (simp add: bt1_def)
  from Cons.IH [OF this, of "a + (hi - max s lo)" "r + (hi - max s lo - ab)"] Cons.prems(2) zs(1)
  obtain bt' where "totalpages_loop t s e is (a + (hi - max s lo)) (r + (hi - max s lo - ab)) bt1 = Ret bt'"
    "node_spanned_pages bt' = a + (hi - max s lo) + sum_list (map (\<lambda>(lo, hi). hi - max s lo) zs')" by auto
  moreover have "totalpages_loop t s e (i # is) a r bt = totalpages_loop t s e is (a + (hi - max s lo)) (r + (hi - max s lo - ab)) bt1"
    unfolding totalpages_loop.simps zs(2,3) ab option.case prod.case Let_def bt1_def ..
  ultimately show ?case by (simp add: zs(1) add.assoc)
qed simp

lemma calculate_node_totalpages_ok:
  fixes bt :: boot
  assumes "1 < n" "s < lim0 n"
  defines "st \<equiv> (clear_pgdat (zone_limits_loop (max_zone_pfns n) [0..<MAX_NR_ZONES] 1 bt))\<lparr>node_start_pfn := s\<rparr>"
  shows "\<exists>bt'. calculate_node_totalpages t s n st = Ret bt' \<and> node_spanned_pages bt' = n - max s 1
     \<and> map_entries bt' = map_entries bt \<and> node_mem_map bt' = 0 \<and> node_start_pfn bt' = s"
proof -
  have Z: "map (\<lambda>i. (zone_lowest st i, zone_highest st i)) [0..<MAX_NR_ZONES] = [(1, lim0 n), (lim0 n, lim1 n), (lim1 n, n), (n, n), (n, n)]"
    using zone_limits [OF assms(1), of bt] by (simp add: st_def clear_pgdat_def Let_def)
  have le: "s \<le> lim0 n" "1 \<le> lim0 n" "lim0 n \<le> n" "s \<le> lim1 n" "s \<le> n" "1 \<le> n"
    using lims [of n] assms by (auto intro: order_trans less_imp_le)
  have "n \<noteq> 0" using assms(1) by auto
  moreover have "\<forall>(lo, hi) \<in> set [(1, lim0 n), (lim0 n, lim1 n), (lim1 n, n), (n, n), (n, n)]. lo \<le> hi \<and> hi \<le> n \<and> s \<le> hi"
    using lims [of n] le by simp
  ultimately obtain bt' where bt': "calculate_node_totalpages t s n st = Ret bt'"
    "node_spanned_pages bt' = sum_list (map (\<lambda>(lo, hi). hi - max s lo) [(1, lim0 n), (lim0 n, lim1 n), (lim1 n, n), (n, n), (n, n)])"
    using totalpages_ok [OF Z, of n s t 0 0] unfolding calculate_node_totalpages_def by auto
  have "node_spanned_pages bt' = n - max s 1"
    using bt'(2) le by (simp add: max.absorb2)
  moreover have "map_entries bt' = map_entries bt \<and> node_mem_map bt' = 0 \<and> node_start_pfn bt' = s"
    using totalpages_keeps [OF bt'(1) [unfolded calculate_node_totalpages_def]] by (simp add: st_def)
  ultimately show ?thesis using bt'(1) by blast
qed

lemma pfn_ranges_from:
  assumes "wf_type t" "i \<le> unat (cnt t)"
  shows "pfn_ranges t (int i - 1) =
    map (\<lambda>r. (PFN_UP (rgn_base r), PFN_DOWN (rgn_base r + rgn_size r))) (filter has_frames (map (regions t) [i..<unat (cnt t)]))"
  using assms(2)
proof (induction "unat (cnt t) - i" arbitrary: i rule: less_induct)
  case less
  from next_pfn_idx_ok [OF assms(1) less.prems] obtain j where
    j: "next_pfn_idx t (int i - 1) = int j" "i \<le> j" "j \<le> unat (cnt t)"
    "j < unat (cnt t) \<longrightarrow> has_frames (regions t j)" "\<forall>k. i \<le> k \<and> k < j \<longrightarrow> \<not> has_frames (regions t k)" by blast
  have "unat (of_nat j :: ulong) = j" using cnt_facts(3) [OF assms(1)] j(3) by simp
  then have w: "(word_of_int (int j) :: ulong) \<ge> cnt t \<longleftrightarrow> \<not> j < unat (cnt t)"
    by (simp add: word_le_nat_alt not_less)
  have split: "[i..<unat (cnt t)] = [i..<j] @ [j..<unat (cnt t)]"
    using j(2,3) upt_add_eq_append [of i j "unat (cnt t) - j"] by simp
  have none: "filter has_frames (map (regions t) [i..<j]) = []" using j(5) by (simp add: filter_empty_conv)
  show ?case
  proof (cases "j < unat (cnt t)")
    case True
    have nx: "next_mem_pfn_range t (int i - 1) = (int j, Some (PFN_UP (rgn_base (regions t j)), PFN_DOWN (rgn_base (regions t j) + rgn_size (regions t j))))"
      using True w j(1) by (simp add: next_mem_pfn_range_def Let_def)
    have "unat (cnt t) - Suc j < unat (cnt t) - i" "Suc j \<le> unat (cnt t)" using True j(2) by auto
    note IH = less.hyps [OF this]
    have "[i..<unat (cnt t)] = [i..<j] @ j # [Suc j..<unat (cnt t)]" using split upt_conv_Cons [OF True] by simp
    moreover have "has_frames (regions t j)" using j(4) True by blast
    moreover have "int (Suc j) - 1 = int j" by simp
    moreover have "pfn_ranges t (int i - 1) = (PFN_UP (rgn_base (regions t j)), PFN_DOWN (rgn_base (regions t j) + rgn_size (regions t j))) # pfn_ranges t (int j)"
      by (subst pfn_ranges.simps) (simp add: nx)
    ultimately show ?thesis using IH none by simp
  next
    case False
    then have "next_mem_pfn_range t (int i - 1) = (-1, None)"
      using w j(1) by (simp add: next_mem_pfn_range_def Let_def)
    moreover have "[i..<unat (cnt t)] = [i..<j]" using split False by simp
    ultimately show ?thesis using none by (subst pfn_ranges.simps) simp
  qed
qed

lemma pfn_ranges_eq:
  assumes "wf_type t"
  shows "pfn_ranges t (-1) = map (\<lambda>r. (PFN_UP (rgn_base r), PFN_DOWN (rgn_base r + rgn_size r))) (filter has_frames (rgns t))"
  using pfn_ranges_from [OF assms, of 0] by (simp add: rgns_def)

text \<open>The frames a region holds whole, inside a window.\<close>

definition window_frames :: "mmblk_rgn \<Rightarrow> nat \<Rightarrow> nat \<Rightarrow> nat set" where
  "window_frames r lo hi = {p. lo \<le> p \<and> p < hi \<and> page_bytes p \<subseteq> rgn_addrs r}"

lemma window_frames_eq:
  assumes "rgn_end r \<le> 2 ^ 64 - 4096"
  shows "window_frames r lo hi = {max lo (unat (PFN_UP (rgn_base r)))..<min hi (unat (PFN_DOWN (rgn_base r + rgn_size r)))}"
  by (auto simp: window_frames_def region_frames [OF assms])

lemma window_card:
  assumes "rgn_end r \<le> 2 ^ 64 - 4096" "zs \<le> ze" "has_frames r"
  shows "clamp (PFN_DOWN (rgn_base r + rgn_size r)) zs ze - clamp (PFN_UP (rgn_base r)) zs ze =
     of_nat (card (window_frames r (unat zs) (unat ze)))"
proof -
  define s e where "s = PFN_UP (rgn_base r)" and "e = PFN_DOWN (rgn_base r + rgn_size r)"
  have se: "unat s < unat e" using assms(3) by (simp add: has_frames_def s_def e_def word_less_nat_alt)
  have z: "unat zs \<le> unat ze" using assms(2) by (simp add: word_le_nat_alt)
  have cl: "unat (clamp s zs ze) \<le> unat (clamp e zs ze)" using se z by (simp add: unat_clamp)
  have "card (window_frames r (unat zs) (unat ze)) = unat (clamp e zs ze) - unat (clamp s zs ze)"
    using se z unfolding window_frames_eq [OF assms(1)] s_def [symmetric] e_def [symmetric] by (simp add: unat_clamp)
  then show ?thesis using cl unfolding s_def e_def by (simp add: of_nat_diff unat_word_inv)
qed

text \<open>Over all regions; a region without a whole frame adds nothing.\<close>

lemma absent_sum:
  assumes "\<forall>r \<in> set rs. rgn_end r \<le> 2 ^ 64 - 4096" "zs \<le> ze"
  shows "fold (\<lambda>(s, e) a. a - (clamp e zs ze - clamp s zs ze))
      (map (\<lambda>r. (PFN_UP (rgn_base r), PFN_DOWN (rgn_base r + rgn_size r))) (filter has_frames rs)) a =
    a - of_nat (sum_list (map (\<lambda>r. card (window_frames r (unat zs) (unat ze))) rs))"
  using assms(1)
proof (induction rs arbitrary: a)
  case (Cons r rs)
  have r: "rgn_end r \<le> 2 ^ 64 - 4096" using Cons.prems by simp
  show ?case
  proof (cases "has_frames r")
    case True
    then show ?thesis using Cons window_card [OF r assms(2) True] by simp
  next
    case False
    then have "window_frames r (unat zs) (unat ze) = {}"
      by (simp add: window_frames_eq [OF r] has_frames_def word_less_nat_alt)
    then show ?thesis using Cons False by simp
  qed
qed simp

lemma disjoint_cards:
  assumes "wf_rgns rs"
  shows "sum_list (map (\<lambda>r. card (window_frames r lo hi)) rs) = card (\<Union>r \<in> set rs. window_frames r lo hi)"
  using assms
proof (induction rs)
  case (Cons r rs)
  have fin: "finite (window_frames q lo hi)" for q
    by (rule finite_subset [of _ "{..<hi}"]) (auto simp: window_frames_def)
  have "p \<notin> window_frames q lo hi" if p: "p \<in> window_frames r lo hi" and q: "q \<in> set rs" for p q
  proof
    assume "p \<in> window_frames q lo hi"
    then have "p * 4096 \<in> rgn_addrs r \<inter> rgn_addrs q" using p page_bytes_nonempty by (auto simp: window_frames_def)
    moreover have "rgn_end r \<le> unat (rgn_base q)" using Cons.prems q by (simp add: wf_rgns_def)
    ultimately show False by (auto simp: rgn_addrs_def)
  qed
  then have "window_frames r lo hi \<inter> (\<Union>q \<in> set rs. window_frames q lo hi) = {}" by blast
  then show ?case using Cons fin by (simp add: card_Un_disjoint wf_rgns_Cons)
qed simp

lemma node_pages_present:
  assumes "wf_type t" "\<forall>r \<in> set (rgns t). rgn_end r \<le> 2 ^ 64 - 4096" "lo \<le> hi" "s \<le> e"
    and "calculate_node_pages t lo hi s e = Some (z, absent, spanned)"
  shows "z = max s lo" "spanned = min e hi - max s lo"
    "unat (spanned - absent) = card {p. unat (max s lo) \<le> p \<and> p < unat (min e hi) \<and> (\<exists>r \<in> set (rgns t). page_bytes p \<subseteq> rgn_addrs r)}"
proof -
  define zs ze where "zs = clamp s lo hi" and "ze = clamp e lo hi"
  have nn: "\<not> ze < s" "\<not> zs > e" and
    res: "z = max zs s" "spanned = min ze e - max zs s"
    "absent = fold (\<lambda>(s, e) a. a - (clamp e zs ze - clamp s zs ze)) (pfn_ranges t (-1)) (ze - zs)"
    using assms(5) by (auto simp: calculate_node_pages_def Let_def zs_def ze_def split: if_splits)
  have "s \<le> hi" using nn(1) by (auto simp: ze_def clamp_def not_less)
  then have zs: "zs = max s lo" using assms(3) by (simp add: zs_def clamp_def min.absorb1)
  then have "lo \<le> e" using nn(2) by (auto simp: not_less)
  then have ze: "ze = min e hi" by (simp add: ze_def clamp_def max.absorb1)
  have zz: "zs \<le> ze" using \<open>s \<le> hi\<close> \<open>lo \<le> e\<close> assms(3,4) by (simp add: zs ze)
  show 1: "z = max s lo" using res(1) zs by (simp add: max.commute max.left_commute)
  show 2: "spanned = min e hi - max s lo" using res(2) zs ze by (simp add: max.commute max.left_commute min.commute min.left_commute)
  have W: "(\<Union>r \<in> set (rgns t). window_frames r (unat zs) (unat ze)) =
      {p. unat (max s lo) \<le> p \<and> p < unat (min e hi) \<and> (\<exists>r \<in> set (rgns t). page_bytes p \<subseteq> rgn_addrs r)}"
    by (auto simp: window_frames_def zs ze)
  have "absent = (ze - zs) - of_nat (card (\<Union>r \<in> set (rgns t). window_frames r (unat zs) (unat ze)))"
    using assms(1) disjoint_cards [of "rgns t" "unat zs" "unat ze"]
    unfolding res(3) pfn_ranges_eq [OF assms(1)] absent_sum [OF assms(2) zz] by (simp add: wf_type_def)
  then have "spanned - absent = of_nat (card (\<Union>r \<in> set (rgns t). window_frames r (unat zs) (unat ze)))"
    using 2 by (simp add: zs ze)
  moreover have "card (\<Union>r \<in> set (rgns t). window_frames r (unat zs) (unat ze)) \<le> card {..<unat ze}"
    by (rule card_mono) (auto simp: window_frames_def)
  then have "card (\<Union>r \<in> set (rgns t). window_frames r (unat zs) (unat ze)) < 2 ^ 64"
    using unat_lt_64 [of ze] by simp
  ultimately show "unat (spanned - absent) = card {p. unat (max s lo) \<le> p \<and> p < unat (min e hi) \<and> (\<exists>r \<in> set (rgns t). page_bytes p \<subseteq> rgn_addrs r)}"
    by (simp only: unat_of_nat_small W)
qed

lemma round_up_1024:
  assumes "x \<noteq> 0" "unat x \<le> 2 ^ 53"
  shows "unat (round_up x MAX_ORDER_NR_PAGES) = (unat x + 1023) div 1024 * 1024"
proof -
  have "0 < x" using assms(1) by (simp add: word_neq_0_conv)
  then have "unat (round_up x (2 ^ 10)) = (((unat x - 1) div 2 ^ 10 + 1) * 2 ^ 10) mod 2 ^ 64"
    by (intro unat_round_up) simp_all
  moreover have x0: "0 < unat x" using \<open>0 < x\<close> by (simp add: unat_gt_0)
  moreover have "(unat x - 1) div 1024 + 1 = (unat x + 1023) div 1024"
  proof -
    have "unat x + 1023 = (unat x - 1) + 1024" using x0 by simp
    then show ?thesis by simp
  qed
  moreover have "(unat x + 1023) div 1024 * 1024 \<le> unat x + 1023" by simp
  ultimately show ?thesis using assms(2) by (simp add: MAX_ORDER_NR_PAGES_def MAX_ORDER_def)
qed

lemma init_lists_ok:
  assumes "e \<le> map_entries bt" "e \<le> 2 ^ 64"
  shows "\<exists>bt'. seq (\<lambda>n. init_list_of (of_nat n)) [0..<e] bt = Ret bt' \<and> entries_only bt bt'"
proof (rule seq_ok)
  fix n st assume n: "n \<in> set [0..<e]" and st: "entries_only bt st"
  have "unat (of_nat n :: ulong) < map_entries st"
    using n assms entries_only_simps(1) [OF st] by (simp add: unat_of_nat_small)
  from init_list_of_ok [OF this] show "\<exists>s'. init_list_of (of_nat n) st = Ret s' \<and> entries_only bt s'"
    using st entries_only_trans by blast
qed simp

lemma alloc_node_mem_map_ok:
  assumes "node_start_pfn bt = s" "node_spanned_pages bt = n - max s 1" "node_mem_map bt = 0"
    and "s < 1024" "s < n" "1 < n" "unat n \<le> 2 ^ 52"
    and "memblock_alloc_range (round_up (s + (n - max s 1)) MAX_ORDER_NR_PAGES * sz) SMP_CACHE_BYTES MAX_DMA_PFN 0 mb = Ret (a, mb')"
    and "a + k \<noteq> 0"
  shows "\<exists>bt'. alloc_node_mem_map k sz bt mb = Ret (bt', mb')
     \<and> map_entries bt' = (unat s + (unat n - max (unat s) 1) + 1023) div 1024 * 1024 - unat s"
proof -
  have s: "unat s < 1024" "unat s < unat n" "1 < unat n" using assms(4-6) by (simp_all add: word_less_nat_alt)
  have "NOT (MAX_ORDER_NR_PAGES - 1) = NOT (mask 10)"
    by (simp add: MAX_ORDER_NR_PAGES_def MAX_ORDER_def mask_eq_exp_minus_1)
  moreover have "s AND NOT (mask 10) = 0"
  proof -
    have "take_bit 10 s = s" using s(1) by (simp add: word_unat_eq_iff unsigned_take_bit_eq take_bit_nat_eq_self)
    then have "s = s AND mask 10" by (simp add: take_bit_eq_mask)
    then have "s AND NOT (mask 10) = s AND (mask 10 AND NOT (mask 10))" by (metis and.assoc)
    then show ?thesis by simp
  qed
  ultimately have st0: "s AND NOT (MAX_ORDER_NR_PAGES - 1) = 0" by simp
  have mx: "max s 1 \<le> n" using assms(5,6) by (simp add: less_imp_le)
  have sp: "unat (n - max s 1) = unat n - max (unat s) 1"
    using mx by (simp add: unat_sub unat_max)
  have sp0: "n - max s 1 \<noteq> 0" using sp s by (metis unat_0 diff_is_0_eq max_less_iff_conj not_le)
  have tot: "unat (s + (n - max s 1)) = unat s + (unat n - max (unat s) 1)"
    using sp s assms(7) by (simp add: unat_word_ariths)
  define E where "E = round_up (s + (n - max s 1)) MAX_ORDER_NR_PAGES"
  have "s + (n - max s 1) \<noteq> 0" using tot sp sp0 by (metis add_is_0 unat_0 unat_eq_zero)
  then have E: "unat E = (unat s + (unat n - max (unat s) 1) + 1023) div 1024 * 1024"
    unfolding E_def using tot s assms(7) by (subst round_up_1024) simp_all
  have E2: "unat s + (unat n - max (unat s) 1) \<le> unat E" unfolding E by simp
  define bt1 where "bt1 = bt\<lparr>bt_buddy := (bt_buddy bt)\<lparr>pages := (\<lambda>_. zero_page),
       contents := (\<lambda>x. if x - a < (E - 0) * sz then 0 else contents (bt_buddy bt) x)\<rparr>,
     node_mem_map := a + k + (s - 0) * sz, map_entries := unat (E - 0) - unat (s - 0)\<rparr>"
  have "unat (n - max s 1) \<le> map_entries bt1" using E2 sp by (simp add: bt1_def)
  moreover have "unat (n - max s 1) \<le> 2 ^ 64" by (rule less_imp_le) (rule unat_lt_64)
  ultimately obtain bt' where bt': "seq (\<lambda>n. init_list_of (of_nat n)) [0..<unat (n - max s 1)] bt1 = Ret bt'" "entries_only bt1 bt'"
    using init_lists_ok by blast
  have "node_spanned_pages bt1 = n - max s 1" using assms(2) by (simp add: bt1_def)
  then have "alloc_node_mem_map k sz bt mb = Ret (bt', mb')"
    using sp0 assms(3,9) assms(8) [folded E_def] bt'(1)
    unfolding alloc_node_mem_map_def Let_def assms(1,2) st0 E_def [symmetric] bt1_def by simp
  moreover have "map_entries bt' = unat E - unat s" using entries_only_simps(1) [OF bt'(2)] by (simp add: bt1_def)
  ultimately show ?thesis using E by auto
qed

lemma free_area_init_bounds:
  assumes "get_pfn_range (memory mb) = (s, n)" "s < 1024" "s < n" "1 < n" "unat n \<le> 2 ^ 52"
    and "memblock_alloc_range (round_up (s + (n - max s 1)) MAX_ORDER_NR_PAGES * sz_page) SMP_CACHE_BYTES MAX_DMA_PFN 0 mb = Ret (a, mb')"
    and "a + k_offset \<noteq> 0"
  shows "if unat n + unat s \<le> (unat s + (unat n - max (unat s) 1) + 1023) div 1024 * 1024
     then \<exists>bt'. free_area_init k_offset sz_page (max_zone_pfns n) bt mb = Ret (bt', mb')
     else free_area_init k_offset sz_page (max_zone_pfns n) bt mb = Fault"
proof -
  define R where "R = (unat s + (unat n - max (unat s) 1) + 1023) div 1024 * 1024"
  have "s < lim0 n" using assms(2,3) by (simp add: lim0_def MAX_DMA_PFN_def PAGE_SHIFT_def) (simp add: word_less_nat_alt)
  from calculate_node_totalpages_ok [OF assms(4) this, of "memory mb" "bt\<lparr>zone_lowest := (\<lambda>_. 0), zone_highest := (\<lambda>_. 0)\<rparr>"]
  obtain st where st: "calculate_node_totalpages (memory mb) s n ((clear_pgdat (zone_limits_loop (max_zone_pfns n) [0..<MAX_NR_ZONES] 1
      (bt\<lparr>zone_lowest := (\<lambda>_. 0), zone_highest := (\<lambda>_. 0)\<rparr>)))\<lparr>node_start_pfn := s\<rparr>) = Ret st"
    "node_start_pfn st = s" "node_spanned_pages st = n - max s 1" "node_mem_map st = 0" by blast
  from alloc_node_mem_map_ok [OF st(2-4) assms(2-7)] obtain st2 where
    st2: "alloc_node_mem_map k_offset sz_page st mb = Ret (st2, mb')" "map_entries st2 = R - unat s" unfolding R_def by blast
  have run: "free_area_init k_offset sz_page (max_zone_pfns n) bt mb =
      bnd (memmap_init (max_zone_pfns n) st2) (\<lambda>bt. Ret (bt, mb'))"
    using st(1) st2(1) by (simp add: free_area_init_def Let_def assms(1))
  have E: "zones_end (max_zone_pfns n) [0..<MAX_NR_ZONES] 1 = n"
    using assms(4) by (simp add: zones_end_limits max.absorb1 less_imp_le)
  have le: "unat s \<le> R" by (simp add: R_def)
  show ?thesis
  proof (cases "unat n + unat s \<le> R")
    case True
    then have "unat (zones_end (max_zone_pfns n) [0..<MAX_NR_ZONES] 1) \<le> map_entries st2" by (simp add: E st2(2))
    from memmap_init_zones_ok [OF _ this] obtain bt' where "memmap_init (max_zone_pfns n) st2 = Ret bt'"
      unfolding memmap_init_def by auto
    then show ?thesis using True run by (simp add: R_def)
  next
    case False
    then have "memmap_init (max_zone_pfns n) st2 = Fault"
      unfolding memmap_init_def using assms(4) le by (intro memmap_init_zones_fault) (simp_all add: E st2(2))
    then show ?thesis using False run by (simp add: R_def)
  qed
qed

section \<open>Properties\<close>

text \<open>Thirty-two frames of memory, the first one reserved, and a node before boot, for the examples.\<close>

definition boot_mb :: memblock where
  "boot_mb = \<lparr>bottom_up = True, current_limit = 0x20000,
     memory = \<lparr>cnt = 1, max_cnt = 128, total_size = 0x20000,
       regions = (\<lambda>i. \<lparr>rgn_base = 0, rgn_size = (if i = 0 then 0x20000 else 0), rgn_flags = 0\<rparr>)\<rparr>,
     reserved = \<lparr>cnt = 1, max_cnt = 128, total_size = 0x1000,
       regions = (\<lambda>i. \<lparr>rgn_base = 0, rgn_size = (if i = 0 then 0x1000 else 0), rgn_flags = 0\<rparr>)\<rparr>\<rparr>"

definition boot_node :: boot where
  "boot_node = \<lparr>bt_buddy = fresh_node 0xffffffff, node_start_pfn = 0, node_spanned_pages = 0, node_present_pages = 0,
     node_mem_map = 0, map_entries = 0, zone_lowest = (\<lambda>_. 0), zone_highest = (\<lambda>_. 0), highest_memmap_pfn = 0\<rparr>"

lemma boot_mb_facts:
  "mb_ok boot_mb" "rgns (memory boot_mb) = [\<lparr>rgn_base = 0, rgn_size = 0x20000, rgn_flags = 0\<rparr>]"
  "0 \<notin> free_frames boot_mb n"
proof -
  show r: "rgns (memory boot_mb) = [\<lparr>rgn_base = 0, rgn_size = 0x20000, rgn_flags = 0\<rparr>]"
    by (simp add: rgns_def boot_mb_def)
  have q: "rgns (reserved boot_mb) = [\<lparr>rgn_base = 0, rgn_size = 0x1000, rgn_flags = 0\<rparr>]"
    by (simp add: rgns_def boot_mb_def)
  have "wf_type (memory boot_mb)" using r by (simp add: wf_type_def wf_rgns_def rgn_end_def) (simp add: boot_mb_def)
  moreover have "wf_type (reserved boot_mb)" using q by (simp add: wf_type_def wf_rgns_def rgn_end_def) (simp add: boot_mb_def)
  moreover have "no_flags (memory boot_mb)" "no_flags (reserved boot_mb)" by (simp_all add: no_flags_def boot_mb_def)
  ultimately show "mb_ok boot_mb" by (simp add: mb_ok_def)
  have "0 \<in> covers (reserved boot_mb)" by (simp add: covers_def q rgn_addrs_def rgn_end_def)
  then show "0 \<notin> free_frames boot_mb n" using page_bytes_nonempty [of 0] by (auto simp: free_frames_def)
qed

lemma boot_sample_runs:
  "case myos_memblock_alloc_normal (MAX_NUMNODES * 0x1000) SMP_CACHE_BYTES boot_mb of
     Ret (nodes, mb) \<Rightarrow> get_pfn_range (memory mb) = (0, 32)
       \<and> (case memblock_alloc_range (round_up (0 + (32 - max 0 1)) MAX_ORDER_NR_PAGES * 64) SMP_CACHE_BYTES MAX_DMA_PFN 0 mb of
            Ret (a, mb') \<Rightarrow> a + 0xffff800000000000 \<noteq> 0 | _ \<Rightarrow> False)
   | _ \<Rightarrow> False"
  by code_simp

lemma boot_sample: "\<exists>bt mb. zone_sizes_init 0xffff800000000000 0x1000 64 32 boot_node boot_mb = Ret (bt, mb)"
proof -
  from boot_sample_runs [unfolded case_Ret] obtain nodes mb a mb' where mb:
    "myos_memblock_alloc_normal (MAX_NUMNODES * 0x1000) SMP_CACHE_BYTES boot_mb = Ret (nodes, mb)"
    "get_pfn_range (memory mb) = (0, 32)" and
    a: "memblock_alloc_range (round_up (0 + (32 - max 0 1)) MAX_ORDER_NR_PAGES * 64) SMP_CACHE_BYTES MAX_DMA_PFN 0 mb = Ret (a, mb')"
    "a + 0xffff800000000000 \<noteq> 0" by blast
  from free_area_init_bounds [OF mb(2) _ _ _ _ a, of boot_node]
  show ?thesis using mb(1) by (auto simp: zone_sizes_init_def)
qed



text \<open>
  C14. The page array is large enough for the frames \<^verbatim>\<open>memmap_init\<close> writes only if the padding to
  1024 entries makes up for the frames the node starts after: for memory from frame \<open>s\<close> below 1024
  to frame \<open>n\<close>, \<^verbatim>\<open>free_area_init\<close> returns exactly if \<open>n + s\<close> is within the rounded size, and otherwise
  writes behind the end of the array.
\<close>

theorem free_area_init_array_bounds:
  assumes "get_pfn_range (memory mb) = (s, n)" "s < 1024" "s < n" "1 < n" "unat n \<le> 2 ^ 52"
    and "memblock_alloc_range (round_up (s + (n - max s 1)) MAX_ORDER_NR_PAGES * sz_page) SMP_CACHE_BYTES MAX_DMA_PFN 0 mb = Ret (a, mb')"
    and "a + k_offset \<noteq> 0"
  shows "if unat n + unat s \<le> (unat s + (unat n - max (unat s) 1) + 1023) div 1024 * 1024
     then \<exists>bt'. free_area_init k_offset sz_page (max_zone_pfns n) bt mb = Ret (bt', mb')
     else free_area_init k_offset sz_page (max_zone_pfns n) bt mb = Fault"
  using assms by (rule free_area_init_bounds)

theorem free_area_init_array_bounds_witness:
  "\<exists>bt' mb'. free_area_init 0xffff800000000000 64 (max_zone_pfns 32) boot_node boot_mb = Ret (bt', mb')"
proof -
  have "get_pfn_range (memory boot_mb) = (0, 32)" by code_simp
  moreover have "case memblock_alloc_range (round_up (0 + (32 - max 0 1)) MAX_ORDER_NR_PAGES * 64) SMP_CACHE_BYTES MAX_DMA_PFN 0 boot_mb of
            Ret (a, mb') \<Rightarrow> a + 0xffff800000000000 \<noteq> 0 | _ \<Rightarrow> False" by code_simp
  then obtain a mb' where
    "memblock_alloc_range (round_up (0 + (32 - max 0 1)) MAX_ORDER_NR_PAGES * 64) SMP_CACHE_BYTES MAX_DMA_PFN 0 boot_mb = Ret (a, mb')"
    "a + 0xffff800000000000 \<noteq> 0" unfolding case_Ret by blast
  ultimately show ?thesis
    using free_area_init_array_bounds [of boot_mb 0 32 64 a mb' "0xffff800000000000" boot_node] by auto
qed

text \<open>
  C27. \<^verbatim>\<open>__myos_calculate_node_pages\<close> counts right: where it does not return early, the zone starts at
  the later of zone and node start, spans up to the earlier of their ends, and the spanned less
  the absent pages are the number of frames in between that memory regions hold whole.
\<close>

theorem calculate_node_pages_counts:
  assumes "wf_type t" "\<forall>r \<in> set (rgns t). rgn_end r \<le> 2 ^ 64 - 4096" "lo \<le> hi" "s \<le> e"
    and "calculate_node_pages t lo hi s e = Some (z, absent, spanned)"
  shows "z = max s lo \<and> spanned = min e hi - max s lo
    \<and> unat (spanned - absent) = card {p. unat (max s lo) \<le> p \<and> p < unat (min e hi) \<and> (\<exists>r \<in> set (rgns t). page_bytes p \<subseteq> rgn_addrs r)}"
  using node_pages_present [OF assms] by blast

theorem calculate_node_pages_counts_witness:
  "calculate_node_pages (memory boot_mb) 1 0x1000 0 32 = Some (1, 0, 31)
     \<and> (1 :: ulong) = max 0 1 \<and> (31 :: ulong) = min 32 0x1000 - max 0 1
     \<and> unat ((31 :: ulong) - 0) = card {p. unat (max 0 1 :: ulong) \<le> p \<and> p < unat (min 32 0x1000 :: ulong)
          \<and> (\<exists>r \<in> set (rgns (memory boot_mb)). page_bytes p \<subseteq> rgn_addrs r)}"
proof -
  have c: "calculate_node_pages (memory boot_mb) 1 0x1000 0 32 = Some (1, 0, 31)" by code_simp
  have "wf_type (memory boot_mb)" using boot_mb_facts(1) by (simp add: mb_ok_def)
  from calculate_node_pages_counts [OF this _ _ _ c] show ?thesis
    using c boot_mb_facts(2) by (simp add: rgn_end_def)
qed

end
