(* ===== verification/Cstring.thy ===== *)
theory Cstring
  imports Prelude
begin

unbundle bit_operations_syntax

text \<open>
  The string and memory routines of \<^verbatim>\<open>mykernel/lib/string/string.c\<close>. Memory is a function from 64-bit
  addresses to bytes; pointers wrap like the machine's. A loop that stops only at a NUL byte may
  run forever and is an optional value, with \<open>None\<close> turned into \<open>Hang\<close> at the end. \<open>cstr m p xs\<close> says
  that the string \<open>xs\<close> with its NUL is at \<open>p\<close>.
\<close>

type_synonym bytes = "ulong \<Rightarrow> u8"

section \<open>Strings\<close>

partial_function (option) strlen_loop :: "bytes \<Rightarrow> ulong \<Rightarrow> ulong option" where
  "strlen_loop m sc = (if m sc \<noteq> 0 then strlen_loop m (sc + 1) else Some sc)"

definition ended :: "'a option \<Rightarrow> 'a outcome" where
  "ended r = (case r of None \<Rightarrow> Hang | Some x \<Rightarrow> Ret x)"

definition strlen :: "bytes \<Rightarrow> ulong \<Rightarrow> ulong outcome" where
  "strlen m s = bnd (ended (strlen_loop m s)) (\<lambda>sc. Ret (sc - s))"

fun strnlen_loop :: "bytes \<Rightarrow> ulong \<Rightarrow> nat \<Rightarrow> ulong" where
  "strnlen_loop m sc 0 = sc"
| "strnlen_loop m sc (Suc count) = (if m sc \<noteq> 0 then strnlen_loop m (sc + 1) count else sc)"

definition strnlen :: "bytes \<Rightarrow> ulong \<Rightarrow> ulong \<Rightarrow> ulong" where
  "strnlen m s count = strnlen_loop m s (unat count) - s"

partial_function (option) copy_loop :: "ulong \<Rightarrow> ulong \<Rightarrow> bytes \<Rightarrow> bytes option" where
  "copy_loop dest src m =
     (let c = m src; m = m(dest := c)
      in if c \<noteq> 0 then copy_loop (dest + 1) (src + 1) m else Some m)"

definition strcpy :: "ulong \<Rightarrow> ulong \<Rightarrow> bytes \<Rightarrow> (ulong \<times> bytes) outcome" where
  "strcpy dest src m = bnd (ended (copy_loop dest src m)) (\<lambda>m. Ret (dest, m))"

fun strncpy_loop :: "ulong \<Rightarrow> ulong \<Rightarrow> nat \<Rightarrow> bytes \<Rightarrow> bytes" where
  "strncpy_loop tmp src 0 m = m"
| "strncpy_loop tmp src (Suc count) m =
     (let c = m src in strncpy_loop (tmp + 1) (if c \<noteq> 0 then src + 1 else src) count (m(tmp := c)))"

definition strncpy :: "ulong \<Rightarrow> ulong \<Rightarrow> ulong \<Rightarrow> bytes \<Rightarrow> ulong \<times> bytes" where
  "strncpy dest src count m = (dest, strncpy_loop dest src (unat count) m)"

definition E2BIG :: int where "E2BIG = 7"
definition INT_MAX :: nat where "INT_MAX = 2 ^ 31 - 1"

text \<open>The word-at-a-time part of \<^verbatim>\<open>strscpy\<close> is commented out in the source, so \<^verbatim>\<open>max\<close> has no effect.\<close>

fun strscpy_loop :: "ulong \<Rightarrow> ulong \<Rightarrow> nat \<Rightarrow> nat \<Rightarrow> bytes \<Rightarrow> int \<times> bytes" where
  "strscpy_loop dest src res 0 m = (- E2BIG, if res \<noteq> 0 then m(dest + of_nat res - 1 := 0) else m)"
| "strscpy_loop dest src res (Suc count) m =
     (let c = m (src + of_nat res); m = m(dest + of_nat res := c)
      in if c = 0 then (int res, m) else strscpy_loop dest src (Suc res) count m)"

definition strscpy :: "ulong \<Rightarrow> ulong \<Rightarrow> ulong \<Rightarrow> bytes \<Rightarrow> int \<times> bytes" where
  "strscpy dest src count m =
     (if count = 0 \<or> unat count > INT_MAX then (- E2BIG, m) else strscpy_loop dest src 0 (unat count) m)"

definition strcat :: "ulong \<Rightarrow> ulong \<Rightarrow> bytes \<Rightarrow> (ulong \<times> bytes) outcome" where
  "strcat dest src m =
     bnd (ended (strlen_loop m dest)) (\<lambda>d. bnd (ended (copy_loop d src m)) (\<lambda>m. Ret (dest, m)))"

partial_function (option) strcmp_loop :: "bytes \<Rightarrow> ulong \<Rightarrow> ulong \<Rightarrow> int option" where
  "strcmp_loop m cs ct =
     (let c1 = m cs; c2 = m ct
      in if c1 \<noteq> c2 then Some (if c1 < c2 then -1 else 1)
         else if c1 = 0 then Some 0 else strcmp_loop m (cs + 1) (ct + 1))"

definition strcmp :: "bytes \<Rightarrow> ulong \<Rightarrow> ulong \<Rightarrow> int outcome" where
  "strcmp m cs ct = ended (strcmp_loop m cs ct)"

fun strncmp_loop :: "bytes \<Rightarrow> ulong \<Rightarrow> ulong \<Rightarrow> nat \<Rightarrow> int" where
  "strncmp_loop m cs ct 0 = 0"
| "strncmp_loop m cs ct (Suc count) =
     (let c1 = m cs; c2 = m ct
      in if c1 \<noteq> c2 then (if c1 < c2 then -1 else 1)
         else if c1 = 0 then 0 else strncmp_loop m (cs + 1) (ct + 1) count)"

definition strncmp :: "bytes \<Rightarrow> ulong \<Rightarrow> ulong \<Rightarrow> ulong \<Rightarrow> int" where
  "strncmp m cs ct count = strncmp_loop m cs ct (unat count)"

text \<open>A pointer that may be \<^verbatim>\<open>NULL\<close> is an option. The character argument is converted to \<^verbatim>\<open>char\<close>.\<close>

partial_function (option) strchr_loop :: "bytes \<Rightarrow> ulong \<Rightarrow> u8 \<Rightarrow> ulong option option" where
  "strchr_loop m s c =
     (if m s \<noteq> c then (if m s = 0 then Some None else strchr_loop m (s + 1) c) else Some (Some s))"

definition strchr :: "bytes \<Rightarrow> ulong \<Rightarrow> u32 \<Rightarrow> ulong option outcome" where
  "strchr m s c = ended (strchr_loop m s (ucast c))"

partial_function (option) strrchr_loop :: "bytes \<Rightarrow> ulong \<Rightarrow> u8 \<Rightarrow> ulong option \<Rightarrow> ulong option option" where
  "strrchr_loop m s c lst =
     (let lst = (if m s = c then Some s else lst)
      in if m s \<noteq> 0 then strrchr_loop m (s + 1) c lst else Some lst)"

definition strrchr :: "bytes \<Rightarrow> ulong \<Rightarrow> u32 \<Rightarrow> ulong option outcome" where
  "strrchr m s c = ended (strrchr_loop m s (ucast c) None)"

section \<open>Memory\<close>

fun memset_loop :: "ulong \<Rightarrow> u8 \<Rightarrow> nat \<Rightarrow> bytes \<Rightarrow> bytes" where
  "memset_loop xs c 0 m = m"
| "memset_loop xs c (Suc count) m = memset_loop (xs + 1) c count (m(xs := c))"

definition memset :: "ulong \<Rightarrow> u32 \<Rightarrow> ulong \<Rightarrow> bytes \<Rightarrow> ulong \<times> bytes" where
  "memset s c count m = (s, memset_loop s (ucast c) (unat count) m)"

fun memcpy_loop :: "ulong \<Rightarrow> ulong \<Rightarrow> nat \<Rightarrow> bytes \<Rightarrow> bytes" where
  "memcpy_loop tmp s 0 m = m"
| "memcpy_loop tmp s (Suc count) m = memcpy_loop (tmp + 1) (s + 1) count (m(tmp := m s))"

definition memcpy :: "ulong \<Rightarrow> ulong \<Rightarrow> ulong \<Rightarrow> bytes \<Rightarrow> ulong \<times> bytes" where
  "memcpy dest src count m = (dest, memcpy_loop dest src (unat count) m)"

fun memmove_back :: "ulong \<Rightarrow> ulong \<Rightarrow> nat \<Rightarrow> bytes \<Rightarrow> bytes" where
  "memmove_back tmp s 0 m = m"
| "memmove_back tmp s (Suc count) m = memmove_back (tmp - 1) (s - 1) count (m(tmp - 1 := m (s - 1)))"

definition memmove :: "ulong \<Rightarrow> ulong \<Rightarrow> ulong \<Rightarrow> bytes \<Rightarrow> ulong \<times> bytes" where
  "memmove dest src count m =
     (dest, if dest \<le> src then memcpy_loop dest src (unat count) m
            else memmove_back (dest + count) (src + count) (unat count) m)"

fun memcmp_loop :: "bytes \<Rightarrow> ulong \<Rightarrow> ulong \<Rightarrow> nat \<Rightarrow> int" where
  "memcmp_loop m su1 su2 0 = 0"
| "memcmp_loop m su1 su2 (Suc count) =
     (let res = uint (m su1) - uint (m su2) in if res \<noteq> 0 then res else memcmp_loop m (su1 + 1) (su2 + 1) count)"

definition memcmp :: "bytes \<Rightarrow> ulong \<Rightarrow> ulong \<Rightarrow> ulong \<Rightarrow> int" where
  "memcmp m cs ct count = memcmp_loop m cs ct (unat count)"

fun memchr_loop :: "bytes \<Rightarrow> ulong \<Rightarrow> u8 \<Rightarrow> nat \<Rightarrow> ulong option" where
  "memchr_loop m p c 0 = None"
| "memchr_loop m p c (Suc n) = (if c = m p then Some p else memchr_loop m (p + 1) c n)"

definition memchr :: "bytes \<Rightarrow> ulong \<Rightarrow> u32 \<Rightarrow> ulong \<Rightarrow> ulong option" where
  "memchr m s c n = memchr_loop m s (ucast c) (unat n)"

declare strlen_loop.simps [code] copy_loop.simps [code] strcmp_loop.simps [code]
  strchr_loop.simps [code] strrchr_loop.simps [code]

section \<open>Strings in memory\<close>

definition at :: "bytes \<Rightarrow> ulong \<Rightarrow> u8 list \<Rightarrow> bool" where
  "at m p xs \<longleftrightarrow> (\<forall>i < length xs. m (p + of_nat i) = xs ! i)"

definition cstr :: "bytes \<Rightarrow> ulong \<Rightarrow> u8 list \<Rightarrow> bool" where
  "cstr m p xs \<longleftrightarrow> at m p (xs @ [0]) \<and> 0 \<notin> set xs"

definition span :: "ulong \<Rightarrow> nat \<Rightarrow> ulong set" where
  "span p n = (\<lambda>i. p + of_nat i) ` {..<n}"

lemma at_Nil [simp]: "at m p []"
  by (simp add: at_def)

lemma at_Cons: "at m p (x # xs) \<longleftrightarrow> m p = x \<and> at m (p + 1) xs"
  by (auto simp: at_def less_Suc_eq_0_disj nth_Cons' add.assoc)

lemma cstr_Nil: "cstr m p [] \<longleftrightarrow> m p = 0"
  by (simp add: cstr_def at_Cons)

lemma cstr_Cons: "cstr m p (x # xs) \<longleftrightarrow> x \<noteq> 0 \<and> m p = x \<and> cstr m (p + 1) xs"
  by (auto simp: cstr_def at_Cons)

lemma span_0 [simp]: "span p 0 = {}"
  by (simp add: span_def)

lemma span_Suc: "span p (Suc n) = insert p (span (p + 1) n)"
proof -
  have "{..<Suc n} = insert 0 (Suc ` {..<n})" by (rule lessThan_Suc_eq_insert_0)
  then show ?thesis by (simp add: span_def image_image add.assoc)
qed

lemma at_frame: "at m p xs \<Longrightarrow> (\<And>q. q \<in> span p (length xs) \<Longrightarrow> m' q = m q) \<Longrightarrow> at m' p xs"
  by (auto simp: at_def span_def)

text \<open>A string is shorter than the address space.\<close>

lemma cstr_short:
  assumes "cstr m p xs" shows "length xs < 2 ^ 64"
proof (rule ccontr)
  assume "\<not> ?thesis"
  then have len: "2 ^ 64 \<le> length xs" by simp
  define k where "k = length xs mod 2 ^ 64"
  have k: "k < length xs" using len unfolding k_def by (intro less_le_trans [OF mod_less_divisor]) simp_all
  have "(of_nat k :: ulong) = of_nat (length xs)"
    unfolding k_def by (simp add: word_unat_eq_iff unsigned_of_nat take_bit_eq_mod)
  then have "m (p + of_nat k) = m (p + of_nat (length xs))" by simp
  moreover have "m (p + of_nat (length xs)) = 0"
    using assms by (auto simp: cstr_def at_def nth_append dest: spec [of _ "length xs"])
  moreover have "m (p + of_nat k) = xs ! k"
    using assms k by (auto simp: cstr_def at_def nth_append dest: spec [of _ k])
  ultimately show False using assms k by (metis cstr_def nth_mem)
qed

lemma span_disjoint_later:
  assumes "Suc n \<le> 2 ^ 64" shows "p \<notin> span (p + 1) n"
proof
  assume "p \<in> span (p + 1) n"
  then obtain i where "i < n" "(1 + of_nat i :: ulong) = 0" by (auto simp: span_def add.assoc)
  then have "(of_nat (Suc i) :: ulong) = 0" "Suc i < 2 ^ 64" using assms by simp_all
  then show False using unat_of_nat_small [of "Suc i"] by simp
qed

section \<open>Copying and comparing strings\<close>

lemma strlen_loop_cstr: "cstr m p xs \<Longrightarrow> strlen_loop m p = Some (p + of_nat (length xs))"
proof (induction xs arbitrary: p)
  case Nil
  then show ?case by (subst strlen_loop.simps) (simp add: cstr_Nil)
next
  case (Cons x xs)
  then have "strlen_loop m (p + 1) = Some (p + 1 + of_nat (length xs))" by (simp add: cstr_Cons)
  then show ?case using Cons.prems by (subst strlen_loop.simps) (simp add: cstr_Cons add.assoc)
qed

lemma copy_loop_cstr:
  assumes "cstr m src xs" "span dest (Suc (length xs)) \<inter> span src (Suc (length xs)) = {}"
  shows "\<exists>m'. copy_loop dest src m = Some m' \<and> at m' dest (xs @ [0]) \<and> (\<forall>q. q \<notin> span dest (Suc (length xs)) \<longrightarrow> m' q = m q)"
  using assms
proof (induction xs arbitrary: m dest src)
  case Nil
  then show ?case by (subst copy_loop.simps) (simp add: cstr_Nil Let_def at_Cons span_Suc)
next
  case (Cons x xs)
  define m1 where "m1 = m(dest := x)"
  have x: "x \<noteq> 0" "m src = x" "cstr m (src + 1) xs" using Cons.prems(1) by (simp_all add: cstr_Cons)
  have dis: "span (dest + 1) (Suc (length xs)) \<inter> span (src + 1) (Suc (length xs)) = {}" "dest \<notin> span (src + 1) (Suc (length xs))"
    using Cons.prems(2) by (auto simp: span_Suc [of _ "Suc (length xs)"])
  have "cstr m1 (src + 1) xs"
    using x(3) dis(2) unfolding cstr_def m1_def by (auto intro: at_frame)
  from Cons.IH [OF this dis(1)] obtain m' where
    m': "copy_loop (dest + 1) (src + 1) m1 = Some m'" "at m' (dest + 1) (xs @ [0])"
    "\<And>q. q \<notin> span (dest + 1) (Suc (length xs)) \<Longrightarrow> m' q = m1 q" by blast
  have "Suc (length (x # xs)) \<le> 2 ^ 64" using cstr_short [OF Cons.prems(1)] by linarith
  then have nd: "dest \<notin> span (dest + 1) (Suc (length xs))" by (intro span_disjoint_later) simp
  have "copy_loop dest src m = Some m'"
    using m'(1) x by (subst copy_loop.simps) (simp add: Let_def m1_def)
  moreover have "at m' dest ((x # xs) @ [0])" using m'(2) m'(3) [OF nd] by (simp add: at_Cons m1_def)
  moreover have "m' q = m q" if "q \<notin> span dest (Suc (length (x # xs)))" for q
    using that m'(3) [of q] by (simp add: span_Suc [of dest] m1_def)
  ultimately show ?case by blast
qed

lemma strcmp_loop_cstr:
  assumes "cstr m p xs" "cstr m q ys"
  shows "strcmp_loop m p q = Some (if xs = ys then 0 else if (xs, ys) \<in> lexord {(a, b). a < b} then -1 else 1)"
  using assms
proof (induction xs arbitrary: p q ys)
  case Nil
  then show ?case
    by (subst strcmp_loop.simps) (cases ys; auto simp: cstr_Nil cstr_Cons Let_def word_less_nat_alt unat_gt_0)
next
  case (Cons x xs)
  have x: "x \<noteq> 0" "m p = x" "cstr m (p + 1) xs" using Cons.prems(1) by (simp_all add: cstr_Cons)
  show ?case
  proof (cases ys)
    case Nil
    then show ?thesis using x Cons.prems(2) by (subst strcmp_loop.simps) (simp add: cstr_Nil Let_def)
  next
    case (Cons y ys')
    then have y: "m q = y" "cstr m (q + 1) ys'" using Cons.prems(2) by (simp_all add: cstr_Cons)
    show ?thesis
      using Cons.IH [OF x(3) y(2)] x y(1) by (subst strcmp_loop.simps) (auto simp: Cons Let_def)
  qed
qed

section \<open>Copying bounded regions\<close>

lemma span_mono: "k \<le> n \<Longrightarrow> span p k \<subseteq> span p n"
  by (auto simp: span_def)

lemma span_nth: "i < n \<Longrightarrow> p + of_nat i \<in> span p n"
  by (simp add: span_def)

lemma at_snoc: "at m p (xs @ [x]) \<longleftrightarrow> at m p xs \<and> m (p + of_nat (length xs)) = x"
  by (auto simp: at_def nth_append less_Suc_eq)

lemma at_append: "at m p xs \<Longrightarrow> at m (p + of_nat (length xs)) ys \<Longrightarrow> at m p (xs @ ys)"
  by (induction xs arbitrary: p) (simp_all add: at_Cons add.assoc)

lemma cstr_nth: "cstr m p xs \<Longrightarrow> i \<le> length xs \<Longrightarrow> m (p + of_nat i) = (xs @ [0]) ! i"
  by (simp add: cstr_def at_def)

lemma of_nat_inj_64: "i < 2 ^ 64 \<Longrightarrow> j < 2 ^ 64 \<Longrightarrow> (of_nat i :: ulong) = of_nat j \<longleftrightarrow> i = j"
  using unat_of_nat_small by metis

lemma at_upd: "at m p xs \<Longrightarrow> length xs \<le> i \<Longrightarrow> i < 2 ^ 64 \<Longrightarrow> at (m(p + of_nat i := x)) p xs"
  using of_nat_inj_64 [of _ i] by (auto simp: at_def dest: less_le_trans)

lemma strscpy_loop_ok:
  assumes "cstr m src xs" "res \<le> length xs" "at m dest (take res xs)" "0 < res + count" "res + count < 2 ^ 64"
    and "span dest (res + count) \<inter> span src (Suc (length xs)) = {}"
  shows "\<exists>m'. strscpy_loop dest src res count m = (if length xs < res + count then int (length xs) else - E2BIG, m')
     \<and> at m' dest (take (res + count - 1) xs @ [0]) \<and> (\<forall>q. q \<notin> span dest (res + count) \<longrightarrow> m' q = m q)"
  using assms
proof (induction count arbitrary: res m)
  case 0
  define m' where "m' = m(dest + of_nat (res - 1) := 0)"
  have r: "dest + of_nat res - 1 = dest + of_nat (res - 1)" using 0(4) by (simp add: of_nat_diff)
  have "at m' dest (take (res - 1) xs)"
    unfolding m'_def using 0 by (intro at_upd) (auto simp: at_def)
  then have "at m' dest (take (res - 1) xs @ [0])" using 0(2,4) by (simp add: at_snoc m'_def)
  moreover have "m' q = m q" if "q \<notin> span dest res" for q
    using that 0(4) span_nth [of "res - 1" res dest] by (auto simp: m'_def)
  moreover have "strscpy_loop dest src res 0 m = (- E2BIG, m')" using 0(4) unfolding m'_def r [symmetric] by simp
  moreover have "\<not> length xs < res + 0" using 0(2) by simp
  ultimately show ?case by (intro exI [of _ m']) simp
next
  case (Suc count)
  define c where "c = (xs @ [0]) ! res"
  have c: "m (src + of_nat res) = c" using cstr_nth [OF Suc.prems(1,2)] by (simp add: c_def)
  define m1 where "m1 = m(dest + of_nat res := c)"
  have step: "strscpy_loop dest src res (Suc count) m = (if c = 0 then (int res, m1) else strscpy_loop dest src (Suc res) count m1)"
    using c by (simp add: Let_def m1_def)
  have fr: "m1 q = m q" if "q \<notin> span dest (res + Suc count)" for q
    using that span_nth [of res "res + Suc count" dest] by (auto simp: m1_def)
  have "at m1 dest (take res xs)" unfolding m1_def using Suc.prems by (intro at_upd) simp_all
  then have ac: "at m1 dest (take res xs @ [c])" using Suc.prems(2) by (simp add: at_snoc m1_def)
  show ?case
  proof (cases "res = length xs")
    case True
    then have "c = 0" by (simp add: c_def)
    then show ?thesis using step True ac fr by auto
  next
    case False
    then have rl: "res < length xs" using Suc.prems(2) by simp
    then have cx: "c = xs ! res" by (simp add: c_def nth_append)
    then have "c \<noteq> 0" using Suc.prems(1) rl by (metis cstr_def nth_mem)
    have "m1 q = m q" if "q \<in> span src (Suc (length xs))" for q using that fr Suc.prems(6) by blast
    then have c1: "cstr m1 src xs" using Suc.prems(1) unfolding cstr_def by (auto intro!: at_frame [of m])
    have "at m1 dest (take (Suc res) xs)" using ac rl cx by (simp add: take_Suc_conv_app_nth)
    moreover have "0 < Suc res + count" "Suc res + count < 2 ^ 64" using Suc.prems(5) by simp_all
    moreover have "span dest (Suc res + count) \<inter> span src (Suc (length xs)) = {}" using Suc.prems(6) by simp
    ultimately obtain m' where
      "strscpy_loop dest src (Suc res) count m1 = (if length xs < Suc res + count then int (length xs) else - E2BIG, m')"
      "at m' dest (take (Suc res + count - 1) xs @ [0])" "\<forall>q. q \<notin> span dest (Suc res + count) \<longrightarrow> m' q = m1 q"
      using Suc.IH [OF c1] rl by (meson Suc_leI)
    then show ?thesis using step \<open>c \<noteq> 0\<close> fr by auto
  qed
qed

lemma unat_offset:
  assumes "unat (p :: ulong) + n \<le> 2 ^ 64" "i < n"
  shows "unat (p + of_nat i) = unat p + i"
  using assms by (simp add: unat_word_ariths unsigned_of_nat take_bit_nat_eq_self)

lemma unat_diff_offset:
  assumes "unat (q :: ulong) + n \<le> 2 ^ 64" "unat (p :: ulong) \<le> unat x" "unat x < unat p + n"
  shows "unat (q + (x - p)) = unat q + (unat x - unat p)"
proof -
  have "unat (x - p) = unat x - unat p" using assms(2) by (simp add: unat_sub word_le_nat_alt)
  then have "x - p = of_nat (unat x - unat p)" by (metis unat_word_inv)
  then show ?thesis using unat_offset [OF assms(1), of "unat x - unat p"] assms(2,3) by simp
qed

definition moved :: "ulong \<Rightarrow> ulong \<Rightarrow> nat \<Rightarrow> bytes \<Rightarrow> bytes" where
  "moved dest src n m = (\<lambda>x. if unat dest \<le> unat x \<and> unat x < unat dest + n then m (src + (x - dest)) else m x)"

lemma memcpy_loop_moved:
  assumes "unat dest + n \<le> 2 ^ 64" "unat src + n \<le> 2 ^ 64" "dest \<le> src"
  shows "memcpy_loop dest src n m = moved dest src n m"
  using assms
proof (induction n arbitrary: dest src m)
  case 0
  then show ?case by (auto simp: moved_def fun_eq_iff)
next
  case (Suc n)
  define m1 where "m1 = m(dest := m src)"
  have "memcpy_loop (dest + 1) (src + 1) n m1 = moved dest src (Suc n) m"
  proof (cases "n = 0")
    case True
    have "(unat dest \<le> unat x \<and> unat x < unat dest + Suc 0) = (x = dest)" for x
      by (simp only: word_unat_eq_iff) presburger
    then have "moved dest src (Suc 0) m x = m1 x" for x by (simp only: moved_def m1_def) simp
    then show ?thesis using True by (simp add: fun_eq_iff)
  next
    case False
    have d: "unat (dest + 1) = Suc (unat dest)" "unat (src + 1) = Suc (unat src)"
      using unat_offset [OF Suc.prems(1), of 1] unat_offset [OF Suc.prems(2), of 1] False by simp_all
    then have "memcpy_loop (dest + 1) (src + 1) n m1 = moved (dest + 1) (src + 1) n m1"
      using Suc.prems by (intro Suc.IH) (simp_all add: word_le_nat_alt)
    also have "\<dots> = moved dest src (Suc n) m"
    proof
      fix x
      show "moved (dest + 1) (src + 1) n m1 x = moved dest src (Suc n) m x"
      proof (cases "unat dest < unat x \<and> unat x < unat dest + Suc n")
        case True
        then have "unat (src + (x - dest)) = unat src + (unat x - unat dest)"
          using Suc.prems by (intro unat_diff_offset [where n = "Suc n"]) simp_all
        then have "unat (src + (x - dest)) \<noteq> unat dest" using True Suc.prems(3) unfolding word_le_nat_alt by linarith
        then have "src + (x - dest) \<noteq> dest" by metis
        then show ?thesis using True d by (simp add: moved_def m1_def algebra_simps)
      next
        case False
        show ?thesis
        proof (cases "x = dest")
          case False
          then have "unat x \<noteq> unat dest" by (metis unat_word_inv)
          then have "\<not> (unat (dest + 1) \<le> unat x \<and> unat x < unat (dest + 1) + n)" "\<not> (unat dest \<le> unat x \<and> unat x < unat dest + Suc n)"
            using \<open>\<not> (unat dest < unat x \<and> unat x < unat dest + Suc n)\<close> d by linarith+
          then show ?thesis using False by (simp only: moved_def m1_def if_False fun_upd_other simp_thms)
        qed (use d in \<open>simp add: moved_def m1_def\<close>)
      qed
    qed
    finally show ?thesis .
  qed
  then show ?case by (simp add: m1_def)
qed

lemma memmove_back_moved:
  assumes "unat dest + n \<le> 2 ^ 64" "unat src + n \<le> 2 ^ 64" "src < dest"
  shows "memmove_back (dest + of_nat n) (src + of_nat n) n m = moved dest src n m"
  using assms
proof (induction n arbitrary: m)
  case 0
  then show ?case by (auto simp: moved_def fun_eq_iff)
next
  case (Suc n)
  define m1 where "m1 = m(dest + of_nat n := m (src + of_nat n))"
  have step: "memmove_back (dest + of_nat (Suc n)) (src + of_nat (Suc n)) (Suc n) m = memmove_back (dest + of_nat n) (src + of_nat n) n m1"
    by (simp add: m1_def algebra_simps)
  also have "\<dots> = moved dest src n m1" using Suc.prems by (intro Suc.IH) simp_all
  also have "\<dots> = moved dest src (Suc n) m"
  proof
    fix x :: ulong
    have dn: "unat (dest + of_nat n) = unat dest + n" using Suc.prems by (intro unat_offset [of _ "Suc n"]) simp_all
    consider "unat dest \<le> unat x \<and> unat x < unat dest + n" | "unat x = unat dest + n"
      | "unat x < unat dest \<or> unat dest + n < unat x" by linarith
    then show "moved dest src n m1 x = moved dest src (Suc n) m x"
    proof cases
      case 1
      then have "unat (src + (x - dest)) = unat src + (unat x - unat dest)"
        using Suc.prems by (intro unat_diff_offset [where n = "Suc n"]) simp_all
      then have "unat (src + (x - dest)) \<noteq> unat (dest + of_nat n)" using 1 dn Suc.prems(3) unfolding word_less_nat_alt by linarith
      then have "src + (x - dest) \<noteq> dest + of_nat n" by metis
      then show ?thesis using 1 by (simp add: moved_def m1_def)
    next
      case 2
      then have "x = dest + of_nat n" using dn by (simp add: word_unat_eq_iff)
      then show ?thesis using 2 by (simp add: moved_def m1_def)
    next
      case 3
      then have "x \<noteq> dest + of_nat n" using dn by auto
      then show ?thesis using 3 by (auto simp: moved_def m1_def)
    qed
  qed
  finally show ?case .
qed

lemma moved_at: "unat dest + n \<le> 2 ^ 64 \<Longrightarrow> i < n \<Longrightarrow> moved dest src n m (dest + of_nat i) = m (src + of_nat i)"
  by (simp add: moved_def unat_offset [where n = n])

lemma moved_outside:
  assumes "x \<notin> span dest n" shows "moved dest src n m x = m x"
proof -
  have "\<not> (unat dest \<le> unat x \<and> unat x < unat dest + n)"
  proof
    assume "unat dest \<le> unat x \<and> unat x < unat dest + n"
    then have "x = dest + of_nat (unat x - unat dest)" "unat x - unat dest < n"
      by (auto simp: of_nat_diff)
    then show False using assms span_nth by metis
  qed
  then show ?thesis by (simp only: moved_def if_False)
qed

section \<open>Properties\<close>

text \<open>
  C28. \<^verbatim>\<open>memmove\<close> copes with overlap: for areas that do not run past the end of the address space
  the destination holds the bytes the source held before, whichever way they overlap, and no other
  byte changes.
\<close>

theorem cstring_memmove_overlap:
  assumes "unat dest + unat count \<le> 2 ^ 64" "unat src + unat count \<le> 2 ^ 64"
  shows "\<exists>m'. memmove dest src count m = (dest, m')
    \<and> (\<forall>i < unat count. m' (dest + of_nat i) = m (src + of_nat i)) \<and> (\<forall>x. x \<notin> span dest (unat count) \<longrightarrow> m' x = m x)"
proof -
  have "memmove dest src count m = (dest, moved dest src (unat count) m)"
    using memcpy_loop_moved [OF assms] memmove_back_moved [OF assms]
    by (simp add: memmove_def not_le)
  then show ?thesis using moved_at [OF assms(1)] moved_outside by blast
qed

theorem cstring_memmove_overlap_witness:
  "\<exists>m'. memmove 0x1001 0x1000 3 (\<lambda>x. ucast x) = (0x1001, m')
    \<and> (\<forall>i < unat (3 :: ulong). m' (0x1001 + of_nat i) = ucast ((0x1000 :: ulong) + of_nat i))
    \<and> (\<forall>x. x \<notin> span 0x1001 (unat (3 :: ulong)) \<longrightarrow> m' x = ucast x)"
  by (rule cstring_memmove_overlap) simp_all

text \<open>
  C29. \<^verbatim>\<open>strscpy\<close> copies a string into a buffer of \<open>count\<close> bytes it does not overlap: what is in the buffer
  afterwards is a NUL-terminated prefix, the whole string with its length as the result if it
  fits, the first \<open>count - 1\<close> bytes and \<^verbatim>\<open>-E2BIG\<close> if it does not, and nothing outside the buffer
  changes.
\<close>

theorem cstring_strscpy_fits:
  assumes "cstr m src xs" "0 < count" "unat count \<le> INT_MAX"
    and "span dest (unat count) \<inter> span src (Suc (length xs)) = {}"
  shows "\<exists>m'. strscpy dest src count m = (if length xs < unat count then int (length xs) else - E2BIG, m')
    \<and> cstr m' dest (take (unat count - 1) xs) \<and> (\<forall>x. x \<notin> span dest (unat count) \<longrightarrow> m' x = m x)"
proof -
  have "0 < 0 + unat count" "0 + unat count < 2 ^ 64" using assms(2,3) by (simp_all add: INT_MAX_def unat_gt_0)
  with strscpy_loop_ok [of m src xs 0 dest "unat count"] assms(1,4) obtain m' where
    "strscpy_loop dest src 0 (unat count) m = (if length xs < unat count then int (length xs) else - E2BIG, m')"
    "at m' dest (take (unat count - 1) xs @ [0])" "\<forall>x. x \<notin> span dest (unat count) \<longrightarrow> m' x = m x" by auto
  moreover have "0 \<notin> set (take (unat count - 1) xs)" using assms(1) by (auto simp: cstr_def dest: in_set_takeD)
  ultimately show ?thesis using assms(2,3) by (auto simp: strscpy_def cstr_def)
qed

theorem cstring_strscpy_fits_witness:
  "\<exists>m'. strscpy 0x2000 0x1000 4 (\<lambda>x. if x < 0x1005 then 65 else 0) = (if length [65, 65, 65, 65, 65 :: u8] < unat (4 :: ulong) then 5 else - E2BIG, m')
    \<and> cstr m' 0x2000 (take (unat (4 :: ulong) - 1) [65, 65, 65, 65, 65])
    \<and> (\<forall>x. x \<notin> span 0x2000 (unat (4 :: ulong)) \<longrightarrow> m' x = (if x < 0x1005 then 65 else 0))"
proof -
  have "cstr (\<lambda>x. if x < 0x1005 then 65 else 0) 0x1000 [65, 65, 65, 65, 65]"
    by (simp add: cstr_Cons cstr_Nil)
  moreover have "span 0x2000 (unat (4 :: ulong)) \<inter> span 0x1000 (Suc (length [65, 65, 65, 65, 65 :: u8])) = {}"
    by (simp add: span_def lessThan_nat_numeral lessThan_Suc)
  ultimately show ?thesis
    using cstring_strscpy_fits [of "\<lambda>x. if x < 0x1005 then 65 else 0" "0x1000" "[65, 65, 65, 65, 65]" 4 "0x2000"]
    by (simp add: INT_MAX_def)
qed

text \<open>
  C36. \<^verbatim>\<open>strcmp\<close> orders strings as their byte lists are ordered lexicographically: it ends, with 0
  exactly on equal strings, -1 if the first comes first and 1 otherwise.
\<close>

theorem cstring_strcmp_lexicographic:
  assumes "cstr m cs xs" "cstr m ct ys"
  shows "strcmp m cs ct = Ret (if xs = ys then 0 else if (xs, ys) \<in> lexord {(a, b). a < b} then -1 else 1)"
  using strcmp_loop_cstr [OF assms] by (simp add: strcmp_def ended_def)

theorem cstring_strcmp_lexicographic_witness:
  "strcmp (\<lambda>x. if x = 0x10 then 65 else if x = 0x20 then 65 else if x = 0x21 then 66 else 0) 0x10 0x20 =
     Ret (if [65] = [65, 66 :: u8] then 0 else if ([65], [65, 66]) \<in> lexord {(a :: u8, b). a < b} then -1 else 1)"
  by (rule cstring_strcmp_lexicographic) (simp_all add: cstr_Cons cstr_Nil)

text \<open>
  \<^verbatim>\<open>strcat\<close> appends: with room behind the destination that the source does not overlap, the
  destination is the concatenation afterwards, and \<^verbatim>\<open>strlen\<close> returns the sum of the lengths.
\<close>

theorem cstring_strcat_appends:
  assumes "cstr m dest xs" "cstr m src ys"
    and "span dest (length xs) \<inter> span (dest + of_nat (length xs)) (Suc (length ys)) = {}"
    and "span (dest + of_nat (length xs)) (Suc (length ys)) \<inter> span src (Suc (length ys)) = {}"
  shows "\<exists>m'. strcat dest src m = Ret (dest, m') \<and> cstr m' dest (xs @ ys) \<and> strlen m' dest = Ret (of_nat (length xs + length ys))
    \<and> (\<forall>x. x \<notin> span (dest + of_nat (length xs)) (Suc (length ys)) \<longrightarrow> m' x = m x)"
proof -
  from copy_loop_cstr [OF assms(2,4)] obtain m' where
    m': "copy_loop (dest + of_nat (length xs)) src m = Some m'" "at m' (dest + of_nat (length xs)) (ys @ [0])"
    "\<And>q. q \<notin> span (dest + of_nat (length xs)) (Suc (length ys)) \<Longrightarrow> m' q = m q" by blast
  have "at m dest xs" using assms(1) by (simp add: cstr_def at_snoc)
  moreover have "m' q = m q" if "q \<in> span dest (length xs)" for q
  proof -
    have "q \<notin> span (dest + of_nat (length xs)) (Suc (length ys))" using that assms(3) by blast
    then show ?thesis by (rule m'(3))
  qed
  ultimately have "at m' dest xs" by (rule at_frame)
  then have "at m' dest (xs @ (ys @ [0]))" using m'(2) by (rule at_append)
  then have c: "cstr m' dest (xs @ ys)" using assms(1,2) by (simp add: cstr_def)
  moreover have "strlen m' dest = Ret (of_nat (length xs + length ys))"
    using strlen_loop_cstr [OF c] by (simp add: strlen_def ended_def)
  moreover have "strcat dest src m = Ret (dest, m')"
    using strlen_loop_cstr [OF assms(1)] m'(1) by (simp add: strcat_def ended_def)
  ultimately show ?thesis using m'(3) by blast
qed

theorem cstring_strcat_appends_witness:
  "\<exists>m'. strcat 0x10 0x20 (\<lambda>x. if x = 0x10 then 65 else if x = 0x20 then 66 else 0) = Ret (0x10, m')
    \<and> cstr m' 0x10 ([65] @ [66]) \<and> strlen m' 0x10 = Ret (of_nat (length [65 :: u8] + length [66 :: u8]))
    \<and> (\<forall>x. x \<notin> span (0x10 + of_nat (length [65 :: u8])) (Suc (length [66 :: u8])) \<longrightarrow>
          m' x = (if x = 0x10 then 65 else if x = 0x20 then 66 else 0))"
  by (rule cstring_strcat_appends) (simp_all add: cstr_Cons cstr_Nil span_Suc)

end
