(* ===== verification/Kstrtox.thy ===== *)
theory Kstrtox
  imports Cstring
begin

unbundle bit_operations_syntax

text \<open>
  Character classes (\<^verbatim>\<open>mykernel/lib/ctype.c\<close>, \<^verbatim>\<open>include/linux/kernel/ctype.h\<close>) and the conversion of strings
  to integers (\<^verbatim>\<open>lib/digit/kstrtox.c\<close>, the \<^verbatim>\<open>simple_strto\<close> family of \<^verbatim>\<open>lib/printf/vsprintf.c\<close>). A conversion
  returns its error code on the left or the value it stores on the right; on an error nothing is
  stored. Characters are signed, so a byte above 0x7f becomes a large \<^verbatim>\<open>unsigned int\<close>.
\<close>

section \<open>Character classes\<close>

definition ct_U :: u8 where "ct_U = 0x01"
definition ct_L :: u8 where "ct_L = 0x02"
definition ct_D :: u8 where "ct_D = 0x04"
definition ct_C :: u8 where "ct_C = 0x08"
definition ct_P :: u8 where "ct_P = 0x10"
definition ct_S :: u8 where "ct_S = 0x20"
definition ct_X :: u8 where "ct_X = 0x40"
definition ct_SP :: u8 where "ct_SP = 0x80"

definition ctype :: "u8 list" where
  "ctype =
     replicate 9 ct_C @ replicate 5 (ct_C OR ct_S) @ replicate 18 ct_C
   @ (ct_S OR ct_SP) # replicate 15 ct_P @ replicate 10 ct_D @ replicate 6 ct_P
   @ ct_P # replicate 6 (ct_U OR ct_X) @ replicate 20 ct_U @ replicate 5 ct_P
   @ ct_P # replicate 6 (ct_L OR ct_X) @ replicate 20 ct_L @ replicate 4 ct_P @ [ct_C]
   @ replicate 32 0
   @ (ct_S OR ct_SP) # replicate 31 ct_P
   @ replicate 23 ct_U @ ct_P # replicate 7 ct_U @ [ct_L]
   @ replicate 23 ct_L @ ct_P # replicate 8 ct_L"

definition ismask :: "u8 \<Rightarrow> u8" where "ismask c = ctype ! unat c"

definition isalnum :: "u8 \<Rightarrow> bool" where "isalnum c \<longleftrightarrow> ismask c AND (ct_U OR ct_L OR ct_D) \<noteq> 0"
definition isalpha :: "u8 \<Rightarrow> bool" where "isalpha c \<longleftrightarrow> ismask c AND (ct_U OR ct_L) \<noteq> 0"
definition iscntrl :: "u8 \<Rightarrow> bool" where "iscntrl c \<longleftrightarrow> ismask c AND ct_C \<noteq> 0"
definition isgraph :: "u8 \<Rightarrow> bool" where "isgraph c \<longleftrightarrow> ismask c AND (ct_P OR ct_U OR ct_L OR ct_D) \<noteq> 0"
definition islower :: "u8 \<Rightarrow> bool" where "islower c \<longleftrightarrow> ismask c AND ct_L \<noteq> 0"
definition isprint :: "u8 \<Rightarrow> bool" where "isprint c \<longleftrightarrow> ismask c AND (ct_P OR ct_U OR ct_L OR ct_D OR ct_SP) \<noteq> 0"
definition ispunct :: "u8 \<Rightarrow> bool" where "ispunct c \<longleftrightarrow> ismask c AND ct_P \<noteq> 0"
definition isspace :: "u8 \<Rightarrow> bool" where "isspace c \<longleftrightarrow> ismask c AND ct_S \<noteq> 0"
definition isupper :: "u8 \<Rightarrow> bool" where "isupper c \<longleftrightarrow> ismask c AND ct_U \<noteq> 0"
definition isxdigit :: "u8 \<Rightarrow> bool" where "isxdigit c \<longleftrightarrow> ismask c AND (ct_D OR ct_X) \<noteq> 0"

definition isdigit :: "u8 \<Rightarrow> bool" where "isdigit c \<longleftrightarrow> 0x30 \<le> c \<and> c \<le> 0x39"

definition tolower :: "u8 \<Rightarrow> u8" where "tolower c = (if isupper c then c + 0x20 else c)"
definition toupper :: "u8 \<Rightarrow> u8" where "toupper c = (if islower c then c - 0x20 else c)"

text \<open>\<^verbatim>\<open>_tolower\<close>, which sets the bit whatever the character.\<close>

definition fast_tolower :: "u8 \<Rightarrow> u8" where "fast_tolower c = c OR 0x20"

section \<open>Parsing digits\<close>

definition KSTRTOX_OVERFLOW :: u32 where "KSTRTOX_OVERFLOW = push_bit 31 1"
definition ERANGE :: int where "ERANGE = 34"

definition parse_integer_fixup_radix :: "bytes \<Rightarrow> ulong \<Rightarrow> u32 \<Rightarrow> ulong \<times> u32" where
  "parse_integer_fixup_radix m s base =
     (let base = (if base = 0
                  then if m s = 0x30
                       then if fast_tolower (m (s + 1)) = 0x78 \<and> isxdigit (m (s + 2)) then 16 else 8
                       else 10
                  else base)
      in (if base = 16 \<and> m s = 0x30 \<and> fast_tolower (m (s + 1)) = 0x78 then s + 2 else s, base))"

definition digit_val :: "u32 \<Rightarrow> u32 option" where
  "digit_val c =
     (let lc = c OR 0x20
      in if 0x30 \<le> c \<and> c \<le> 0x39 then Some (c - 0x30)
         else if 0x61 \<le> lc \<and> lc \<le> 0x66 then Some (lc - 0x61 + 10)
         else None)"

fun parse_loop :: "bytes \<Rightarrow> u32 \<Rightarrow> nat \<Rightarrow> ulong \<Rightarrow> u64 \<Rightarrow> u32 \<Rightarrow> u64 \<times> u32" where
  "parse_loop m base 0 s res rv = (res, rv)"
| "parse_loop m base (Suc max_chars) s res rv =
     (case digit_val (scast (m s)) of
        None \<Rightarrow> (res, rv)
      | Some val \<Rightarrow>
          if val \<ge> base then (res, rv)
          else let rv = (if res AND push_bit 60 (NOT 0) \<noteq> 0 \<and> res > (NOT 0 - ucast val) div ucast base
                         then rv OR KSTRTOX_OVERFLOW else rv)
               in parse_loop m base max_chars (s + 1) (res * ucast base + ucast val) (rv + 1))"

definition parse_integer_limit :: "bytes \<Rightarrow> ulong \<Rightarrow> u32 \<Rightarrow> ulong \<Rightarrow> u64 \<times> u32" where
  "parse_integer_limit m s base max_chars = parse_loop m base (unat max_chars) s 0 0"

definition parse_integer :: "bytes \<Rightarrow> ulong \<Rightarrow> u32 \<Rightarrow> u64 \<times> u32" where
  "parse_integer m s base = parse_integer_limit m s base (of_nat INT_MAX)"

section \<open>Conversions\<close>

text \<open>\<^verbatim>\<open>_kstrtoull\<close>, after the sign.\<close>

definition kstrtoull_unsigned :: "bytes \<Rightarrow> ulong \<Rightarrow> u32 \<Rightarrow> int + u64" where
  "kstrtoull_unsigned m s base =
     (let (s, base) = parse_integer_fixup_radix m s base;
          (res, rv) = parse_integer m s base
      in if rv AND KSTRTOX_OVERFLOW \<noteq> 0 then Inl (- ERANGE)
         else if rv = 0 then Inl (- EINVAL)
         else let s = s + ucast rv;
                  s = (if m s = 0x0a then s + 1 else s)
              in if m s \<noteq> 0 then Inl (- EINVAL) else Inr res)"

definition kstrtoull :: "bytes \<Rightarrow> ulong \<Rightarrow> u32 \<Rightarrow> int + u64" where
  "kstrtoull m s base = kstrtoull_unsigned m (if m s = 0x2b then s + 1 else s) base"

text \<open>Signed results are the bits that are stored.\<close>

definition kstrtoll :: "bytes \<Rightarrow> ulong \<Rightarrow> u32 \<Rightarrow> int + u64" where
  "kstrtoll m s base =
     (if m s = 0x2d
      then case kstrtoull_unsigned m (s + 1) base of
             Inl e \<Rightarrow> Inl e
           | Inr tmp \<Rightarrow> if sint (- tmp) > 0 then Inl (- ERANGE) else Inr (- tmp)
      else case kstrtoull m s base of
             Inl e \<Rightarrow> Inl e
           | Inr tmp \<Rightarrow> if sint tmp < 0 then Inl (- ERANGE) else Inr tmp)"

definition kstrtoul :: "bytes \<Rightarrow> ulong \<Rightarrow> u32 \<Rightarrow> int + ulong" where
  "kstrtoul m s base =
     (case kstrtoull m s base of
        Inl e \<Rightarrow> Inl e
      | Inr tmp \<Rightarrow> if tmp \<noteq> ucast (ucast tmp :: ulong) then Inl (- ERANGE) else Inr (ucast tmp))"

definition kstrtol :: "bytes \<Rightarrow> ulong \<Rightarrow> u32 \<Rightarrow> int + ulong" where
  "kstrtol m s base =
     (case kstrtoll m s base of
        Inl e \<Rightarrow> Inl e
      | Inr tmp \<Rightarrow> if tmp \<noteq> scast (ucast tmp :: ulong) then Inl (- ERANGE) else Inr (ucast tmp))"

definition kstrtouint :: "bytes \<Rightarrow> ulong \<Rightarrow> u32 \<Rightarrow> int + u32" where
  "kstrtouint m s base =
     (case kstrtoull m s base of
        Inl e \<Rightarrow> Inl e
      | Inr tmp \<Rightarrow> if tmp \<noteq> ucast (ucast tmp :: u32) then Inl (- ERANGE) else Inr (ucast tmp))"

definition kstrtoint :: "bytes \<Rightarrow> ulong \<Rightarrow> u32 \<Rightarrow> int + u32" where
  "kstrtoint m s base =
     (case kstrtoll m s base of
        Inl e \<Rightarrow> Inl e
      | Inr tmp \<Rightarrow> if tmp \<noteq> scast (ucast tmp :: u32) then Inl (- ERANGE) else Inr (ucast tmp))"

definition kstrtou16 :: "bytes \<Rightarrow> ulong \<Rightarrow> u32 \<Rightarrow> int + u16" where
  "kstrtou16 m s base =
     (case kstrtoull m s base of
        Inl e \<Rightarrow> Inl e
      | Inr tmp \<Rightarrow> if tmp \<noteq> ucast (ucast tmp :: u16) then Inl (- ERANGE) else Inr (ucast tmp))"

definition kstrtos16 :: "bytes \<Rightarrow> ulong \<Rightarrow> u32 \<Rightarrow> int + u16" where
  "kstrtos16 m s base =
     (case kstrtoll m s base of
        Inl e \<Rightarrow> Inl e
      | Inr tmp \<Rightarrow> if tmp \<noteq> scast (ucast tmp :: u16) then Inl (- ERANGE) else Inr (ucast tmp))"

definition kstrtou8 :: "bytes \<Rightarrow> ulong \<Rightarrow> u32 \<Rightarrow> int + u8" where
  "kstrtou8 m s base =
     (case kstrtoull m s base of
        Inl e \<Rightarrow> Inl e
      | Inr tmp \<Rightarrow> if tmp \<noteq> ucast (ucast tmp :: u8) then Inl (- ERANGE) else Inr (ucast tmp))"

definition kstrtos8 :: "bytes \<Rightarrow> ulong \<Rightarrow> u32 \<Rightarrow> int + u8" where
  "kstrtos8 m s base =
     (case kstrtoll m s base of
        Inl e \<Rightarrow> Inl e
      | Inr tmp \<Rightarrow> if tmp \<noteq> scast (ucast tmp :: u8) then Inl (- ERANGE) else Inr (ucast tmp))"

definition kstrtobool :: "bytes \<Rightarrow> ulong \<Rightarrow> int + bool" where
  "kstrtobool m s =
     (if s = 0 then Inl (- EINVAL)
      else if m s \<in> {0x79, 0x59, 0x74, 0x54, 0x31} then Inr True
      else if m s \<in> {0x6e, 0x4e, 0x66, 0x46, 0x30} then Inr False
      else if m s \<in> {0x6f, 0x4f}
           then if m (s + 1) \<in> {0x6e, 0x4e} then Inr True
                else if m (s + 1) \<in> {0x66, 0x46} then Inr False
                else Inl (- EINVAL)
      else Inl (- EINVAL))"

section \<open>Conversions without checks\<close>

definition simple_strntoull :: "bytes \<Rightarrow> ulong \<Rightarrow> ulong \<Rightarrow> u32 \<Rightarrow> u64 \<times> ulong" where
  "simple_strntoull m startp max_chars base =
     (let (cp, base) = parse_integer_fixup_radix m startp base;
          prefix_chars = cp - startp
      in if prefix_chars < max_chars
         then let (result, rv) = parse_integer_limit m cp base (max_chars - prefix_chars)
              in (result, cp + ucast (rv AND NOT KSTRTOX_OVERFLOW))
         else (0, startp + max_chars))"

definition simple_strtoull :: "bytes \<Rightarrow> ulong \<Rightarrow> u32 \<Rightarrow> u64 \<times> ulong" where
  "simple_strtoull m cp base = simple_strntoull m cp (of_nat INT_MAX) base"

definition simple_strtoul :: "bytes \<Rightarrow> ulong \<Rightarrow> u32 \<Rightarrow> ulong \<times> ulong" where
  "simple_strtoul m cp base = simple_strtoull m cp base"

definition simple_strtol :: "bytes \<Rightarrow> ulong \<Rightarrow> u32 \<Rightarrow> ulong \<times> ulong" where
  "simple_strtol m cp base =
     (if m cp = 0x2d then apfst uminus (simple_strtoul m (cp + 1) base) else simple_strtoul m cp base)"

definition simple_strntoll :: "bytes \<Rightarrow> ulong \<Rightarrow> ulong \<Rightarrow> u32 \<Rightarrow> u64 \<times> ulong" where
  "simple_strntoll m cp max_chars base =
     (if m cp = 0x2d \<and> max_chars > 0 then apfst uminus (simple_strntoull m (cp + 1) (max_chars - 1) base)
      else simple_strntoull m cp max_chars base)"

definition simple_strtoll :: "bytes \<Rightarrow> ulong \<Rightarrow> u32 \<Rightarrow> u64 \<times> ulong" where
  "simple_strtoll m cp base = simple_strntoll m cp (of_nat INT_MAX) base"

section \<open>Digits as numbers\<close>

lemma all_bytes: "list_all (\<lambda>n. P (of_nat n)) [0..<256] \<Longrightarrow> P (c :: u8)"
proof -
  assume *: "list_all (\<lambda>n. P (of_nat n)) [0..<256]"
  have "unat c < 256" using unsigned_less [of c, where ?'a = nat] by simp
  then have "unat c \<in> set [0..<256]" by simp
  then have "P (of_nat (unat c))" using * unfolding list_all_iff by blast
  then show ?thesis by simp
qed

definition dig :: "u8 \<Rightarrow> nat option" where
  "dig c = (if 0x30 \<le> c \<and> c \<le> 0x39 then Some (unat c - 0x30)
            else if 0x61 \<le> c \<and> c \<le> 0x66 then Some (unat c - 0x57)
            else if 0x41 \<le> c \<and> c \<le> 0x46 then Some (unat c - 0x37)
            else None)"

lemma digit_val_dig: "digit_val (scast (c :: u8)) = map_option of_nat (dig c)"
proof -
  have "list_all (\<lambda>n. digit_val (scast (of_nat n :: u8)) = map_option of_nat (dig (of_nat n))) [0..<256]" by code_simp
  then show ?thesis by (rule all_bytes)
qed

lemma dig_lt: "dig c = Some d \<Longrightarrow> d < 16"
  by (auto simp: dig_def word_le_nat_alt split: if_splits)

lemma isxdigit_dig: "isxdigit c \<longleftrightarrow> dig c \<noteq> None"
proof -
  have "list_all (\<lambda>n. isxdigit (of_nat n) \<longleftrightarrow> dig (of_nat n) \<noteq> None) [0..<256]" by code_simp
  then show ?thesis by (rule all_bytes)
qed

definition is_dig :: "nat \<Rightarrow> u8 \<Rightarrow> bool" where
  "is_dig b c \<longleftrightarrow> (case dig c of None \<Rightarrow> False | Some d \<Rightarrow> d < b)"

definition digits :: "nat \<Rightarrow> u8 list \<Rightarrow> nat list" where
  "digits b xs = map (the \<circ> dig) (takeWhile (is_dig b) xs)"

definition number_of :: "nat \<Rightarrow> nat \<Rightarrow> nat list \<Rightarrow> nat" where
  "number_of b a ds = foldl (\<lambda>a d. a * b + d) a ds"

lemma digits_Cons: "digits b (x # xs) = (if is_dig b x then the (dig x) # digits b xs else [])"
  by (simp add: digits_def)

lemma number_of_simps [simp]: "number_of b a [] = a" "number_of b a (d # ds) = number_of b (a * b + d) ds"
  by (simp_all add: number_of_def)

lemma number_of_ge: "0 < b \<Longrightarrow> a \<le> number_of b a ds"
proof (induction ds arbitrary: a)
  case (Cons d ds)
  have "a \<le> a * b + d" using Cons.prems by (simp add: trans_le_add1)
  also have "\<dots> \<le> number_of b (a * b + d) ds" using Cons by simp
  finally show ?case by simp
qed simp

text \<open>The overflow test is exact.\<close>

lemma top_bits: "(w :: u64) AND push_bit 60 (NOT 0) = 0 \<longleftrightarrow> unat w < 2 ^ 60"
proof -
  have "w AND push_bit 60 (NOT 0) = push_bit 60 (drop_bit 60 w)" by (rule bit_eqI) (auto simp: bit_simps)
  moreover have "unat (push_bit 60 (drop_bit 60 w)) = unat w div 2 ^ 60 * 2 ^ 60"
  proof -
    have "unat w div 2 ^ 60 * 2 ^ 60 \<le> unat w" by simp
    also have "\<dots> < 2 ^ 64" using unsigned_less [of w, where ?'a = nat] by simp
    finally show ?thesis
      by (simp add: push_bit_eq_mult drop_bit_eq_div unat_word_ariths unat_div)
  qed
  ultimately have "w AND push_bit 60 (NOT 0) = 0 \<longleftrightarrow> unat w div 2 ^ 60 * 2 ^ 60 = 0"
    by (simp add: unat_eq_zero [symmetric])
  then show ?thesis by (simp add: div_eq_0_iff)
qed

lemma overflow_test:
  assumes "a < 2 ^ 64" "0 < b" "b \<le> 16" "d < b"
  shows "((of_nat a :: u64) AND push_bit 60 (NOT 0) \<noteq> 0 \<and> (of_nat a :: u64) > (NOT 0 - ucast (of_nat d :: u32)) div ucast (of_nat b :: u32))
     \<longleftrightarrow> 2 ^ 64 \<le> a * b + d"
proof -
  have c: "(ucast (of_nat n :: u32) :: u64) = of_nat n" if "n \<le> 16" for n
    using that by (simp add: word_unat_eq_iff unsigned_ucast_eq unsigned_of_nat take_bit_nat_eq_self)
  have ua: "unat (of_nat a :: u64) = a" using assms(1) by (rule unat_of_nat_small)
  have ud: "unat (of_nat d :: u64) = d" "unat (of_nat b :: u64) = b" using assms by (simp_all add: unat_of_nat_small)
  have "unat ((NOT 0 - of_nat d :: u64) div of_nat b) = (2 ^ 64 - 1 - d) div b"
    using ud by (simp add: unat_div unat_sub unsigned_minus_1_eq_mask mask_eq_exp_minus_1)
  then have gt: "(of_nat a :: u64) > (NOT 0 - of_nat d) div of_nat b \<longleftrightarrow> (2 ^ 64 - 1 - d) div b < a"
    by (simp add: word_less_nat_alt ua)
  have "(2 ^ 64 - 1 - d) div b < a \<longleftrightarrow> 2 ^ 64 - 1 - d < a * b" using assms(2) by (simp add: div_less_iff_less_mult)
  also have "\<dots> \<longleftrightarrow> 2 ^ 64 \<le> a * b + d" using assms(3,4) by auto
  finally have gt2: "(2 ^ 64 - 1 - d) div b < a \<longleftrightarrow> 2 ^ 64 \<le> a * b + d" .
  have small: "a * b + d < 2 ^ 64" if "a < 2 ^ 60"
  proof -
    have "a * b + d \<le> a * 16 + 15" using assms(3,4) by (intro add_mono mult_le_mono) simp_all
    also have "\<dots> < 2 ^ 64" using that by simp
    finally show ?thesis .
  qed
  have "d \<le> 16" using assms(3,4) by simp
  have "(of_nat a :: u64) AND push_bit 60 (NOT 0) \<noteq> 0 \<longleftrightarrow> 2 ^ 60 \<le> a"
    using top_bits [of "of_nat a"] ua by (simp only: not_less [symmetric])
  then show ?thesis unfolding c [OF assms(3)] c [OF \<open>d \<le> 16\<close>] gt gt2 using small by (meson not_le)
qed

section \<open>The parsing loop\<close>

definition flag_of :: "nat \<Rightarrow> nat" where
  "flag_of a = (if 2 ^ 64 \<le> a then 2 ^ 31 else 0)"

lemma flag_or:
  assumes "k < 2 ^ 31" shows "(of_nat (k + flag_of a) :: u32) OR KSTRTOX_OVERFLOW = of_nat (k + 2 ^ 31)"
proof -
  have uk: "unat (of_nat k :: u32) = k" using assms by (simp add: unsigned_of_nat take_bit_nat_eq_self)
  have "bit (unat (of_nat k :: u32)) 31 \<longleftrightarrow> bit (of_nat k :: u32) 31" by (simp add: bit_unsigned_iff)
  then have "bit (of_nat k :: u32) 31 \<longleftrightarrow> bit k 31" using uk by simp
  also have "\<dots> \<longleftrightarrow> False" using assms by (simp add: bit_iff_odd)
  finally have nb: "\<not> bit (of_nat k :: u32) 31" by simp
  have "\<not> bit (of_nat k :: u32) n \<or> \<not> bit (push_bit 31 1 :: u32) n" for n
  proof (cases "n = 31")
    case False
    then show ?thesis by (simp only: bit_push_bit_iff bit_1_iff) auto
  qed (use nb in simp)
  then have "(of_nat k :: u32) OR push_bit 31 1 = of_nat k + push_bit 31 1"
    by (intro disjunctive_add [symmetric]) blast
  moreover have "(of_nat (k + 2 ^ 31) :: u32) = of_nat k + push_bit 31 1" by simp
  ultimately have *: "(of_nat k :: u32) OR KSTRTOX_OVERFLOW = of_nat (k + 2 ^ 31)" by (simp add: KSTRTOX_OVERFLOW_def)
  have "(of_nat k OR KSTRTOX_OVERFLOW) OR KSTRTOX_OVERFLOW = of_nat k OR KSTRTOX_OVERFLOW" by (simp add: or.assoc)
  then have "of_nat (k + 2 ^ 31) OR KSTRTOX_OVERFLOW = of_nat (k + 2 ^ 31)" unfolding * .
  then show ?thesis using * by (simp add: flag_of_def)
qed

lemma flag_mono: "a \<le> c \<Longrightarrow> flag_of a = 2 ^ 31 \<Longrightarrow> flag_of c = 2 ^ 31"
  by (auto simp: flag_of_def split: if_splits)

lemma parse_loop_digits:
  assumes "cstr m s xs" "2 \<le> b" "b \<le> 16" "k + n < 2 ^ 31"
  shows "parse_loop m (of_nat b) n s (of_nat a) (of_nat (k + flag_of a)) =
    (let ds = take n (digits b xs); v = number_of b a ds in (of_nat v, of_nat (k + length ds + flag_of v)))"
  using assms(1,4)
proof (induction n arbitrary: s xs a k)
  case (Suc n)
  show ?case
  proof (cases "xs \<noteq> [] \<and> is_dig b (hd xs)")
    case False
    have "m s = (if xs = [] then 0 else hd xs)" using Suc.prems(1) by (cases xs) (simp_all add: cstr_Nil cstr_Cons)
    moreover have "dig 0 = None" by (simp add: dig_def)
    ultimately have nd: "\<not> is_dig b (m s)" using False by (auto simp: is_dig_def split: if_splits)
    have "of_nat d \<ge> (of_nat b :: u32)" if "dig (m s) = Some d" for d
      using that nd dig_lt [OF that] assms(3)
      by (simp add: is_dig_def word_le_nat_alt unsigned_of_nat take_bit_nat_eq_self)
    then have "parse_loop m (of_nat b) (Suc n) s (of_nat a) (of_nat (k + flag_of a)) = (of_nat a, of_nat (k + flag_of a))"
      by (auto simp: digit_val_dig split: option.split)
    moreover have "digits b xs = []" using False by (cases xs) (simp_all add: digits_Cons, simp add: digits_def)
    ultimately show ?thesis by simp
  next
    case True
    then obtain x ys where xs: "xs = x # ys" and x: "is_dig b x" by (cases xs) auto
    then obtain d where d: "dig x = Some d" "d < b" by (auto simp: is_dig_def split: option.splits)
    have ms: "m s = x" "cstr m (s + 1) ys" using Suc.prems(1) by (simp_all add: xs cstr_Cons)
    have db: "\<not> (of_nat d :: u32) \<ge> of_nat b"
      using d(2) assms(3) by (simp add: word_le_nat_alt unsigned_of_nat take_bit_nat_eq_self)
    define a' where "a' = a * b + d"
    have "a \<le> a'" using assms(2) by (simp add: a'_def trans_le_add1)
    have res: "(of_nat a * ucast (of_nat b :: u32) + ucast (of_nat d :: u32) :: u64) = of_nat a'"
    proof -
      have "(ucast (of_nat n :: u32) :: u64) = of_nat n" if "n \<le> 16" for n
        using that by (simp add: word_unat_eq_iff unsigned_ucast_eq unsigned_of_nat take_bit_nat_eq_self)
      then show ?thesis using assms(3) d(2) by (simp add: a'_def)
    qed
    define rv where "rv = (if (of_nat a :: u64) AND push_bit 60 (NOT 0) \<noteq> 0 \<and> (of_nat a :: u64) > (NOT 0 - ucast (of_nat d :: u32)) div ucast (of_nat b :: u32)
       then of_nat (k + flag_of a) OR KSTRTOX_OVERFLOW else (of_nat (k + flag_of a) :: u32))"
    have k31: "k < 2 ^ 31" using Suc.prems(2) by simp
    have "rv = of_nat (k + flag_of a')"
    proof (cases "2 ^ 64 \<le> a")
      case True
      then have "flag_of a = 2 ^ 31" "flag_of a' = 2 ^ 31" using \<open>a \<le> a'\<close> by (simp_all add: flag_of_def)
      then show ?thesis unfolding rv_def using flag_or [OF k31, of a] by (simp only: if_cancel)
    next
      case False
      then have t: "((of_nat a :: u64) AND push_bit 60 (NOT 0) \<noteq> 0 \<and> (of_nat a :: u64) > (NOT 0 - ucast (of_nat d :: u32)) div ucast (of_nat b :: u32))
          \<longleftrightarrow> 2 ^ 64 \<le> a'"
        unfolding a'_def using assms(2,3) d(2) by (intro overflow_test) simp_all
      have "flag_of a = 0" using False by (simp add: flag_of_def)
      then show ?thesis unfolding rv_def t using flag_or [OF k31, of a] by (simp add: flag_of_def)
    qed
    then have rv1: "rv + 1 = of_nat (Suc k + flag_of a')" by simp
    have "parse_loop m (of_nat b) (Suc n) s (of_nat a) (of_nat (k + flag_of a)) =
        parse_loop m (of_nat b) n (s + 1) (of_nat a') (of_nat (Suc k + flag_of a'))"
      by (simp only: parse_loop.simps ms(1) digit_val_dig d(1) option.map option.case db if_False Let_def res rv1 [unfolded rv_def])
    also have "\<dots> = (let ds = take n (digits b ys); v = number_of b a' ds in (of_nat v, of_nat (Suc k + length ds + flag_of v)))"
      using Suc.prems(2) by (intro Suc.IH [OF ms(2)]) simp
    finally show ?thesis using x d(1) by (simp add: xs digits_Cons Let_def a'_def)
  qed
qed simp

lemma overflow_bit:
  assumes "k < 2 ^ 31"
  shows "(of_nat (k + flag_of a) :: u32) AND KSTRTOX_OVERFLOW \<noteq> 0 \<longleftrightarrow> 2 ^ 64 \<le> a"
proof -
  have uk: "unat (of_nat (k + flag_of a) :: u32) = k + flag_of a"
  proof -
    have "k + flag_of a < 2 ^ 32" using assms by (simp add: flag_of_def)
    then show ?thesis by (simp add: unsigned_of_nat take_bit_nat_eq_self del: of_nat_add)
  qed
  have "(of_nat (k + flag_of a) :: u32) AND KSTRTOX_OVERFLOW \<noteq> 0 \<longleftrightarrow> bit (of_nat (k + flag_of a) :: u32) 31"
    by (simp only: KSTRTOX_OVERFLOW_def push_bit_of_1 and_exp_eq_0_iff_not_bit not_not)
  also have "\<dots> \<longleftrightarrow> bit (unat (of_nat (k + flag_of a) :: u32)) 31" by (simp add: bit_unsigned_iff)
  also have "\<dots> \<longleftrightarrow> odd ((k + flag_of a) div 2 ^ 31)" unfolding uk by (simp add: bit_iff_odd)
  also have "\<dots> \<longleftrightarrow> 2 ^ 64 \<le> a" using assms by (simp add: flag_of_def div_add1_eq)
  finally show ?thesis .
qed

section \<open>The language of numbers\<close>

text \<open>
  The number a string stands for: an optional prefix that selects or confirms the radix, digits,
  and at most a newline behind them.
\<close>

definition hex_prefix :: "u8 list \<Rightarrow> bool" where
  "hex_prefix xs \<longleftrightarrow> (case xs of c # d # _ \<Rightarrow> c = 0x30 \<and> d \<in> {0x58, 0x78} | _ \<Rightarrow> False)"

definition radix_of :: "nat \<Rightarrow> u8 list \<Rightarrow> nat" where
  "radix_of base xs =
     (if base \<noteq> 0 then base
      else if xs = [] \<or> hd xs \<noteq> 0x30 then 10
      else if hex_prefix xs \<and> 2 < length xs \<and> dig (xs ! 2) \<noteq> None then 16 else 8)"

definition read_number :: "nat \<Rightarrow> u8 list \<Rightarrow> int + nat" where
  "read_number base xs =
     (let b = radix_of base xs;
          ys = (if b = 16 \<and> hex_prefix xs then drop 2 xs else xs);
          ds = digits b ys; rest = drop (length ds) ys; v = number_of b 0 ds
      in if 2 ^ 64 \<le> v then Inl (- ERANGE)
         else if ds = [] then Inl (- EINVAL)
         else if rest = [] \<or> rest = [0x0a] then Inr v else Inl (- EINVAL))"

lemma fast_tolower_x: "fast_tolower c = 0x78 \<longleftrightarrow> c \<in> {0x58, 0x78}"
proof -
  have "list_all (\<lambda>n. fast_tolower (of_nat n) = 0x78 \<longleftrightarrow> of_nat n \<in> {0x58, 0x78 :: u8}) [0..<256]" by code_simp
  then show ?thesis by (rule all_bytes)
qed

lemma cstr_drop: "cstr m s xs \<Longrightarrow> n \<le> length xs \<Longrightarrow> cstr m (s + of_nat n) (drop n xs)"
proof (induction n arbitrary: s xs)
  case (Suc n)
  then obtain x ys where xs: "xs = x # ys" "cstr m (s + 1) ys" "n \<le> length ys" by (cases xs) (auto simp: cstr_Cons)
  from Suc.IH [OF xs(2,3)] show ?case by (simp add: xs(1) add.assoc)
qed simp

lemma cstr_hd: "cstr m s xs \<Longrightarrow> m s = (case xs of [] \<Rightarrow> 0 | x # _ \<Rightarrow> x)"
  by (cases xs) (simp_all add: cstr_Nil cstr_Cons)

lemma prefix_test:
  assumes "cstr m s xs"
  shows "m s = 0x30 \<and> fast_tolower (m (s + 1)) = 0x78 \<longleftrightarrow> hex_prefix xs"
    and "m s = 0x30 \<longleftrightarrow> xs \<noteq> [] \<and> hd xs = 0x30"
    and "hex_prefix xs \<Longrightarrow> isxdigit (m (s + 2)) \<longleftrightarrow> 2 < length xs \<and> dig (xs ! 2) \<noteq> None"
proof -
  show "m s = 0x30 \<longleftrightarrow> xs \<noteq> [] \<and> hd xs = 0x30" using cstr_hd [OF assms] by (cases xs) auto
  show "m s = 0x30 \<and> fast_tolower (m (s + 1)) = 0x78 \<longleftrightarrow> hex_prefix xs"
  proof (cases xs)
    case Nil
    then show ?thesis using cstr_hd [OF assms] by (simp add: hex_prefix_def)
  next
    case (Cons x ys)
    then have "cstr m (s + 1) ys" "m s = x" using assms by (simp_all add: cstr_Cons)
    then show ?thesis using cstr_hd [of m "s + 1" ys] Cons
      by (cases ys) (simp_all add: hex_prefix_def fast_tolower_x)
  qed
  assume "hex_prefix xs"
  then have len: "2 \<le> length xs" by (auto simp: hex_prefix_def split: list.splits)
  have "cstr m (s + of_nat 2) (drop 2 xs)" using assms len by (rule cstr_drop)
  then have "m (s + 2) = (case drop 2 xs of [] \<Rightarrow> 0 | x # _ \<Rightarrow> x)" using cstr_hd by fastforce
  then show "isxdigit (m (s + 2)) \<longleftrightarrow> 2 < length xs \<and> dig (xs ! 2) \<noteq> None"
  proof (cases "2 < length xs")
    case True
    then have "drop 2 xs = xs ! 2 # drop 3 xs" using Cons_nth_drop_Suc [of 2 xs] by simp
    then show ?thesis using True \<open>m (s + 2) = _\<close> by (simp add: isxdigit_dig)
  qed (use \<open>m (s + 2) = _\<close> in \<open>simp add: isxdigit_dig dig_def\<close>)
qed

lemma fixup_radix_spec:
  assumes "cstr m s xs" "base = of_nat b0" "b0 \<le> 16"
  defines "b \<equiv> radix_of b0 xs"
  shows "parse_integer_fixup_radix m s base = (if b = 16 \<and> hex_prefix xs then s + 2 else s, of_nat b)"
proof -
  have e: "(of_nat n :: u32) = of_nat k \<longleftrightarrow> n = k" if "n \<le> 16" "k \<le> 16" for n k
    using that by (simp add: word_unat_eq_iff unsigned_of_nat take_bit_nat_eq_self)
  have b16: "b \<le> 16" using assms(3) by (simp add: b_def radix_of_def)
  have z: "base = 0 \<longleftrightarrow> b0 = 0" using e [of b0 0] assms(2,3) by simp
  note t = prefix_test [OF assms(1)]
  have "(if base = 0 then if m s = 0x30 then if fast_tolower (m (s + 1)) = 0x78 \<and> isxdigit (m (s + 2)) then 16 else 8 else 10 else base) = of_nat b"
  proof (cases "b0 = 0 \<and> m s = 0x30")
    case True
    then have "fast_tolower (m (s + 1)) = 0x78 \<longleftrightarrow> hex_prefix xs" using t(1) by blast
    then show ?thesis using True z t(2,3) by (auto simp: b_def radix_of_def)
  next
    case False
    then show ?thesis using z t(2) assms(2) by (auto simp: b_def radix_of_def)
  qed
  moreover have "(of_nat b :: u32) = 16 \<longleftrightarrow> b = 16" using e [of b 16] b16 by simp
  ultimately show ?thesis using t(1) by (simp add: parse_integer_fixup_radix_def Let_def)
qed

lemma digits_length: "length (digits b ys) \<le> length ys"
  by (simp add: digits_def length_takeWhile_le)

lemma kstrtoull_unsigned_spec:
  assumes "cstr m s xs" "base = of_nat b0" "b0 = 0 \<or> 2 \<le> b0 \<and> b0 \<le> 16" "length xs \<le> INT_MAX"
  shows "kstrtoull_unsigned m s base = map_sum id of_nat (read_number b0 xs)"
proof -
  define b where "b = radix_of b0 xs"
  define s1 where "s1 = (if b = 16 \<and> hex_prefix xs then s + 2 else s)"
  define ys where "ys = (if b = 16 \<and> hex_prefix xs then drop 2 xs else xs)"
  define ds where "ds = digits b ys"
  define v where "v = number_of b 0 ds"
  have b: "2 \<le> b" "b \<le> 16" using assms(3) by (auto simp: b_def radix_of_def)
  have fx: "parse_integer_fixup_radix m s base = (s1, of_nat b)"
    using fixup_radix_spec [OF assms(1,2)] assms(3) by (auto simp: s1_def b_def)
  have c: "cstr m s1 ys"
  proof (cases "b = 16 \<and> hex_prefix xs")
    case True
    then have "2 \<le> length xs" by (auto simp: hex_prefix_def split: list.splits)
    from cstr_drop [OF assms(1) this] show ?thesis using True by (simp add: s1_def ys_def)
  qed (use assms(1) in \<open>auto simp: s1_def ys_def\<close>)
  have ly: "length ds \<le> length ys" by (simp add: ds_def digits_length)
  have len: "length ds \<le> INT_MAX" using ly assms(4) by (auto simp: ys_def split: if_splits)
  have u: "unat (of_nat INT_MAX :: ulong) = INT_MAX" by (rule unat_of_nat_small) (simp add: INT_MAX_def)
  have pi: "parse_integer m s1 (of_nat b) = (of_nat v, of_nat (length ds + flag_of v))"
    using parse_loop_digits [OF c b, of 0 INT_MAX 0] len
    unfolding parse_integer_def parse_integer_limit_def u ds_def [symmetric]
    by (simp add: INT_MAX_def flag_of_def [of 0] v_def Let_def)
  have l31: "length ds < 2 ^ 31" using len by (simp add: INT_MAX_def)
  have ov: "(of_nat (length ds + flag_of v) :: u32) AND KSTRTOX_OVERFLOW \<noteq> 0 \<longleftrightarrow> 2 ^ 64 \<le> v"
    using overflow_bit [OF l31, of v] by simp
  have z: "(of_nat (length ds) :: u32) = 0 \<longleftrightarrow> ds = []"
    using l31 by (simp add: word_unat_eq_iff unsigned_of_nat take_bit_nat_eq_self)
  have uc: "(ucast (of_nat (length ds) :: u32) :: ulong) = of_nat (length ds)"
    using l31 by (simp add: word_unat_eq_iff unsigned_ucast_eq unsigned_of_nat take_bit_nat_eq_self)
  have tail: "cstr m (s1 + of_nat (length ds)) (drop (length ds) ys)" using cstr_drop [OF c ly] .
  define rest where "rest = drop (length ds) ys"
  have nl: "m (if m (s1 + of_nat (length ds)) = 0x0a then s1 + of_nat (length ds) + 1 else s1 + of_nat (length ds)) \<noteq> 0 \<longleftrightarrow> \<not> (rest = [] \<or> rest = [0x0a])"
    using tail unfolding rest_def [symmetric]
    by (cases rest; cases "tl rest") (auto simp: cstr_Nil cstr_Cons)
  show ?thesis
  proof (cases "2 ^ 64 \<le> v")
    case True
    then show ?thesis using fx pi ov
      by (simp add: kstrtoull_unsigned_def read_number_def Let_def b_def [symmetric] ys_def [symmetric] ds_def [symmetric] v_def [symmetric])
  next
    case False
    then have f0: "flag_of v = 0" by (simp add: flag_of_def)
    show ?thesis using False fx pi ov z nl unfolding f0 add_0_right
      by (simp add: kstrtoull_unsigned_def read_number_def Let_def uc b_def [symmetric] ys_def [symmetric] ds_def [symmetric] v_def [symmetric] rest_def [symmetric])
  qed
qed

lemma kstrtoull_spec:
  assumes "cstr m s xs" "base = of_nat b0" "b0 = 0 \<or> 2 \<le> b0 \<and> b0 \<le> 16" "length xs \<le> INT_MAX"
  shows "kstrtoull m s base = map_sum id of_nat (read_number b0 (if xs \<noteq> [] \<and> hd xs = 0x2b then tl xs else xs))"
proof (cases "xs \<noteq> [] \<and> hd xs = 0x2b")
  case True
  then obtain ys where xs: "xs = 0x2b # ys" by (cases xs) auto
  then have "m s = 0x2b" "cstr m (s + 1) ys" using assms(1) by (simp_all add: cstr_Cons)
  then show ?thesis using kstrtoull_unsigned_spec [of m "s + 1" ys base b0] assms xs by (simp add: kstrtoull_def)
next
  case False
  then have "m s \<noteq> 0x2b" using cstr_hd [OF assms(1)] by (cases xs) auto
  then show ?thesis using kstrtoull_unsigned_spec [OF assms] unfolding if_not_P [OF False] by (simp add: kstrtoull_def)
qed

text \<open>With a sign, as an integer.\<close>

definition read_signed :: "nat \<Rightarrow> u8 list \<Rightarrow> int + int" where
  "read_signed base xs =
     (if xs \<noteq> [] \<and> hd xs = 0x2d then map_sum id (\<lambda>v. - int v) (read_number base (tl xs))
      else map_sum id int (read_number base (if xs \<noteq> [] \<and> hd xs = 0x2b then tl xs else xs)))"

definition within :: "nat \<Rightarrow> int \<Rightarrow> bool" where
  "within w v \<longleftrightarrow> - (2 ^ (w - 1)) \<le> v \<and> v < 2 ^ (w - 1)"

lemma read_number_bound: "read_number b xs = Inr v \<Longrightarrow> v < 2 ^ 64"
  by (auto simp: read_number_def Let_def split: if_splits)

lemma sint_of_int_64:
  assumes "- (2 ^ 63) \<le> v" "v < 2 ^ 63" shows "sint (word_of_int v :: u64) = v"
  using assms by (simp add: signed_of_int signed_take_bit_int_eq_self)

lemma sint_nat_64:
  assumes "v < 2 ^ 64"
  shows "sint (of_nat v :: u64) < 0 \<longleftrightarrow> \<not> v < 2 ^ 63" "sint (- of_nat v :: u64) > 0 \<longleftrightarrow> \<not> v \<le> 2 ^ 63"
proof -
  have s: "sint (word_of_int k :: u64) = signed_take_bit 63 k" for k by (simp add: signed_of_int)
  show "sint (of_nat v :: u64) < 0 \<longleftrightarrow> \<not> v < 2 ^ 63"
  proof (cases "v < 2 ^ 63")
    case True
    then have "sint (word_of_int (int v) :: u64) = int v" by (intro sint_of_int_64) simp_all
    then show ?thesis using True by simp
  next
    case False
    have e: "(of_nat v :: u64) = word_of_int (int v - 2 ^ 64)" by simp
    have "sint (of_nat v :: u64) = int v - 2 ^ 64"
      unfolding e using False assms by (intro sint_of_int_64) simp_all
    then show ?thesis using False assms by simp
  qed
  show "sint (- of_nat v :: u64) > 0 \<longleftrightarrow> \<not> v \<le> 2 ^ 63"
  proof (cases "v \<le> 2 ^ 63")
    case True
    then have "sint (word_of_int (- int v) :: u64) = - int v" by (intro sint_of_int_64) simp_all
    then show ?thesis using True by simp
  next
    case False
    have e: "(- of_nat v :: u64) = word_of_int (2 ^ 64 - int v)" by simp
    have "sint (- of_nat v :: u64) = 2 ^ 64 - int v"
      unfolding e using False assms by (intro sint_of_int_64) simp_all
    then show ?thesis using False assms by simp
  qed
qed

lemma kstrtoll_spec:
  assumes "cstr m s xs" "base = of_nat b0" "b0 = 0 \<or> 2 \<le> b0 \<and> b0 \<le> 16" "length xs \<le> INT_MAX"
  shows "kstrtoll m s base = (case read_signed b0 xs of Inl e \<Rightarrow> Inl e
     | Inr v \<Rightarrow> if within 64 v then Inr (word_of_int v) else Inl (- ERANGE))"
proof (cases "xs \<noteq> [] \<and> hd xs = 0x2d")
  case True
  then obtain ys where xs: "xs = 0x2d # ys" by (cases xs) auto
  then have c: "m s = 0x2d" "cstr m (s + 1) ys" using assms(1) by (simp_all add: cstr_Cons)
  have k: "kstrtoull_unsigned m (s + 1) base = map_sum id of_nat (read_number b0 ys)"
    using assms xs by (intro kstrtoull_unsigned_spec [OF c(2)]) simp_all
  show ?thesis
  proof (cases "read_number b0 ys")
    case (Inr v)
    note v = read_number_bound [OF Inr]
    show ?thesis using k c(1) xs Inr sint_nat_64(2) [OF v] by (simp add: kstrtoll_def read_signed_def within_def)
  qed (use k c(1) xs in \<open>simp add: kstrtoll_def read_signed_def\<close>)
next
  case False
  then have c: "m s \<noteq> 0x2d" using cstr_hd [OF assms(1)] by (cases xs) auto
  define zs where "zs = (if xs \<noteq> [] \<and> hd xs = 0x2b then tl xs else xs)"
  have r: "read_signed b0 xs = map_sum id int (read_number b0 zs)"
    unfolding read_signed_def zs_def using False by (simp only: if_False)
  have k: "kstrtoull m s base = map_sum id of_nat (read_number b0 zs)" using kstrtoull_spec [OF assms] by (simp add: zs_def)
  show ?thesis
  proof (cases "read_number b0 zs")
    case (Inr v)
    note v = read_number_bound [OF Inr]
    show ?thesis using k c Inr r sint_nat_64(1) [OF v] by (simp add: kstrtoll_def within_def)
  qed (use k c r in \<open>simp add: kstrtoll_def\<close>)
qed

text \<open>Storing in fewer bits.\<close>

lemma narrow_signed:
  assumes "LENGTH('a :: len) < 64" "within 64 v"
  shows "(word_of_int v :: u64) = scast (ucast (word_of_int v :: u64) :: 'a word) \<longleftrightarrow> within LENGTH('a) v"
proof -
  define n where "n = LENGTH('a) - 1"
  have n: "LENGTH('a) = Suc n" by (simp add: n_def)
  have "ucast (word_of_int v :: u64) = (word_of_int v :: 'a word)"
    using assms(1) by (intro bit_eqI) (simp add: bit_simps)
  then have "sint (scast (ucast (word_of_int v :: u64) :: 'a word) :: u64) = signed_take_bit n v"
    using assms(1) by (simp add: signed_scast_eq signed_of_int n)
  moreover have "sint (word_of_int v :: u64) = v" using assms(2) by (intro sint_of_int_64) (simp_all add: within_def)
  ultimately have "(word_of_int v :: u64) = scast (ucast (word_of_int v :: u64) :: 'a word) \<longleftrightarrow> v = signed_take_bit n v"
    by (metis signed_word_eqI)
  also have "\<dots> \<longleftrightarrow> - (2 ^ n) \<le> v \<and> v < 2 ^ n" by (metis signed_take_bit_int_eq_self_iff)
  finally show ?thesis by (simp add: within_def n)
qed

lemma narrow_unsigned:
  assumes "LENGTH('a :: len) < 64" "v < 2 ^ 64"
  shows "(of_nat v :: u64) = ucast (ucast (of_nat v :: u64) :: 'a word) \<longleftrightarrow> v < 2 ^ LENGTH('a)"
proof -
  have "unat (ucast (ucast (of_nat v :: u64) :: 'a word) :: u64) = v mod 2 ^ LENGTH('a)"
    using assms by (simp add: unsigned_ucast_eq unsigned_take_bit_eq unsigned_of_nat min_def) (simp add: take_bit_eq_mod)
  moreover have "v = v mod 2 ^ LENGTH('a) \<longleftrightarrow> v < 2 ^ LENGTH('a)" by (metis mod_less mod_less_divisor zero_less_numeral zero_less_power)
  ultimately show ?thesis using assms(2) by (simp only: word_unat_eq_iff unat_of_nat_small)
qed

section \<open>Properties\<close>

text \<open>
  C18. \<^verbatim>\<open>_parse_integer\<close> reads the longest run of digits of the radix exactly: for a string of at most
  \<^verbatim>\<open>INT_MAX\<close> characters the count is the number of digits, the result is their value modulo \<open>2 ^ 64\<close>, and
  the overflow bit is set if and only if the value does not fit into 64 bits.
\<close>

theorem kstrtox_parse_integer_exact:
  assumes "cstr m s xs" "2 \<le> b" "b \<le> 16" "length xs \<le> INT_MAX"
  shows "parse_integer m s (of_nat b) =
    (let ds = digits b xs; v = number_of b 0 ds
     in (of_nat v, of_nat (length ds) OR (if 2 ^ 64 \<le> v then KSTRTOX_OVERFLOW else 0)))"
proof -
  have u: "unat (of_nat INT_MAX :: ulong) = INT_MAX" by (rule unat_of_nat_small) (simp add: INT_MAX_def)
  have l: "length (digits b xs) < 2 ^ 31" "length (digits b xs) \<le> INT_MAX"
    using digits_length [of b xs] assms(4) by (simp_all add: INT_MAX_def)
  have "parse_integer m s (of_nat b) =
      (let ds = digits b xs; v = number_of b 0 ds in (of_nat v, of_nat (length ds + flag_of v)))"
    using parse_loop_digits [OF assms(1-3), of 0 INT_MAX 0] l
    unfolding parse_integer_def parse_integer_limit_def u
    by (simp add: INT_MAX_def flag_of_def [of 0] Let_def)
  moreover have "of_nat (length (digits b xs) + flag_of v) =
      (of_nat (length (digits b xs)) OR (if 2 ^ 64 \<le> v then KSTRTOX_OVERFLOW else 0) :: u32)" for v
    using flag_or [OF l(1), of 0] by (simp add: flag_of_def)
  ultimately show ?thesis by (simp only: Let_def)
qed

definition example_text :: "u8 list \<Rightarrow> bytes" where
  "example_text xs a = (if unat a < length xs then xs ! unat a else 0)"

theorem kstrtox_parse_integer_exact_witness:
  "parse_integer (example_text [0x32, 0x35, 0x36, 0x7a]) 0 (of_nat 10) =
    (let ds = digits 10 [0x32, 0x35, 0x36, 0x7a]; v = number_of 10 0 ds
     in (of_nat v, of_nat (length ds) OR (if 2 ^ 64 \<le> v then KSTRTOX_OVERFLOW else 0)))"
  by (rule kstrtox_parse_integer_exact) (simp_all add: cstr_Cons cstr_Nil example_text_def INT_MAX_def)

text \<open>
  C19. \<^verbatim>\<open>kstrtoull\<close> accepts exactly an optional plus sign, an optional radix prefix, at least one digit
  and at most one newline, and stores the value; it answers \<^verbatim>\<open>-ERANGE\<close> exactly for values of \<open>2 ^ 64\<close> or
  more, \<^verbatim>\<open>-EINVAL\<close> for everything else, and its answer depends on nothing behind the string.
\<close>

theorem kstrtox_kstrtoull_reads:
  assumes "cstr m s xs" "b = 0 \<or> 2 \<le> b \<and> b \<le> 16" "length xs \<le> INT_MAX"
  shows "kstrtoull m s (of_nat b) = map_sum id of_nat (read_number b (if xs \<noteq> [] \<and> hd xs = 0x2b then tl xs else xs))"
  using assms by (intro kstrtoull_spec) simp_all

theorem kstrtox_kstrtoull_reads_witness:
  "kstrtoull (example_text [0x30, 0x78, 0x66, 0x46, 0x0a]) 0 (of_nat 0) = Inr 255"
proof -
  have "cstr (example_text [0x30, 0x78, 0x66, 0x46, 0x0a]) 0 [0x30, 0x78, 0x66, 0x46, 0x0a]"
    by (simp add: cstr_Cons cstr_Nil example_text_def)
  from kstrtox_kstrtoull_reads [OF this, of 0] show ?thesis
    by (simp add: INT_MAX_def read_number_def radix_of_def hex_prefix_def digits_Cons digits_def is_dig_def dig_def)
qed

text \<open>
  C30. The signed and the narrow conversions agree with integers: \<^verbatim>\<open>kstrtoll\<close>, \<^verbatim>\<open>kstrtoint\<close>, \<^verbatim>\<open>kstrtos16\<close> and
  \<^verbatim>\<open>kstrtos8\<close> store the signed value a string stands for if it is in the range of the type and answer
  \<^verbatim>\<open>-ERANGE\<close> otherwise, the least value included.
\<close>

theorem kstrtox_signed_range:
  assumes "cstr m s xs" "b = 0 \<or> 2 \<le> b \<and> b \<le> 16" "length xs \<le> INT_MAX" "read_signed b xs = Inr v"
  shows "kstrtoll m s (of_nat b) = (if within 64 v then Inr (word_of_int v) else Inl (- ERANGE))
    \<and> kstrtoint m s (of_nat b) = (if within 32 v then Inr (word_of_int v) else Inl (- ERANGE))
    \<and> kstrtos16 m s (of_nat b) = (if within 16 v then Inr (word_of_int v) else Inl (- ERANGE))
    \<and> kstrtos8 m s (of_nat b) = (if within 8 v then Inr (word_of_int v) else Inl (- ERANGE))"
proof -
  have ll: "kstrtoll m s (of_nat b) = (if within 64 v then Inr (word_of_int v) else Inl (- ERANGE))"
    using kstrtoll_spec [OF assms(1) refl assms(2,3)] assms(4) by simp
  have w: "within 32 v \<longrightarrow> within 64 v" "within 16 v \<longrightarrow> within 64 v" "within 8 v \<longrightarrow> within 64 v"
    by (simp_all add: within_def)
  have c: "ucast (word_of_int v :: u64) = (word_of_int v :: u32)" "ucast (word_of_int v :: u64) = (word_of_int v :: u16)"
    "ucast (word_of_int v :: u64) = (word_of_int v :: u8)" by (intro bit_eqI; simp add: bit_simps)+
  show ?thesis
    using ll w narrow_signed [where ?'a = 32, of v] narrow_signed [where ?'a = 16, of v]
      narrow_signed [where ?'a = 8, of v]
    by (cases "within 64 v") (simp_all add: kstrtoint_def kstrtos16_def kstrtos8_def c)
qed

theorem kstrtox_signed_range_witness:
  "kstrtoll (example_text [0x2d, 0x31, 0x32, 0x38]) 0 (of_nat 10) = (if within 64 (-128) then Inr (word_of_int (-128)) else Inl (- ERANGE))
    \<and> kstrtoint (example_text [0x2d, 0x31, 0x32, 0x38]) 0 (of_nat 10) = (if within 32 (-128) then Inr (word_of_int (-128)) else Inl (- ERANGE))
    \<and> kstrtos16 (example_text [0x2d, 0x31, 0x32, 0x38]) 0 (of_nat 10) = (if within 16 (-128) then Inr (word_of_int (-128)) else Inl (- ERANGE))
    \<and> kstrtos8 (example_text [0x2d, 0x31, 0x32, 0x38]) 0 (of_nat 10) = (if within 8 (-128) then Inr (word_of_int (-128)) else Inl (- ERANGE))"
proof (rule kstrtox_signed_range)
  show "cstr (example_text [0x2d, 0x31, 0x32, 0x38]) 0 [0x2d, 0x31, 0x32, 0x38]"
    by (simp add: cstr_Cons cstr_Nil example_text_def)
  show "read_signed 10 [0x2d, 0x31, 0x32, 0x38] = Inr (-128)"
    by (simp add: read_signed_def read_number_def radix_of_def hex_prefix_def digits_Cons digits_def is_dig_def dig_def)
qed (simp_all add: INT_MAX_def)

end
