(* ===== verification/Vsprintf.thy ===== *)
theory Vsprintf
  imports Kstrtox
begin

unbundle bit_operations_syntax

text \<open>
  Formatted output: \<^verbatim>\<open>mykernel/lib/printf/vsprintf.c\<close>. The output position and the memory are a pair; \<open>putc\<close>
  is the store the source repeats everywhere, \<^verbatim>\<open>if (buf < end) *buf = c; ++buf;\<close>. The digits of a number
  are collected in a local array, modelled by the list of the bytes put into it. Arguments are a
  list of 64-bit slots, and taking one from an empty list is a \<open>Fault\<close>. String literals are byte
  lists. The function \<^verbatim>\<open>pointer\<close> of the source has its body commented out and returns no value, so a
  \<^verbatim>\<open>%p\<close> is a \<open>Fault\<close>.
\<close>

type_synonym out = "ulong \<times> bytes"

section \<open>Decimal digits\<close>

definition decpair :: "u32 \<Rightarrow> u8 list outcome" where
  "decpair x = (if x < 100 then Ret [ucast (x mod 10) + 0x30, ucast (x div 10) + 0x30] else Fault)"

text \<open>The bytes behind \<^verbatim>\<open>buf\<close> up to the pointer that is returned.\<close>

definition put_out_r :: "u32 \<Rightarrow> u8 list outcome" where
  "put_out_r r = bnd (decpair r) (\<lambda>p. Ret (take (if r < 10 then 1 else 2) p))"

definition put_dec_trunc8 :: "u32 \<Rightarrow> u8 list outcome" where
  "put_dec_trunc8 r =
     (if r < 100 then put_out_r r
      else let q = ucast (drop_bit 32 (ucast r * 0x28f5c29 :: u64))
           in bnd (decpair (r - 100 * q)) (\<lambda>p0.
              if q < 100 then bnd (put_out_r q) (\<lambda>p. Ret (p0 @ p))
              else let r = ucast (drop_bit 32 (ucast q * 0x28f5c29 :: u64))
                   in bnd (decpair (q - 100 * r)) (\<lambda>p1.
                      if r < 100 then bnd (put_out_r r) (\<lambda>p. Ret (p0 @ p1 @ p))
                      else let q = drop_bit 19 (r * 0x147b)
                           in bnd (decpair (r - 100 * q)) (\<lambda>p2.
                              bnd (put_out_r q) (\<lambda>p. Ret (p0 @ p1 @ p2 @ p))))))"

definition put_dec_full8 :: "u32 \<Rightarrow> u8 list outcome" where
  "put_dec_full8 r =
     (let q = ucast (drop_bit 32 (ucast r * 0x28f5c29 :: u64))
      in bnd (decpair (r - 100 * q)) (\<lambda>p0.
         let r = ucast (drop_bit 32 (ucast q * 0x28f5c29 :: u64))
         in bnd (decpair (q - 100 * r)) (\<lambda>p1.
            let q = drop_bit 19 (r * 0x147b)
            in bnd (decpair (r - 100 * q)) (\<lambda>p2.
               bnd (decpair q) (\<lambda>p3. Ret (p0 @ p1 @ p2 @ p3))))))"

definition put_dec :: "u64 \<Rightarrow> u8 list outcome" where
  "put_dec n =
     bnd (if n \<ge> 100000000
          then bnd (put_dec_full8 (ucast (n mod 100000000))) (\<lambda>p. Ret (n div 100000000, p)) else Ret (n, [])) (\<lambda>(n, p0).
     bnd (if n \<ge> 100000000
          then bnd (put_dec_full8 (ucast (n mod 100000000))) (\<lambda>p. Ret (n div 100000000, p0 @ p)) else Ret (n, p0)) (\<lambda>(n, p1).
     bnd (put_dec_trunc8 (ucast n)) (\<lambda>p. Ret (p1 @ p))))"

text \<open>The result of \<^verbatim>\<open>num_to_str\<close> and the memory; the bytes of a list are stored one by one.\<close>

fun store :: "ulong \<Rightarrow> u8 list \<Rightarrow> bytes \<Rightarrow> bytes" where
  "store p [] m = m"
| "store p (x # xs) m = store (p + 1) xs (m(p := x))"

definition num_to_str :: "ulong \<Rightarrow> u32 \<Rightarrow> u64 \<Rightarrow> u32 \<Rightarrow> bytes \<Rightarrow> (u32 \<times> bytes) outcome" where
  "num_to_str buf sz num width m =
     bnd (if num \<le> 9 then Ret [0x30 + ucast num] else put_dec num) (\<lambda>tmp.
     let len = (of_nat (length tmp) :: u32)
     in if sint len > sint sz \<or> width > sz then Ret (0, m)
        else let (width, m) = (if width > len then (width - len, store buf (replicate (unat (width - len)) 0x20) m) else (0, m))
             in Ret (len + width, store (buf + ucast width) (rev tmp) m))"

section \<open>Numbers\<close>

datatype format_type =
    FORMAT_TYPE_NONE | FORMAT_TYPE_WIDTH | FORMAT_TYPE_PRECISION | FORMAT_TYPE_CHAR | FORMAT_TYPE_STR
  | FORMAT_TYPE_PTR | FORMAT_TYPE_PERCENT_CHAR | FORMAT_TYPE_INVALID | FORMAT_TYPE_LONG_LONG
  | FORMAT_TYPE_ULONG | FORMAT_TYPE_LONG | FORMAT_TYPE_UBYTE | FORMAT_TYPE_BYTE | FORMAT_TYPE_USHORT
  | FORMAT_TYPE_SHORT | FORMAT_TYPE_UINT | FORMAT_TYPE_INT | FORMAT_TYPE_SIZE_T | FORMAT_TYPE_PTRDIFF

record printf_spec =
  sp_type :: format_type
  field_width :: int
  sp_flags :: u8
  sp_base :: u8
  precision :: int

definition SIGN :: u8 where "SIGN = 1"
definition LEFT :: u8 where "LEFT = 2"
definition PLUS :: u8 where "PLUS = 4"
definition SPACE :: u8 where "SPACE = 8"
definition ZEROPAD :: u8 where "ZEROPAD = 16"
definition SMALL :: u8 where "SMALL = 32"
definition SPECIAL :: u8 where "SPECIAL = 64"
definition FIELD_WIDTH_MAX :: int where "FIELD_WIDTH_MAX = 2 ^ 23 - 1"
definition PRECISION_MAX :: int where "PRECISION_MAX = 2 ^ 15 - 1"

text \<open>Assignments to the bit fields of 24 and 16 bits.\<close>

definition set_width :: "int \<Rightarrow> printf_spec \<Rightarrow> printf_spec" where
  "set_width w spec = spec\<lparr>field_width := signed_take_bit 23 w\<rparr>"

definition set_prec :: "int \<Rightarrow> printf_spec \<Rightarrow> printf_spec" where
  "set_prec p spec = spec\<lparr>precision := signed_take_bit 15 p\<rparr>"

definition putc :: "ulong \<Rightarrow> u8 \<Rightarrow> out \<Rightarrow> out" where
  "putc end c st = (case st of (buf, m) \<Rightarrow> (buf + 1, if buf < end then m(buf := c) else m))"

text \<open>\<^verbatim>\<open>while (--field_width >= 0)\<close> with a store of \<open>c\<close>.\<close>

function pad_loop :: "ulong \<Rightarrow> u8 \<Rightarrow> int \<Rightarrow> out \<Rightarrow> int \<times> out" where
  "pad_loop end c fw st =
     (let fw = fw - 1 in if fw \<ge> 0 then pad_loop end c fw (putc end c st) else (fw, st))"
  by pat_completeness auto
termination by (relation "measure (\<lambda>(end, c, fw, st). nat fw)") auto

text \<open>\<^verbatim>\<open>while (i <= --precision)\<close>.\<close>

function prec_loop :: "ulong \<Rightarrow> int \<Rightarrow> int \<Rightarrow> out \<Rightarrow> out" where
  "prec_loop end i prec st =
     (let prec = prec - 1 in if i \<le> prec then prec_loop end i prec (putc end 0x30 st) else st)"
  by pat_completeness auto
termination by (relation "measure (\<lambda>(end, i, p, st). nat (p - i))") auto

definition hex_asc_upper :: "u8 list" where
  "hex_asc_upper = [0x30, 0x31, 0x32, 0x33, 0x34, 0x35, 0x36, 0x37, 0x38, 0x39, 0x41, 0x42, 0x43, 0x44, 0x45, 0x46]"

text \<open>The \<^verbatim>\<open>do\<close> loop for octal and hexadecimal digits, least significant digit first; \<open>n\<close> is the shift less 1.\<close>

function hex_loop :: "u8 \<Rightarrow> nat \<Rightarrow> u8 \<Rightarrow> u64 \<Rightarrow> u8 list" where
  "hex_loop msk n locase num =
     (hex_asc_upper ! unat (ucast num AND msk) OR locase) #
       (if drop_bit (Suc n) num \<noteq> 0 then hex_loop msk n locase (drop_bit (Suc n) num) else [])"
  by pat_completeness auto
termination by (relation "measure (\<lambda>(msk, n, locase, num). unat num)") (auto intro: shift_less)

definition number_digits :: "u8 \<Rightarrow> u8 \<Rightarrow> u64 \<Rightarrow> u8 list outcome" where
  "number_digits base locase num =
     (if num < ucast base then Ret [hex_asc_upper ! unat num OR locase]
      else if base \<noteq> 10 then Ret (hex_loop (base - 1) (if base = 16 then 3 else 2) locase num)
      else put_dec num)"

definition number :: "ulong \<Rightarrow> u64 \<Rightarrow> printf_spec \<Rightarrow> out \<Rightarrow> out outcome" where
  "number end num spec st =
     (let flags = sp_flags spec; base = sp_base spec;
          need_pfx = (flags AND SPECIAL \<noteq> 0 \<and> base \<noteq> 10);
          is_zero = (num = 0);
          fw = field_width spec; prec = precision spec;
          locase = flags AND SMALL;
          flags = (if flags AND LEFT \<noteq> 0 then flags AND NOT ZEROPAD else flags);
          (sign, num, fw) =
            (if flags AND SIGN \<noteq> 0
             then if sint num < 0 then (0x2d, - num, fw - 1)
                  else if flags AND PLUS \<noteq> 0 then (0x2b, num, fw - 1)
                  else if flags AND SPACE \<noteq> 0 then (0x20, num, fw - 1)
                  else (0, num, fw)
             else (0 :: u8, num, fw));
          fw = (if need_pfx then if base = 16 then fw - 2 else if \<not> is_zero then fw - 1 else fw else fw)
      in bnd (number_digits base locase num) (\<lambda>tmp.
         let i = int (length tmp);
             prec = (if i > prec then i else prec);
             fw = fw - prec;
             (fw, st) = (if flags AND (ZEROPAD OR LEFT) = 0 then pad_loop end 0x20 fw st else (fw, st));
             st = (if sign \<noteq> 0 then putc end sign st else st);
             st = (if need_pfx \<and> (base = 16 \<or> \<not> is_zero) then putc end 0x30 st else st);
             st = (if need_pfx \<and> base = 16 then putc end (0x58 OR locase) st else st);
             (fw, st) = (if flags AND LEFT = 0 then pad_loop end (0x20 + (flags AND ZEROPAD)) fw st else (fw, st));
             st = prec_loop end i prec st;
             st = fold (putc end) (rev tmp) st;
             (fw, st) = pad_loop end 0x20 fw st
         in Ret st))"

declare pad_loop.simps [simp del] prec_loop.simps [simp del] hex_loop.simps [simp del]

section \<open>Strings\<close>

definition move_right :: "ulong \<Rightarrow> ulong \<Rightarrow> u32 \<Rightarrow> u32 \<Rightarrow> bytes \<Rightarrow> bytes" where
  "move_right buf end len spaces m =
     (if buf \<ge> end then m
      else let sz = end - buf
           in if sz \<le> ucast spaces then snd (memset buf 0x20 sz m)
              else let m = (if len \<noteq> 0
                            then let len = (if ucast len > sz - ucast spaces then ucast (sz - ucast spaces) else len)
                                 in snd (memmove (buf + ucast spaces) buf (ucast len) m)
                            else m)
                   in snd (memset buf 0x20 (ucast spaces) m))"

fun putn :: "ulong \<Rightarrow> u8 \<Rightarrow> nat \<Rightarrow> out \<Rightarrow> out" where
  "putn end c 0 st = st"
| "putn end c (Suc n) st = putn end c n (putc end c st)"

definition widen_string :: "int \<Rightarrow> ulong \<Rightarrow> printf_spec \<Rightarrow> out \<Rightarrow> out" where
  "widen_string n end spec st =
     (if n \<ge> field_width spec then st
      else let spaces = (word_of_int (field_width spec - n) :: u32)
           in if sp_flags spec AND LEFT = 0
              then case st of (buf, m) \<Rightarrow>
                     (buf + ucast spaces, move_right (buf - word_of_int n) end (word_of_int n) spaces m)
              else putn end 0x20 (unat spaces) st)"

text \<open>A negative limit never reaches 0; then only the NUL byte ends the loop.\<close>

partial_function (option) string_loop :: "ulong \<Rightarrow> int \<Rightarrow> ulong \<Rightarrow> int \<Rightarrow> out \<Rightarrow> (int \<times> out) option" where
  "string_loop end lim s len st =
     (if lim = 0 then Some (len, st)
      else let c = snd st s
           in if c = 0 then Some (len, st) else string_loop end (lim - 1) (s + 1) (len + 1) (putc end c st))"

definition string_nocheck :: "ulong \<Rightarrow> ulong \<Rightarrow> printf_spec \<Rightarrow> out \<Rightarrow> out outcome" where
  "string_nocheck end s spec st =
     bnd (ended (string_loop end (precision spec) s 0 st)) (\<lambda>(len, st). Ret (widen_string len end spec st))"

text \<open>The same loop over a literal.\<close>

fun literal_loop :: "ulong \<Rightarrow> int \<Rightarrow> u8 list \<Rightarrow> int \<Rightarrow> out \<Rightarrow> int \<times> out" where
  "literal_loop end lim [] len st = (len, st)"
| "literal_loop end lim (c # cs) len st =
     (if lim = 0 then (len, st) else literal_loop end (lim - 1) cs (len + 1) (putc end c st))"

definition error_string :: "ulong \<Rightarrow> u8 list \<Rightarrow> printf_spec \<Rightarrow> out \<Rightarrow> out" where
  "error_string end s spec st =
     (let spec = (if precision spec = -1 then spec\<lparr>precision := 16\<rparr> else spec);
          (len, st) = literal_loop end (precision spec) s 0 st
      in widen_string len end spec st)"

definition PAGE_BYTES :: ulong where "PAGE_BYTES = 4096"
definition MAX_ERRNO :: ulong where "MAX_ERRNO = 4095"

definition check_pointer_msg :: "ulong \<Rightarrow> u8 list option" where
  "check_pointer_msg ptr =
     (if ptr = 0 then Some [0x28, 0x6e, 0x75, 0x6c, 0x6c, 0x29]
      else if ptr < PAGE_BYTES \<or> ptr \<ge> - MAX_ERRNO then Some [0x28, 0x65, 0x66, 0x61, 0x75, 0x6c, 0x74, 0x29]
      else None)"

text \<open>\<^verbatim>\<open>check_pointer\<close> and \<^verbatim>\<open>string\<close>.\<close>

definition string_out :: "ulong \<Rightarrow> ulong \<Rightarrow> printf_spec \<Rightarrow> out \<Rightarrow> out outcome" where
  "string_out end s spec st =
     (case check_pointer_msg s of
        Some err_msg \<Rightarrow> Ret (error_string end err_msg spec st)
      | None \<Rightarrow> string_nocheck end s spec st)"

section \<open>Format specifiers\<close>

partial_function (option) skip_atoi :: "bytes \<Rightarrow> ulong \<Rightarrow> u32 \<Rightarrow> (u32 \<times> ulong) option" where
  "skip_atoi m s i =
     (let i = i * 10 + scast (m s) - 0x30; s = s + 1
      in if isdigit (m s) then skip_atoi m s i else Some (i, s))"

partial_function (option) percent_loop :: "bytes \<Rightarrow> ulong \<Rightarrow> ulong option" where
  "percent_loop m fmt = (if m fmt = 0 \<or> m fmt = 0x25 then Some fmt else percent_loop m (fmt + 1))"

definition flag_bit :: "u8 \<Rightarrow> u8 option" where
  "flag_bit c =
     (if c = 0x2d then Some LEFT else if c = 0x2b then Some PLUS else if c = 0x20 then Some SPACE
      else if c = 0x23 then Some SPECIAL else if c = 0x30 then Some ZEROPAD else None)"

partial_function (option) flags_loop :: "bytes \<Rightarrow> ulong \<Rightarrow> u8 \<Rightarrow> (ulong \<times> u8) option" where
  "flags_loop m fmt flags =
     (let fmt = fmt + 1
      in case flag_bit (m fmt) of
           Some b \<Rightarrow> flags_loop m fmt (flags OR b)
         | None \<Rightarrow> Some (fmt, flags))"

text \<open>From the label \<^verbatim>\<open>qualifier\<close> on: the position behind the specifier and the decoded specifier.\<close>

definition qualifier_at :: "bytes \<Rightarrow> ulong \<Rightarrow> u8 \<times> ulong" where
  "qualifier_at m fmt =
     (if m fmt = 0x68 \<or> fast_tolower (m fmt) = 0x6c \<or> m fmt = 0x7a \<or> m fmt = 0x74
      then let q = m fmt; fmt = fmt + 1
           in if q = m fmt
              then if q = 0x6c then (0x4c, fmt + 1) else if q = 0x68 then (0x48, fmt + 1) else (q, fmt)
              else (q, fmt)
      else (0, fmt))"

definition int_type :: "u8 \<Rightarrow> u8 \<Rightarrow> format_type" where
  "int_type q flags =
     (let signed = (flags AND SIGN \<noteq> 0)
      in if q = 0x4c then FORMAT_TYPE_LONG_LONG
         else if q = 0x6c then if signed then FORMAT_TYPE_LONG else FORMAT_TYPE_ULONG
         else if q = 0x7a then FORMAT_TYPE_SIZE_T
         else if q = 0x74 then FORMAT_TYPE_PTRDIFF
         else if q = 0x48 then if signed then FORMAT_TYPE_BYTE else FORMAT_TYPE_UBYTE
         else if q = 0x68 then if signed then FORMAT_TYPE_SHORT else FORMAT_TYPE_USHORT
         else if signed then FORMAT_TYPE_INT else FORMAT_TYPE_UINT)"

definition decode_conversion :: "u8 \<Rightarrow> u8 \<Rightarrow> printf_spec \<Rightarrow> printf_spec" where
  "decode_conversion c q spec =
     (let spec = spec\<lparr>sp_base := 10\<rparr>;
          integer = (\<lambda>spec. spec\<lparr>sp_type := int_type q (sp_flags spec)\<rparr>)
      in if c = 0x63 then spec\<lparr>sp_type := FORMAT_TYPE_CHAR\<rparr>
         else if c = 0x73 then spec\<lparr>sp_type := FORMAT_TYPE_STR\<rparr>
         else if c = 0x70 then spec\<lparr>sp_type := FORMAT_TYPE_PTR\<rparr>
         else if c = 0x25 then spec\<lparr>sp_type := FORMAT_TYPE_PERCENT_CHAR\<rparr>
         else if c = 0x6f then integer (spec\<lparr>sp_base := 8\<rparr>)
         else if c = 0x78 then integer (spec\<lparr>sp_flags := sp_flags spec OR SMALL, sp_base := 16\<rparr>)
         else if c = 0x58 then integer (spec\<lparr>sp_base := 16\<rparr>)
         else if c = 0x64 \<or> c = 0x69 then integer (spec\<lparr>sp_flags := sp_flags spec OR SIGN\<rparr>)
         else if c = 0x75 then integer spec
         else spec\<lparr>sp_type := FORMAT_TYPE_INVALID\<rparr>)"

definition decode_qualifier :: "bytes \<Rightarrow> ulong \<Rightarrow> printf_spec \<Rightarrow> ulong \<times> printf_spec" where
  "decode_qualifier m fmt spec =
     (let (q, fmt) = qualifier_at m fmt; spec = decode_conversion (m fmt) q spec
      in (if sp_type spec = FORMAT_TYPE_INVALID then fmt else fmt + 1, spec))"

text \<open>From the label \<^verbatim>\<open>precision\<close> on.\<close>

definition decode_precision :: "bytes \<Rightarrow> ulong \<Rightarrow> printf_spec \<Rightarrow> (ulong \<times> printf_spec) option" where
  "decode_precision m fmt spec =
     (let spec = spec\<lparr>precision := -1\<rparr>
      in if m fmt = 0x2e
         then let fmt = fmt + 1
              in if isdigit (m fmt)
                 then Option.bind (skip_atoi m fmt 0) (\<lambda>(i, fmt).
                      let spec = set_prec (sint i) spec
                      in Some (decode_qualifier m fmt (if precision spec < 0 then spec\<lparr>precision := 0\<rparr> else spec)))
                 else if m fmt = 0x2a then Some (fmt + 1, spec\<lparr>sp_type := FORMAT_TYPE_PRECISION\<rparr>)
                 else Some (decode_qualifier m fmt spec)
         else Some (decode_qualifier m fmt spec))"

text \<open>From the loop over the flags on; \<open>fmt\<close> is at the percent sign.\<close>

definition decode_directive :: "bytes \<Rightarrow> ulong \<Rightarrow> printf_spec \<Rightarrow> (ulong \<times> printf_spec) option" where
  "decode_directive m fmt spec =
     Option.bind (flags_loop m fmt 0) (\<lambda>(fmt, flags).
       let spec = spec\<lparr>sp_flags := flags, field_width := -1\<rparr>
       in if isdigit (m fmt)
          then Option.bind (skip_atoi m fmt 0) (\<lambda>(i, fmt). decode_precision m fmt (set_width (sint i) spec))
          else if m fmt = 0x2a then Some (fmt + 1, spec\<lparr>sp_type := FORMAT_TYPE_WIDTH\<rparr>)
          else decode_precision m fmt spec)"

text \<open>The position behind what was decoded (the source returns its distance from the start) and the specifier.\<close>

definition format_decode :: "bytes \<Rightarrow> ulong \<Rightarrow> printf_spec \<Rightarrow> (ulong \<times> printf_spec) option" where
  "format_decode m start spec =
     (if sp_type spec = FORMAT_TYPE_WIDTH
      then let spec = (if field_width spec < 0
                       then (set_width (- field_width spec) spec)\<lparr>sp_flags := sp_flags spec OR LEFT\<rparr> else spec)
           in decode_precision m start (spec\<lparr>sp_type := FORMAT_TYPE_NONE\<rparr>)
      else if sp_type spec = FORMAT_TYPE_PRECISION
      then let spec = (if precision spec < 0 then spec\<lparr>precision := 0\<rparr> else spec)
           in Some (decode_qualifier m start (spec\<lparr>sp_type := FORMAT_TYPE_NONE\<rparr>))
      else let spec = spec\<lparr>sp_type := FORMAT_TYPE_NONE\<rparr>
           in Option.bind (percent_loop m start) (\<lambda>fmt.
              if fmt \<noteq> start \<or> m fmt = 0 then Some (fmt, spec) else decode_directive m fmt spec))"

definition set_field_width :: "int \<Rightarrow> printf_spec \<Rightarrow> printf_spec" where
  "set_field_width width spec =
     (let spec = set_width width spec
      in if field_width spec \<noteq> width then set_width (min (max width (- FIELD_WIDTH_MAX)) FIELD_WIDTH_MAX) spec else spec)"

definition set_precision :: "int \<Rightarrow> printf_spec \<Rightarrow> printf_spec" where
  "set_precision prec spec =
     (let spec = set_prec prec spec
      in if precision spec \<noteq> prec then set_prec (min (max prec 0) PRECISION_MAX) spec else spec)"

section \<open>Formatting\<close>

text \<open>The next argument slot; an \<^verbatim>\<open>int\<close> is the low half of it.\<close>

definition va_arg :: "ulong list \<Rightarrow> (ulong \<times> ulong list) outcome" where
  "va_arg args = (case args of [] \<Rightarrow> Fault | a # args \<Rightarrow> Ret (a, args))"

definition va_int :: "ulong \<Rightarrow> u32" where
  "va_int a = ucast a"

text \<open>\<^verbatim>\<open>while (--spec.field_width > 0)\<close>, where the field has 24 bits.\<close>

function char_pad :: "ulong \<Rightarrow> int \<Rightarrow> out \<Rightarrow> int \<times> out" where
  "char_pad end fw st = (let fw = signed_take_bit 23 (fw - 1) in if fw > 0 then char_pad end fw (putc end 0x20 st) else (fw, st))"
  by pat_completeness auto
termination by (relation "measure (\<lambda>(end, fw, st). nat (take_bit 24 fw))", rule wf_measure) (simp only: in_measure split_conv width_field_less)

declare char_pad.simps [simp del]

definition char_out :: "ulong \<Rightarrow> u8 \<Rightarrow> printf_spec \<Rightarrow> out \<Rightarrow> printf_spec \<times> out" where
  "char_out end c spec st =
     (let (fw, st) = (if sp_flags spec AND LEFT = 0 then char_pad end (field_width spec) st else (field_width spec, st));
          st = putc end c st;
          (fw, st) = char_pad end fw st
      in (set_width fw spec, st))"

definition int_arg :: "printf_spec \<Rightarrow> ulong \<Rightarrow> u64" where
  "int_arg spec a =
     (case sp_type spec of
        FORMAT_TYPE_LONG_LONG \<Rightarrow> a | FORMAT_TYPE_ULONG \<Rightarrow> a | FORMAT_TYPE_LONG \<Rightarrow> a
      | FORMAT_TYPE_SIZE_T \<Rightarrow> a | FORMAT_TYPE_PTRDIFF \<Rightarrow> a
      | FORMAT_TYPE_UBYTE \<Rightarrow> ucast (ucast (va_int a) :: u8)
      | FORMAT_TYPE_BYTE \<Rightarrow> scast (ucast (va_int a) :: u8)
      | FORMAT_TYPE_USHORT \<Rightarrow> ucast (ucast (va_int a) :: u16)
      | FORMAT_TYPE_SHORT \<Rightarrow> scast (ucast (va_int a) :: u16)
      | FORMAT_TYPE_INT \<Rightarrow> scast (va_int a)
      | _ \<Rightarrow> ucast (va_int a))"

definition literal_out :: "ulong \<Rightarrow> ulong \<Rightarrow> ulong \<Rightarrow> out \<Rightarrow> out" where
  "literal_out end old_fmt read st =
     (case st of (str, m) \<Rightarrow>
        (str + read,
         if str < end then snd (memcpy str old_fmt (if read > end - str then end - str else read) m) else m))"

text \<open>The body of the loop behind the call of \<^verbatim>\<open>format_decode\<close>; \<open>None\<close> in the result is the jump to \<^verbatim>\<open>out\<close>.\<close>

definition vsnprintf_step ::
  "ulong \<Rightarrow> ulong \<Rightarrow> ulong \<Rightarrow> printf_spec \<Rightarrow> ulong list \<Rightarrow> out \<Rightarrow> ((printf_spec \<times> ulong list) option \<times> out) outcome" where
  "vsnprintf_step end old_fmt fmt spec args st =
     (case sp_type spec of
        FORMAT_TYPE_NONE \<Rightarrow> Ret (Some (spec, args), literal_out end old_fmt (fmt - old_fmt) st)
      | FORMAT_TYPE_WIDTH \<Rightarrow>
          bnd (va_arg args) (\<lambda>(a, args). Ret (Some (set_field_width (sint (va_int a)) spec, args), st))
      | FORMAT_TYPE_PRECISION \<Rightarrow>
          bnd (va_arg args) (\<lambda>(a, args). Ret (Some (set_precision (sint (va_int a)) spec, args), st))
      | FORMAT_TYPE_CHAR \<Rightarrow>
          bnd (va_arg args) (\<lambda>(a, args).
          let (spec, st) = char_out end (ucast (va_int a)) spec st in Ret (Some (spec, args), st))
      | FORMAT_TYPE_STR \<Rightarrow>
          bnd (va_arg args) (\<lambda>(a, args). bnd (string_out end a spec st) (\<lambda>st. Ret (Some (spec, args), st)))
      | FORMAT_TYPE_PTR \<Rightarrow> Fault
      | FORMAT_TYPE_PERCENT_CHAR \<Rightarrow> Ret (Some (spec, args), putc end 0x25 st)
      | FORMAT_TYPE_INVALID \<Rightarrow> Ret (None, st)
      | _ \<Rightarrow> bnd (va_arg args) (\<lambda>(a, args).
               bnd (number end (int_arg spec a) spec st) (\<lambda>st. Ret (Some (spec, args), st))))"

partial_function (option) vsnprintf_loop ::
  "ulong \<Rightarrow> ulong \<Rightarrow> printf_spec \<Rightarrow> ulong list \<Rightarrow> out \<Rightarrow> out outcome option" where
  "vsnprintf_loop end fmt spec args st =
     (if snd st fmt = 0 then Some (Ret st)
      else Option.bind (format_decode (snd st) fmt spec) (\<lambda>(fmt', spec).
           case vsnprintf_step end fmt fmt' spec args st of
             Ret (Some (spec, args), st) \<Rightarrow> vsnprintf_loop end fmt' spec args st
           | Ret (None, st) \<Rightarrow> Some (Ret st)
           | Fault \<Rightarrow> Some Fault | Bug \<Rightarrow> Some Bug | Hang \<Rightarrow> Some Hang))"

declare skip_atoi.simps [code] percent_loop.simps [code] flags_loop.simps [code] vsnprintf_loop.simps [code]
  string_loop.simps [code]

definition spec0 :: printf_spec where
  "spec0 = \<lparr>sp_type = FORMAT_TYPE_NONE, field_width = 0, sp_flags = 0, sp_base = 0, precision = 0\<rparr>"

text \<open>The value the function returns, an \<^verbatim>\<open>int\<close>, and the memory.\<close>

definition vsnprintf :: "ulong \<Rightarrow> ulong \<Rightarrow> ulong \<Rightarrow> ulong list \<Rightarrow> bytes \<Rightarrow> (u32 \<times> bytes) outcome" where
  "vsnprintf buf sz fmt args m =
     (if unat sz > INT_MAX then Ret (0, m)
      else let end = buf + sz;
               (end, sz) = (if end < buf then (-1, -1 - buf) else (end, sz))
           in bnd (ended (vsnprintf_loop end fmt spec0 args (buf, m))) (\<lambda>r. bnd r (\<lambda>(str, m).
              let m = (if sz > 0 then if str < end then m(str := 0) else m(end - 1 := 0) else m)
              in Ret (ucast (str - buf), m))))"

definition vscnprintf :: "ulong \<Rightarrow> ulong \<Rightarrow> ulong \<Rightarrow> ulong list \<Rightarrow> bytes \<Rightarrow> (u32 \<times> bytes) outcome" where
  "vscnprintf buf sz fmt args m =
     bnd (vsnprintf buf sz fmt args m) (\<lambda>(i, m).
       Ret (if scast i < sz then i else if sz \<noteq> 0 then ucast (sz - 1) else 0, m))"

definition snprintf :: "ulong \<Rightarrow> ulong \<Rightarrow> ulong \<Rightarrow> ulong list \<Rightarrow> bytes \<Rightarrow> (u32 \<times> bytes) outcome" where
  "snprintf buf sz fmt args m = vsnprintf buf sz fmt args m"

definition scnprintf :: "ulong \<Rightarrow> ulong \<Rightarrow> ulong \<Rightarrow> ulong list \<Rightarrow> bytes \<Rightarrow> (u32 \<times> bytes) outcome" where
  "scnprintf buf sz fmt args m = vscnprintf buf sz fmt args m"

definition vsprintf :: "ulong \<Rightarrow> ulong \<Rightarrow> ulong list \<Rightarrow> bytes \<Rightarrow> (u32 \<times> bytes) outcome" where
  "vsprintf buf fmt args m = vsnprintf buf (of_nat INT_MAX) fmt args m"

definition sprintf :: "ulong \<Rightarrow> ulong \<Rightarrow> ulong list \<Rightarrow> bytes \<Rightarrow> (u32 \<times> bytes) outcome" where
  "sprintf buf fmt args m = vsnprintf buf (of_nat INT_MAX) fmt args m"

section \<open>The decimal digits\<close>

text \<open>The digits of a number, least significant first; with a fixed count, and as many as it has.\<close>

definition digit_char :: "nat \<Rightarrow> u8" where
  "digit_char d = of_nat d + 0x30"

fun rfix :: "nat \<Rightarrow> nat \<Rightarrow> u8 list" where
  "rfix 0 n = []"
| "rfix (Suc k) n = digit_char (n mod 10) # rfix k (n div 10)"

fun rdec :: "nat \<Rightarrow> u8 list" where
  "rdec n = digit_char (n mod 10) # (if n < 10 then [] else rdec (n div 10))"

declare rdec.simps [simp del]

lemma rdec_split: "10 ^ k \<le> n \<Longrightarrow> rdec n = rfix k n @ rdec (n div 10 ^ k)"
proof (induction k arbitrary: n)
  case (Suc k)
  then have n: "10 ^ k \<le> n div 10" and ge: "\<not> n < 10"
    by (simp_all add: less_eq_div_iff_mult_less_eq) (metis Suc.prems le_trans not_less one_le_numeral one_le_power power_Suc mult_le_mono1 mult.commute mult_1)
  show ?case using Suc.IH [OF n] ge by (subst rdec.simps) (simp add: div_mult2_eq)
qed simp

lemma rfix_add: "rfix (j + k) n = rfix j n @ rfix k (n div 10 ^ j)"
  by (induction j arbitrary: n) (simp_all add: div_mult2_eq)

lemma rfix_mod: "rfix k (n mod 10 ^ k) = rfix k n"
proof (induction k arbitrary: n)
  case (Suc k)
  have "n mod 10 ^ Suc k mod 10 = n mod 10" by (rule mod_mod_cancel) simp
  moreover have "n mod 10 ^ Suc k div 10 = n div 10 mod 10 ^ k"
    using mod_mult2_eq [of n 10 "10 ^ k"] by simp
  ultimately show ?case using Suc.IH [of "n div 10"] by simp
qed simp

lemma rfix_2: "rfix 2 n = [digit_char (n mod 10), digit_char (n div 10 mod 10)]"
  by (simp add: numeral_2_eq_2)

lemma decpair_eq: "unat x < 100 \<Longrightarrow> decpair x = Ret (rfix 2 (unat x))"
proof -
  assume "unat x < 100"
  then have "x < 100" by (simp add: word_less_nat_alt)
  moreover have "(ucast (x mod 10) :: u8) = of_nat (unat x mod 10)" "(ucast (x div 10) :: u8) = of_nat (unat x div 10 mod 10)"
    using \<open>unat x < 100\<close> by (simp_all add: word_unat_eq_iff unsigned_ucast_eq unsigned_of_nat unat_mod unat_div)
  ultimately show ?thesis by (simp add: decpair_def digit_char_def rfix_2)
qed

lemma put_out_r_eq: "unat r < 100 \<Longrightarrow> put_out_r r = Ret (rdec (unat r))"
proof -
  assume r: "unat r < 100"
  have "rdec (unat r) = (if unat r < 10 then [digit_char (unat r)] else rfix 2 (unat r))"
    using r by (subst rdec.simps, subst rdec.simps) (auto simp: rfix_2 div_less_iff_less_mult)
  then show ?thesis using decpair_eq [OF r] by (simp add: put_out_r_def word_less_nat_alt rfix_2)
qed

lemma div_100_wide:
  assumes "unat r < 10 ^ 8"
  shows "unat (ucast (drop_bit 32 (ucast (r :: u32) * 0x28f5c29 :: u64)) :: u32) = unat r div 100"
proof -
  define q t where "q = unat r div 100" and "t = unat r mod 100"
  have r: "unat r = 100 * q + t" and t: "t < 100" and q: "q < 10 ^ 6" using assms by (auto simp: q_def t_def)
  have "unat (ucast r * 0x28f5c29 :: u64) = unat r * 42949673"
    using assms by (subst unat_mult_lem [THEN iffD1]) (simp_all add: unsigned_ucast_eq take_bit_nat_eq_self)
  then have "unat (drop_bit 32 (ucast r * 0x28f5c29 :: u64)) = unat r * 42949673 div 2 ^ 32"
    by (subst unat_drop_bit_eq) (simp add: drop_bit_eq_div)
  also have "\<dots> = q" using r t q by (intro div_nat_eqI) simp_all
  finally have "unat (drop_bit 32 (ucast r * 0x28f5c29 :: u64)) = q" .
  then show ?thesis using q by (simp add: unsigned_ucast_eq take_bit_nat_eq_self q_def)
qed

lemma div_100_narrow:
  assumes "unat r < 10 ^ 4"
  shows "unat (drop_bit 19 ((r :: u32) * 0x147b)) = unat r div 100"
proof -
  define q t where "q = unat r div 100" and "t = unat r mod 100"
  have r: "unat r = 100 * q + t" and t: "t < 100" and q: "q < 100" using assms by (auto simp: q_def t_def)
  have "unat (r * 0x147b) = unat r * 5243" using assms by (subst unat_mult_lem [THEN iffD1]) simp_all
  then have "unat (drop_bit 19 (r * 0x147b)) = unat r * 5243 div 2 ^ 19"
    by (subst unat_drop_bit_eq) (simp add: drop_bit_eq_div)
  also have "\<dots> = q" using r t q by (intro div_nat_eqI) simp_all
  finally show ?thesis by (simp add: q_def)
qed

lemma pair_of_quotient:
  assumes "unat q = unat r div 100"
  shows "decpair (r - 100 * q) = Ret (rfix 2 (unat r))"
proof -
  have le: "100 * unat q \<le> unat r" using assms by simp
  have lt: "unat r < 2 ^ LENGTH(32)" by (rule unsigned_less)
  have "unat (100 * q) = 100 * unat q"
    using le lt by (subst unat_mult_lem [THEN iffD1]) simp_all
  then have "unat (r - 100 * q) = unat r mod 100"
    using le assms by (simp add: unat_sub word_le_nat_alt modulo_nat_def mult.commute)
  moreover have "rfix 2 (unat r mod 10 ^ 2) = rfix 2 (unat r)" by (rule rfix_mod)
  ultimately show ?thesis using decpair_eq [of "r - 100 * q"] by simp
qed

lemma put_dec_full8_eq: "unat r < 10 ^ 8 \<Longrightarrow> put_dec_full8 r = Ret (rfix 8 (unat r))"
proof -
  assume r: "unat r < 10 ^ 8"
  define q1 :: u32 where "q1 = ucast (drop_bit 32 (ucast r * 0x28f5c29 :: u64))"
  define q2 :: u32 where "q2 = ucast (drop_bit 32 (ucast q1 * 0x28f5c29 :: u64))"
  define q3 where "q3 = drop_bit 19 (q2 * 0x147b)"
  have q1: "unat q1 = unat r div 100" unfolding q1_def by (rule div_100_wide [OF r])
  have q2: "unat q2 = unat q1 div 100" unfolding q2_def by (rule div_100_wide) (use q1 r in simp)
  have q3: "unat q3 = unat q2 div 100" unfolding q3_def by (rule div_100_narrow) (use q1 q2 r in simp)
  have "unat q3 < 100" using q1 q2 q3 r by simp
  moreover have "rfix 8 (unat r) = rfix 2 (unat r) @ rfix 2 (unat q1) @ rfix 2 (unat q2) @ rfix 2 (unat q3)"
    using rfix_add [of 2 6 "unat r"] rfix_add [of 2 4 "unat q1"] rfix_add [of 2 2 "unat q2"] q1 q2 q3 by simp
  ultimately show ?thesis
    unfolding put_dec_full8_def Let_def q1_def [symmetric] unfolding q2_def [symmetric] unfolding q3_def [symmetric]
    by (simp add: pair_of_quotient q1 q2 q3 decpair_eq)
qed

lemma rdec_pair: "100 \<le> n \<Longrightarrow> rdec n = rfix 2 n @ rdec (n div 100)"
  using rdec_split [of 2 n] by simp

lemma put_dec_trunc8_eq: "unat r < 10 ^ 8 \<Longrightarrow> put_dec_trunc8 r = Ret (rdec (unat r))"
proof -
  assume r: "unat r < 10 ^ 8"
  define q1 :: u32 where "q1 = ucast (drop_bit 32 (ucast r * 0x28f5c29 :: u64))"
  define q2 :: u32 where "q2 = ucast (drop_bit 32 (ucast q1 * 0x28f5c29 :: u64))"
  define q3 where "q3 = drop_bit 19 (q2 * 0x147b)"
  have q1: "unat q1 = unat r div 100" unfolding q1_def by (rule div_100_wide [OF r])
  have q2: "unat q2 = unat q1 div 100" unfolding q2_def by (rule div_100_wide) (use q1 r in simp)
  have q3: "unat q3 = unat q2 div 100" unfolding q3_def by (rule div_100_narrow) (use q1 q2 r in simp)
  have lt: "unat q3 < 100" using q1 q2 q3 r by simp
  have small: "w < 100 \<longleftrightarrow> unat w < 100" for w :: u32 by (simp add: word_less_nat_alt)
  have pairs: "decpair (r - 100 * q1) = Ret (rfix 2 (unat r))" "decpair (q1 - 100 * q2) = Ret (rfix 2 (unat q1))"
    "decpair (q2 - 100 * q3) = Ret (rfix 2 (unat q2))"
    by (simp_all only: pair_of_quotient q1 q2 q3)
  have digs: "100 \<le> unat r \<Longrightarrow> rdec (unat r) = rfix 2 (unat r) @ rdec (unat q1)"
    "100 \<le> unat q1 \<Longrightarrow> rdec (unat q1) = rfix 2 (unat q1) @ rdec (unat q2)"
    "100 \<le> unat q2 \<Longrightarrow> rdec (unat q2) = rfix 2 (unat q2) @ rdec (unat q3)"
    by (simp_all only: rdec_pair q1 q2 q3)
  show ?thesis
    unfolding put_dec_trunc8_def Let_def q1_def [symmetric] unfolding q2_def [symmetric] unfolding q3_def [symmetric]
    by (auto simp: small pairs put_out_r_eq digs lt not_less)
qed

lemma put_dec_eq: "put_dec n = Ret (rdec (unat n))"
proof -
  have n: "unat n < 2 ^ LENGTH(64)" by (rule unsigned_less)
  have low: "unat (ucast (w mod 100000000) :: u32) = unat w mod 10 ^ 8" for w :: u64
    by (simp add: unsigned_ucast_eq unat_mod take_bit_nat_eq_self)
  have full: "put_dec_full8 (ucast (w mod 100000000)) = Ret (rfix 8 (unat w))" for w :: u64
    using put_dec_full8_eq [of "ucast (w mod 100000000)"] rfix_mod [of 8 "unat w"] by (simp add: low)
  have last: "unat w < 10 ^ 8 \<Longrightarrow> put_dec_trunc8 (ucast w) = Ret (rdec (unat w))" for w :: u64
    using put_dec_trunc8_eq [of "ucast w"] by (simp add: unsigned_ucast_eq take_bit_nat_eq_self)
  have big: "w \<ge> 100000000 \<longleftrightarrow> 10 ^ 8 \<le> unat w" for w :: u64 by (simp add: word_le_nat_alt)
  have dv: "unat (w div 100000000) = unat w div 10 ^ 8" for w :: u64 by (simp add: unat_div)
  have "unat n div 10 ^ 8 div 10 ^ 8 < 10 ^ 8" using n by simp
  then show ?thesis
    using rdec_split [of 8 "unat n"] rdec_split [of 8 "unat n div 10 ^ 8"]
    by (auto simp: put_dec_def big full dv last not_le)
qed

section \<open>Text that is emitted\<close>

definition emit :: "ulong \<Rightarrow> u8 list \<Rightarrow> out \<Rightarrow> out" where
  "emit end xs st = fold (putc end) xs st"

lemma emit_simps [simp]: "emit end [] st = st" "emit end (x # xs) st = emit end xs (putc end x st)"
  by (simp_all add: emit_def)

lemma emit_append [simp]: "emit end (xs @ ys) st = emit end ys (emit end xs st)"
  by (simp add: emit_def)

lemma pad_loop_emit: "pad_loop end c fw st = (if 0 < fw then -1 else fw - 1, emit end (replicate (nat fw) c) st)"
proof (induction "nat fw" arbitrary: fw st)
  case 0
  then show ?case by (subst pad_loop.simps) simp
next
  case (Suc n)
  then have "n = nat (fw - 1)" "0 < fw" by linarith+
  then show ?case using Suc.hyps(1) [of "fw - 1" "putc end c st"] Suc.hyps(2)
    by (subst pad_loop.simps) (auto simp: Let_def simp flip: Suc.hyps(2))
qed

lemma prec_loop_emit: "prec_loop end i p st = emit end (replicate (nat (p - i)) 0x30) st"
proof (induction "nat (p - i)" arbitrary: p st)
  case 0
  then show ?case by (subst prec_loop.simps) (simp add: Let_def)
next
  case (Suc n)
  then have "n = nat (p - 1 - i)" "i \<le> p - 1" by linarith+
  then show ?case using Suc.hyps(1) [of "p - 1" "putc end 0x30 st"] Suc.hyps(2)
    by (subst prec_loop.simps) (simp add: Let_def flip: Suc.hyps(2))
qed

lemma putn_emit: "putn end c n st = emit end (replicate n c) st"
  by (induction n arbitrary: st) simp_all

lemma literal_loop_emit:
  "literal_loop end lim xs len st =
     (let ys = (if lim < 0 then xs else take (nat lim) xs) in (len + int (length ys), emit end ys st))"
proof (induction xs arbitrary: lim len st)
  case (Cons x xs)
  show ?case
  proof (cases "lim = 0")
    case False
    then have "\<not> lim < 0 \<Longrightarrow> nat lim = Suc (nat (lim - 1))" by simp
    then show ?thesis using False Cons.IH [of "lim - 1" "len + 1" "putc end x st"] by (auto simp: Let_def)
  qed simp
qed simp

text \<open>What the code writes, as a function of the position: within the buffer the text, elsewhere the old byte.\<close>

lemma emit_fst [simp]: "fst (emit end xs st) = fst st + of_nat (length xs)"
  by (induction xs arbitrary: st) (auto simp: putc_def split: prod.splits)

lemma emit_snd:
  assumes "unat b + length xs \<le> 2 ^ 64"
  shows "snd (emit end xs (b, m)) q =
    (if unat b \<le> unat q \<and> unat q < unat b + length xs \<and> q < end then xs ! (unat q - unat b) else m q)"
  using assms
proof (induction xs arbitrary: b m)
  case (Cons x xs)
  show ?case
  proof (cases xs)
    case Nil
    moreover have "unat q = unat b \<longleftrightarrow> q = b" by (simp only: word_unat_eq_iff)
    ultimately show ?thesis by (auto simp: putc_def le_less_Suc_eq)
  next
    case (Cons y ys)
    have eq: "unat q = unat b \<longleftrightarrow> q = b" by (simp only: word_unat_eq_iff)
    have lt: "unat b + 1 < 2 ^ 64" using Cons Cons.prems by simp
    then have b1: "unat (b + 1) = unat b + 1" by (subst unat_add_lem [THEN iffD1]) simp_all
    have "snd (emit end (x # xs) (b, m)) q = snd (emit end xs (b + 1, if b < end then m(b := x) else m)) q"
      by (simp add: putc_def)
    also have "\<dots> = (if unat (b + 1) \<le> unat q \<and> unat q < unat (b + 1) + length xs \<and> q < end then xs ! (unat q - unat (b + 1))
        else (if b < end then m(b := x) else m) q)"
      using Cons.prems b1 by (intro Cons.IH) simp
    also have "\<dots> = (if unat b \<le> unat q \<and> unat q < unat b + length (x # xs) \<and> q < end
        then (x # xs) ! (unat q - unat b) else m q)"
      using eq by (cases "q = b") (auto simp: b1 nth_Cons' le_less_Suc_eq)
    finally show ?thesis .
  qed
qed auto

section \<open>The text of a number\<close>

text \<open>The digits in a base, least significant first.\<close>

function rbase :: "u8 \<Rightarrow> nat \<Rightarrow> nat \<Rightarrow> u8 list" where
  "rbase lc b n = (hex_asc_upper ! (n mod b) OR lc) # (if n < b \<or> b < 2 then [] else rbase lc b (n div b))"
  by pat_completeness auto
termination by (relation "measure (\<lambda>(lc, b, n). n)") auto

declare rbase.simps [simp del]

lemma digit_char_hex: "d < 10 \<Longrightarrow> lc \<in> {0, 0x20} \<Longrightarrow> digit_char d = hex_asc_upper ! d OR lc"
proof -
  have "list_all (\<lambda>d. digit_char d = hex_asc_upper ! d OR 0) [0..<10]"
    "list_all (\<lambda>d. digit_char d = hex_asc_upper ! d OR 0x20) [0..<10]" by code_simp+
  then show "d < 10 \<Longrightarrow> lc \<in> {0, 0x20} \<Longrightarrow> ?thesis" unfolding list_all_iff by auto
qed

lemma rdec_rbase: "lc \<in> {0, 0x20} \<Longrightarrow> rdec n = rbase lc 10 n"
  by (induction n rule: rdec.induct) (subst rdec.simps, subst rbase.simps, simp add: digit_char_hex)

lemma low_bits: "n < 8 \<Longrightarrow> unat (ucast (num :: u64) AND mask (Suc n) :: u8) = unat num mod 2 ^ Suc n"
proof -
  assume "n < 8"
  have "ucast num AND mask (Suc n) = (take_bit (Suc n) (ucast num) :: u8)" by (simp only: take_bit_eq_mask)
  moreover have "unat (take_bit (Suc n) (ucast num :: u8)) = take_bit (Suc n) (take_bit 8 (unat num))"
    by (simp only: unsigned_take_bit_eq unsigned_ucast_eq) simp
  moreover have "take_bit (Suc n) (take_bit 8 (unat num)) = take_bit (Suc n) (unat num)"
    using \<open>n < 8\<close> by (simp add: take_bit_take_bit min_def del: take_bit_Suc)
  ultimately show ?thesis by (simp only: take_bit_eq_mod)
qed

lemma hex_loop_rbase:
  assumes "n < 8"
  shows "hex_loop (mask (Suc n)) n lc num = rbase lc (2 ^ Suc n) (unat num)"
proof (induction "unat num" arbitrary: num rule: less_induct)
  case less
  have q: "unat (drop_bit (Suc n) num) = unat num div 2 ^ Suc n"
    by (subst unat_drop_bit_eq) (simp add: drop_bit_eq_div)
  have "drop_bit (Suc n) num = 0 \<longleftrightarrow> unat num < 2 ^ Suc n"
    unfolding unat_eq_0 [symmetric] q by (simp add: div_eq_0_iff)
  moreover have "drop_bit (Suc n) num \<noteq> 0 \<Longrightarrow>
      hex_loop (mask (Suc n)) n lc (drop_bit (Suc n) num) = rbase lc (2 ^ Suc n) (unat num div 2 ^ Suc n)"
    using less [of "drop_bit (Suc n) num", OF shift_less] by (simp only: q) simp
  moreover have "\<not> (2 :: nat) ^ Suc n < 2" by simp
  ultimately show ?case
    unfolding hex_loop.simps [of _ _ _ num] rbase.simps [of _ _ "unat num"] low_bits [OF assms] by simp
qed

definition bases :: "u8 set" where
  "bases = {8, 10, 16}"

lemma number_digits_eq:
  assumes "base \<in> bases" "lc \<in> {0, 0x20}"
  shows "number_digits base lc num = Ret (rbase lc (unat base) (unat num))"
proof (cases "num < ucast base")
  case True
  then have "unat num < unat base" using assms(1) by (auto simp: bases_def word_less_nat_alt)
  then show ?thesis using True by (simp add: number_digits_def rbase.simps)
next
  case False
  have m: "(mask (Suc 2) :: u8) = 7" "(mask (Suc 3) :: u8) = 15" by (simp_all add: mask_eq_exp_minus_1)
  have "hex_loop 7 2 lc num = rbase lc 8 (unat num)" "hex_loop 15 3 lc num = rbase lc 16 (unat num)"
    using hex_loop_rbase [of 2 lc num] hex_loop_rbase [of 3 lc num] unfolding m by simp_all
  then show ?thesis using False assms(1)
    by (auto simp: bases_def number_digits_def put_dec_eq rdec_rbase [OF assms(2)])
qed


definition sign_text :: "u8 \<Rightarrow> u64 \<Rightarrow> u8 list" where
  "sign_text flags num =
     (if flags AND SIGN = 0 then [] else if sint num < 0 then [0x2d]
      else if flags AND PLUS \<noteq> 0 then [0x2b] else if flags AND SPACE \<noteq> 0 then [0x20] else [])"

definition prefix_text :: "u8 \<Rightarrow> u8 \<Rightarrow> u64 \<Rightarrow> u8 list" where
  "prefix_text flags base num =
     (if flags AND SPECIAL = 0 \<or> base = 10 then []
      else if base = 16 then [0x30, 0x58 OR (flags AND SMALL)] else if num = 0 then [] else [0x30])"

definition magnitude :: "u8 \<Rightarrow> u64 \<Rightarrow> nat" where
  "magnitude flags num = (if flags AND SIGN \<noteq> 0 \<and> sint num < 0 then unat (- num) else unat num)"

definition number_text :: "u64 \<Rightarrow> printf_spec \<Rightarrow> u8 list" where
  "number_text num spec =
     (let flags = sp_flags spec;
          sgn = sign_text flags num; pfx = prefix_text flags (sp_base spec) num;
          ds = rev (rbase (flags AND SMALL) (unat (sp_base spec)) (magnitude flags num));
          body = replicate (nat (precision spec - int (length ds))) 0x30 @ ds;
          gap = nat (field_width spec - int (length sgn + length pfx + length body))
      in if flags AND LEFT \<noteq> 0 then sgn @ pfx @ body @ replicate gap 0x20
         else if flags AND ZEROPAD \<noteq> 0 then sgn @ pfx @ replicate gap 0x30 @ body
         else replicate gap 0x20 @ sgn @ pfx @ body)"

lemma and_exp: "(f :: u8) AND push_bit n 1 \<in> {0, push_bit n 1}"
proof (cases "bit f n")
  case True
  then have "f AND push_bit n 1 = push_bit n 1" by (intro bit_eqI) (auto simp: bit_simps)
  then show ?thesis by simp
next
  case False
  then have "f AND push_bit n 1 = 0" by (intro bit_eqI) (auto simp: bit_simps)
  then show ?thesis by simp
qed

lemmas flag_defs = SIGN_def LEFT_def PLUS_def SPACE_def ZEROPAD_def SMALL_def SPECIAL_def

lemma flag_facts:
  fixes f :: u8
  shows "f AND SMALL \<in> {0, 0x20}" "f AND ZEROPAD \<in> {0, 0x10}"
    "f AND (ZEROPAD OR LEFT) = 0 \<longleftrightarrow> f AND ZEROPAD = 0 \<and> f AND LEFT = 0"
    "(f AND NOT ZEROPAD) AND SIGN = f AND SIGN" "(f AND NOT ZEROPAD) AND PLUS = f AND PLUS"
    "(f AND NOT ZEROPAD) AND SPACE = f AND SPACE" "(f AND NOT ZEROPAD) AND LEFT = f AND LEFT"
    "(f AND NOT ZEROPAD) AND ZEROPAD = 0"
  using and_exp [of f 5] and_exp [of f 4]
  by (simp_all only: bit.conj_disj_distrib or_eq_0_iff and.assoc) (simp_all add: flag_defs)

lemma number_emit:
  assumes "sp_base spec \<in> bases"
  shows "number end num spec st = Ret (emit end (number_text num spec) st)"
proof -
  define flags where "flags = sp_flags spec"
  define base where "base = sp_base spec"
  define fw where "fw = field_width spec"
  define prec where "prec = precision spec"
  define flags' where "flags' = (if flags AND LEFT \<noteq> 0 then flags AND NOT ZEROPAD else flags)"
  define sgn where "sgn = sign_text flags num"
  define pfx where "pfx = prefix_text flags base num"
  define num' where "num' = (if flags AND SIGN \<noteq> 0 \<and> sint num < 0 then - num else num)"
  define ds where "ds = rbase (flags AND SMALL) (unat base) (magnitude flags num)"
  have ds: "number_digits base (flags AND SMALL) num' = Ret ds"
    unfolding ds_def magnitude_def num'_def using assms flag_facts(1) [of flags] by (simp add: number_digits_eq base_def)
  have f': "flags' AND SIGN = flags AND SIGN" "flags' AND PLUS = flags AND PLUS" "flags' AND SPACE = flags AND SPACE"
    "flags' AND LEFT = flags AND LEFT" "flags' AND ZEROPAD = (if flags AND LEFT = 0 then flags AND ZEROPAD else 0)"
    by (simp_all add: flags'_def flag_facts)
  have sign: "(if flags' AND SIGN \<noteq> 0
             then if sint num < 0 then (0x2d, - num, fw - 1)
                  else if flags' AND PLUS \<noteq> 0 then (0x2b, num, fw - 1)
                  else if flags' AND SPACE \<noteq> 0 then (0x20, num, fw - 1)
                  else (0, num, fw)
             else (0 :: u8, num, fw)) = (if sgn = [] then 0 else hd sgn, num', fw - int (length sgn))"
    by (simp add: f' sgn_def sign_text_def num'_def)
  have sign_st: "(if (if sgn = [] then 0 else hd sgn) \<noteq> 0 then putc end (if sgn = [] then 0 else hd sgn) st else st) = emit end sgn st" for st
    by (simp add: sgn_def sign_text_def)
  have width: "(if flags AND SPECIAL \<noteq> 0 \<and> base \<noteq> 10 then if base = 16 then w - 2 else if \<not> num = 0 then w - 1 else w else w)
      = w - int (length pfx)" for w :: int
    by (simp add: pfx_def prefix_text_def)
  have pfx_st: "(if (flags AND SPECIAL \<noteq> 0 \<and> base \<noteq> 10) \<and> base = 16
      then putc end (0x58 OR (flags AND SMALL)) (if (flags AND SPECIAL \<noteq> 0 \<and> base \<noteq> 10) \<and> (base = 16 \<or> \<not> num = 0) then putc end 0x30 st else st)
      else (if (flags AND SPECIAL \<noteq> 0 \<and> base \<noteq> 10) \<and> (base = 16 \<or> \<not> num = 0) then putc end 0x30 st else st)) = emit end pfx st" for st
    by (auto simp: pfx_def prefix_text_def)
  define prec' where "prec' = (if int (length ds) > prec then int (length ds) else prec)"
  define gap where "gap = fw - int (length sgn) - int (length pfx) - prec'"
  have zeros: "prec' - int (length ds) = int (nat (prec - int (length ds)))" by (simp add: prec'_def)
  have gap': "field_width spec - int (length sgn + length pfx + length (replicate (nat (prec - int (length ds))) (0x30 :: u8) @ rev ds)) = gap"
    using zeros by (simp add: gap_def fw_def)
  have spelled: "number_text num spec = (if flags AND LEFT \<noteq> 0 then sgn @ pfx @ replicate (nat (prec - int (length ds))) 0x30 @ rev ds @ replicate (nat gap) 0x20
         else if flags AND ZEROPAD \<noteq> 0 then sgn @ pfx @ replicate (nat gap) 0x30 @ replicate (nat (prec - int (length ds))) 0x30 @ rev ds
         else replicate (nat gap) 0x20 @ sgn @ pfx @ replicate (nat (prec - int (length ds))) 0x30 @ rev ds)"
    unfolding number_text_def Let_def flags_def [symmetric] base_def [symmetric] sgn_def [symmetric] pfx_def [symmetric] ds_def [symmetric] prec_def [symmetric] length_rev gap' by simp
  have rest: "number end num spec st = 
        (let (fw, st) = (if flags' AND (ZEROPAD OR LEFT) = 0 then pad_loop end 0x20 gap st else (gap, st));
             st = emit end sgn st; st = emit end pfx st;
             (fw, st) = (if flags' AND LEFT = 0 then pad_loop end (0x20 + (flags' AND ZEROPAD)) fw st else (fw, st));
             st = prec_loop end (int (length ds)) prec' st;
             st = fold (putc end) (rev ds) st;
             (fw, st) = pad_loop end 0x20 fw st
         in Ret st)"
    unfolding number_def flags_def [symmetric] base_def [symmetric] prec_def [symmetric] fw_def [symmetric]
    unfolding Let_def flags'_def [symmetric] sign split_conv width ds bnd.simps prec'_def [symmetric] gap_def [symmetric]
    sign_st pfx_st ..
  show ?thesis
    unfolding rest spelled Let_def prec_loop_emit pad_loop_emit zeros nat_int emit_def [symmetric]
    using flag_facts(2) [of flags] by (auto simp: flag_facts(3) f')
qed

section \<open>Stores\<close>

lemma store_nth:
  assumes "unat p + length xs \<le> 2 ^ 64"
  shows "store p xs m q = (if unat p \<le> unat q \<and> unat q < unat p + length xs then xs ! (unat q - unat p) else m q)"
  using assms
proof (induction xs arbitrary: p m)
  case (Cons x xs)
  have eq: "unat q = unat p \<longleftrightarrow> q = p" by (simp only: word_unat_eq_iff)
  show ?case
  proof (cases xs)
    case Nil
    then show ?thesis using eq by (auto simp: le_less_Suc_eq)
  next
    case (Cons y ys)
    then have "unat p + 1 < 2 ^ 64" using Cons.prems by simp
    then have p1: "unat (p + 1) = unat p + 1" by (subst unat_add_lem [THEN iffD1]) simp_all
    have "store p (x # xs) m q = (if unat (p + 1) \<le> unat q \<and> unat q < unat (p + 1) + length xs
        then xs ! (unat q - unat (p + 1)) else (m(p := x)) q)"
      unfolding store.simps using Cons.prems p1 by (intro Cons.IH) simp
    then show ?thesis using eq by (cases "q = p") (auto simp: p1 nth_Cons' le_less_Suc_eq)
  qed
qed auto

lemma store_at: "unat p + length xs \<le> 2 ^ 64 \<Longrightarrow> at (store p xs m) p xs"
  by (simp add: at_def store_nth unat_offset [where n = "length xs"])

lemma store_frame: "q \<notin> span p (length xs) \<Longrightarrow> store p xs m q = m q"
  by (induction xs arbitrary: p m) (auto simp: span_Suc)

lemma store_append: "store p (xs @ ys) m = store (p + of_nat (length xs)) ys (store p xs m)"
  by (induction xs arbitrary: p m) (simp_all add: algebra_simps)

lemma memset_loop_store: "memset_loop p c n m = store p (replicate n c) m"
  by (induction n arbitrary: p m) simp_all

lemma memcpy_loop_store:
  "at m s xs \<Longrightarrow> span s (length xs) \<inter> span p (length xs) = {} \<Longrightarrow> memcpy_loop p s (length xs) m = store p xs m"
proof (induction xs arbitrary: s p m)
  case (Cons x xs)
  have d: "p \<notin> span (s + 1) (length xs)" "span (s + 1) (length xs) \<inter> span (p + 1) (length xs) = {}"
    using Cons.prems(2) unfolding length_Cons span_Suc by blast+
  have "at m (s + 1) xs" "m s = x" using Cons.prems(1) by (simp_all add: at_Cons)
  have "at (m(p := x)) (s + 1) xs" using \<open>at m (s + 1) xs\<close> d(1) by (elim at_frame) (metis fun_upd_other)
  from Cons.IH [OF this d(2)] show ?case by (simp only: length_Cons memcpy_loop.simps store.simps \<open>m s = x\<close>)
qed simp

lemma emit_store:
  assumes "unat b + length xs \<le> 2 ^ 64"
  shows "emit end xs (b, m) = (b + of_nat (length xs), if b < end then store b (take (unat (end - b)) xs) m else m)"
proof (rule prod_eqI, simp, rule ext)
  fix q
  have d: "b < end \<Longrightarrow> unat (end - b) = unat end - unat b" by (simp add: unat_sub less_imp_le)
  have le: "unat b + length (take (unat (end - b)) xs) \<le> 2 ^ 64" using assms by (simp add: min_def)
  show "snd (emit end xs (b, m)) q = snd (b + of_nat (length xs), if b < end then store b (take (unat (end - b)) xs) m else m) q"
    unfolding emit_snd [OF assms]
  proof (cases "b < end")
    case True
    then have "store b (take (unat (end - b)) xs) m q
      = (if unat b \<le> unat q \<and> unat q < unat b + length xs \<and> q < end then xs ! (unat q - unat b) else m q)"
      unfolding store_nth [OF le] using d by (auto simp: word_less_nat_alt)
    then show "(if unat b \<le> unat q \<and> unat q < unat b + length xs \<and> q < end then xs ! (unat q - unat b) else m q) =
       snd (b + of_nat (length xs), if b < end then store b (take (unat (end - b)) xs) m else m) q" using True by simp
  next
    case False
    then show "(if unat b \<le> unat q \<and> unat q < unat b + length xs \<and> q < end then xs ! (unat q - unat b) else m q) =
       snd (b + of_nat (length xs), if b < end then store b (take (unat (end - b)) xs) m else m) q"
      by (auto simp: word_less_nat_alt)
  qed
qed

lemma emit_frame:
  assumes "unat b + length xs \<le> 2 ^ 64" "buf \<le> b" "q \<notin> {buf..<end}"
  shows "snd (emit end xs (b, m)) q = m q"
proof -
  have "\<not> (unat b \<le> unat q \<and> q < end)"
  proof
    assume *: "unat b \<le> unat q \<and> q < end"
    then have "buf \<le> q" using assms(2) unfolding word_le_nat_alt by linarith
    then show False using * assms(3) by simp
  qed
  then show ?thesis unfolding emit_snd [OF assms(1)] by (metis (no_types))
qed

section \<open>The text of a string\<close>

definition padded :: "printf_spec \<Rightarrow> u8 list \<Rightarrow> u8 list" where
  "padded spec xs =
     (let gap = replicate (nat (field_width spec - int (length xs))) 0x20
      in if sp_flags spec AND LEFT \<noteq> 0 then xs @ gap else gap @ xs)"

lemma unat_of_nat_u32: "n < 2 ^ 32 \<Longrightarrow> unat (of_nat n :: u32) = n" "n < 2 ^ 32 \<Longrightarrow> (ucast (of_nat n :: u32) :: ulong) = of_nat n"
  by (simp_all add: word_unat_eq_iff unsigned_ucast_eq unsigned_of_nat take_bit_nat_eq_self)

lemma clipped_length:
  assumes "l < 2 ^ 32" "r < 2 ^ 64"
  shows "(ucast (if ucast (of_nat l :: u32) > (of_nat r :: ulong) then ucast (of_nat r :: ulong) else (of_nat l :: u32)) :: ulong)
    = of_nat (min l r)"
proof -
  have "ucast (of_nat l :: u32) > (of_nat r :: ulong) \<longleftrightarrow> r < l"
    using assms by (simp add: unat_of_nat_u32 word_less_nat_alt unsigned_of_nat take_bit_nat_eq_self)
  moreover have "r < l \<Longrightarrow> (ucast (ucast (of_nat r :: ulong) :: u32) :: ulong) = of_nat r"
    using assms by (simp add: word_unat_eq_iff unsigned_ucast_eq unsigned_of_nat take_bit_nat_eq_self)
  ultimately show ?thesis using unat_of_nat_u32(2) [OF assms(1)] by (simp add: min_def)
qed

lemma memmove_up:
  assumes "unat (b :: ulong) + k + n \<le> 2 ^ 64" "n < 2 ^ 64" "k < 2 ^ 64"
  shows "snd (memmove (b + of_nat k) b (of_nat n) m) = moved (b + of_nat k) b n m"
proof (cases "k = 0 \<or> n = 0")
  case True
  have n: "unat (of_nat n :: ulong) = n" using assms(2) by (simp add: unsigned_of_nat take_bit_nat_eq_self)
  have id: "moved b b n m = m" "moved p q 0 m = m" for p q by (auto simp: moved_def fun_eq_iff)
  show ?thesis using True memcpy_loop_moved [of b n b m] assms(1) by (auto simp: memmove_def n id)
next
  case False
  have n: "unat (of_nat n :: ulong) = n" using assms(2) by (simp add: unsigned_of_nat take_bit_nat_eq_self)
  have bk: "unat (b + of_nat k) = unat b + k" using assms(1) False by (intro unat_offset [where n = "k + n"]) simp_all
  then have "b < b + of_nat k" "\<not> b + of_nat k \<le> b" using False by (simp_all add: word_less_nat_alt word_le_nat_alt)
  then show ?thesis using memmove_back_moved [of "b + of_nat k" n b m] assms(1) bk
    by (simp add: memmove_def n)
qed

lemma move_right_emit:
  assumes len: "unat b + length xs + k \<le> 2 ^ 64" and small: "length xs < 2 ^ 32" "k < 2 ^ 32"
  shows "move_right b end (of_nat (length xs)) (of_nat k) (snd (emit end xs (b, m))) = snd (emit end (replicate k 0x20 @ xs) (b, m))"
proof (cases "b < end")
  case False
  then have "end \<le> b" by (rule leI)
  then show ?thesis using False len by (simp add: move_right_def emit_store del: emit_append)
next
  case True
  define sz where "sz = unat (end - b)"
  define ys where "ys = take sz xs"
  define zs where "zs = take sz (replicate k (0x20 :: u8) @ xs)"
  define n where "n = min (length xs) (sz - k)"
  have nle: "\<not> end \<le> b" using True by simp
  have szd: "sz = unat end - unat b" unfolding sz_def using True by (simp add: unat_sub less_imp_le)
  have lt: "unat end < 2 ^ LENGTH(64)" by (rule unsigned_less)
  have szb: "unat b + sz < 2 ^ 64" using szd True lt by (simp add: word_less_nat_alt)
  have szw: "end - b = of_nat sz" by (simp add: sz_def)
  have e1: "snd (emit end xs (b, m)) = store b ys m" using True len by (simp add: emit_store ys_def sz_def)
  have e2: "snd (emit end (replicate k 0x20 @ xs) (b, m)) = store b zs m"
    using True len by (simp add: emit_store zs_def sz_def del: emit_append take_append)
  have lens: "unat b + length ys \<le> 2 ^ 64" "unat b + length zs \<le> 2 ^ 64"
    using szb by (simp_all add: ys_def zs_def)
  have k: "ucast (of_nat k :: u32) = (of_nat k :: ulong)" using small(2) by (rule unat_of_nat_u32)
  show ?thesis
  proof (cases "sz \<le> k")
    case True
    then have zs: "zs = replicate sz 0x20" by (simp add: zs_def min_def)
    have "(end - b \<le> of_nat k) = True" using True small(2) szw szb by (simp add: word_le_nat_alt unsigned_of_nat take_bit_nat_eq_self)
    then have "move_right b end (of_nat (length xs)) (of_nat k) (store b ys m) = store b zs (store b ys m)"
      using nle by (simp add: move_right_def k memset_def memset_loop_store zs sz_def)
    also have "\<dots> = store b zs m"
      by (rule ext) (use lens in \<open>auto simp: store_nth zs ys_def\<close>)
    finally show ?thesis by (simp only: e1 e2)
  next
    case False
    then have cmp: "(end - b \<le> of_nat k) = False" using small(2) szw szb by (simp add: word_le_nat_alt unsigned_of_nat take_bit_nat_eq_self)
    define m1 where "m1 = moved (b + of_nat k) b n (store b ys m)"
    have mv: "snd (memmove (b + of_nat k) b (of_nat n) (store b ys m)) = m1"
      unfolding m1_def using szb False small(2) by (intro memmove_up) (auto simp: n_def)
    have bk: "unat (b + of_nat k) = unat b + k" using False szb by (intro unat_offset [where n = "k + 1"]) simp_all
    have rest: "end - b - of_nat k = of_nat (sz - k)" using False szw by (simp add: of_nat_diff)
    have small_sz: "sz - k < 2 ^ 64" using szb by simp
    have "move_right b end (of_nat (length xs)) (of_nat k) (store b ys m) = store b (replicate k 0x20) m1"
    proof (cases "xs = []")
      case True
      then have "m1 = store b ys m" by (auto simp: m1_def n_def moved_def fun_eq_iff)
      then show ?thesis using nle cmp small(2) True
        by (simp add: move_right_def k memset_def memset_loop_store unsigned_of_nat take_bit_nat_eq_self)
    next
      case False
      have nz: "(of_nat (length xs) :: u32) \<noteq> 0" using False small(1) unat_of_nat_u32(1) [OF small(1)] by (metis length_0_conv unat_0)
      have cl: "(ucast (if ucast (of_nat (length xs) :: u32) > end - b - of_nat k then ucast (end - b - of_nat k) else (of_nat (length xs) :: u32)) :: ulong)
        = of_nat n"
        unfolding rest by (rule clipped_length [OF small(1) small_sz, folded n_def])
      have uk: "unat (of_nat k :: ulong) = k" "(ucast (0x20 :: u32) :: u8) = 0x20"
        using small(2) by (simp_all add: unsigned_of_nat take_bit_nat_eq_self)
      show ?thesis
        by (simp only: move_right_def Let_def k nle cmp if_False nz not_False_eq_True if_True cl mv memset_def snd_conv
            memset_loop_store uk)
    qed
    also have "\<dots> = store b zs m"
    proof
      fix q :: ulong
      have zs_len: "length zs = k + n" using False by (simp add: zs_def n_def)
      have lk: "unat b + length (replicate k (0x20 :: u8)) \<le> 2 ^ 64" using lens zs_len by simp
      consider "unat q < unat b \<or> unat b + k + n \<le> unat q" | "unat b \<le> unat q" "unat q < unat b + k"
        | "unat b + k \<le> unat q" "unat q < unat b + k + n" by linarith
      then show "store b (replicate k 0x20) m1 q = store b zs m q"
      proof cases
        case 1
        then have "m1 q = store b ys m q" by (auto simp: m1_def moved_def bk)
        moreover have "store b ys m q = m q" using 1 unfolding store_nth [OF lens(1)] by (auto simp: ys_def n_def)
        ultimately show ?thesis using 1 by (auto simp: store_nth [OF lk] store_nth [OF lens(2)] zs_len)
      next
        case 2
        moreover from this have "unat q - unat b < k" by linarith
        then have "zs ! (unat q - unat b) = 0x20" using False by (simp add: zs_def nth_append)
        ultimately show ?thesis by (auto simp: store_nth [OF lk] store_nth [OF lens(2)] zs_len)
      next
        case 3
        then have d: "unat (b + (q - (b + of_nat k))) = unat b + (unat q - (unat b + k))"
          using unat_diff_offset [of b n "b + of_nat k" q] lens zs_len by (simp add: bk)
        have "m1 q = store b ys m (b + (q - (b + of_nat k)))" using 3 by (simp add: m1_def moved_def bk)
        also have "\<dots> = xs ! (unat q - (unat b + k))"
          using 3 unfolding store_nth [OF lens(1)] d by (auto simp: ys_def n_def ac_simps)
        finally have "m1 q = zs ! (unat q - unat b)" using 3 False by (auto simp: zs_def n_def nth_append)
        then show ?thesis using 3 by (auto simp: store_nth [OF lk] store_nth [OF lens(2)] zs_len)
      qed
    qed
    finally show ?thesis by (simp only: e1 e2)
  qed
qed


lemma widen_string_emit:
  assumes w: "field_width spec < 2 ^ 23" and len: "unat b + length (padded spec xs) < 2 ^ 64"
  shows "widen_string (int (length xs)) end spec (emit end xs (b, m)) = emit end (padded spec xs) (b, m)"
proof (cases "int (length xs) \<ge> field_width spec")
  case True
  then show ?thesis by (simp add: widen_string_def padded_def)
next
  case False
  define k where "k = nat (field_width spec - int (length xs))"
  have kw: "field_width spec - int (length xs) = int k" using False by (simp add: k_def)
  have k: "word_of_int (field_width spec - int (length xs)) = (of_nat k :: u32)" "k < 2 ^ 32" "length xs < 2 ^ 32"
    unfolding kw using False w kw by simp_all
  have uk: "unat (of_nat k :: u32) = k" "(ucast (of_nat k :: u32) :: ulong) = of_nat k" using k(2) by (simp_all add: unat_of_nat_u32)
  have len': "unat b + length xs + k \<le> 2 ^ 64" using len False by (simp add: padded_def k_def Let_def split: if_splits)
  obtain e where e: "emit end xs (b, m) = (b + of_nat (length xs), e)"
    using emit_fst [of "end" xs "(b, m)"] by (cases "emit end xs (b, m)") auto
  have "snd (emit end (replicate k 0x20 @ xs) (b, m)) = move_right b end (of_nat (length xs)) (of_nat k) e"
    using move_right_emit [OF len' k(3,2), of "end" m] e by simp
  then have right: "emit end (replicate k 0x20 @ xs) (b, m) =
      (b + of_nat (length xs) + of_nat k, move_right b end (of_nat (length xs)) (of_nat k) e)"
    by (intro prod_eqI) (simp_all add: algebra_simps)
  show ?thesis
  proof (cases "sp_flags spec AND LEFT = 0")
    case True
    then have "padded spec xs = replicate k 0x20 @ xs" by (simp add: padded_def k_def)
    then show ?thesis unfolding e using True False right k(1) by (simp add: widen_string_def uk)
  next
    case left: False
    then have "padded spec xs = xs @ replicate k 0x20" by (simp add: padded_def k_def)
    then show ?thesis using left False k(1) by (simp add: widen_string_def uk putn_emit)
  qed
qed

lemma cstr_frame: "cstr m p xs \<Longrightarrow> (\<And>q. q \<in> span p (Suc (length xs)) \<Longrightarrow> m' q = m q) \<Longrightarrow> cstr m' p xs"
  using at_frame [of m p "xs @ [0]" m'] by (auto simp: cstr_def)

definition cut_at :: "int \<Rightarrow> u8 list \<Rightarrow> u8 list" where
  "cut_at lim xs = (if lim < 0 then xs else take (nat lim) xs)"

lemma cut_at_Cons: "lim \<noteq> 0 \<Longrightarrow> cut_at lim (x # xs) = x # cut_at (lim - 1) xs"
proof -
  have "0 < lim \<Longrightarrow> nat lim = Suc (nat (lim - 1))" by simp
  then show "lim \<noteq> 0 \<Longrightarrow> ?thesis" by (auto simp: cut_at_def)
qed

lemma string_loop_emit:
  assumes "cstr m s xs" "unat b + length (cut_at lim xs) < 2 ^ 64" "buf \<le> b" "span s (Suc (length xs)) \<inter> {buf..<end} = {}"
  shows "string_loop end lim s len (b, m) = Some (len + int (length (cut_at lim xs)), emit end (cut_at lim xs) (b, m))"
  using assms
proof (induction xs arbitrary: lim s len b m)
  case Nil
  then show ?case by (subst string_loop.simps) (auto simp: cstr_Nil cut_at_def)
next
  case (Cons x xs)
  show ?case
  proof (cases "lim = 0")
    case True
    then show ?thesis by (subst string_loop.simps) (simp add: cut_at_def)
  next
    case False
    have x: "x \<noteq> 0" "m s = x" "cstr m (s + 1) xs" using Cons.prems(1) by (simp_all add: cstr_Cons)
    have disj: "span (s + 1) (Suc (length xs)) \<inter> {buf..<end} = {}"
      using Cons.prems(4) unfolding length_Cons span_Suc [of s] by blast
    define m' where "m' = (if b < end then m(b := x) else m)"
    have "m' q = m q" if "q \<in> span (s + 1) (Suc (length xs))" for q
    proof -
      have "b < end \<Longrightarrow> q \<noteq> b" using that disj Cons.prems(3) by (metis IntI atLeastLessThan_iff empty_iff)
      then show ?thesis by (simp add: m'_def)
    qed
    then have c: "cstr m' (s + 1) xs" by (rule cstr_frame [OF x(3)])
    have len: "unat b + Suc (length (cut_at (lim - 1) xs)) < 2 ^ 64" using Cons.prems(2) False by (simp add: cut_at_Cons)
    then have b1: "unat (b + 1) = unat b + 1" by (subst unat_add_lem [THEN iffD1]) simp_all
    have step: "string_loop end lim s len (b, m) = string_loop end (lim - 1) (s + 1) (len + 1) (b + 1, m')"
      using False x by (subst string_loop.simps) (simp add: putc_def m'_def)
    have "string_loop end (lim - 1) (s + 1) (len + 1) (b + 1, m') =
      Some (len + 1 + int (length (cut_at (lim - 1) xs)), emit end (cut_at (lim - 1) xs) (b + 1, m'))"
      using Cons.prems(3) b1 len by (intro Cons.IH [OF c _ _ disj]) (simp_all add: word_le_nat_alt)
    then show ?thesis unfolding step using False by (simp add: cut_at_Cons putc_def m'_def)
  qed
qed

text \<open>What a pointer argument prints; the strings in memory are given by \<open>strs\<close>.\<close>

definition string_text :: "(ulong \<Rightarrow> u8 list) \<Rightarrow> ulong \<Rightarrow> printf_spec \<Rightarrow> u8 list" where
  "string_text strs a spec =
     (case check_pointer_msg a of
        Some msg \<Rightarrow> padded spec (cut_at (if precision spec = -1 then 16 else precision spec) msg)
      | None \<Rightarrow> padded spec (cut_at (precision spec) (strs a)))"

lemma padded_length: "length xs \<le> length (padded spec xs)"
  by (simp add: padded_def Let_def)

lemma string_out_emit:
  assumes "check_pointer_msg a = None \<Longrightarrow> cstr m a (strs a) \<and> span a (Suc (length (strs a))) \<inter> {buf..<end} = {}"
    and "field_width spec < 2 ^ 23" "unat b + length (string_text strs a spec) < 2 ^ 64" "buf \<le> b"
  shows "string_out end a spec (b, m) = Ret (emit end (string_text strs a spec) (b, m))"
proof (cases "check_pointer_msg a")
  case None
  define ys where "ys = cut_at (precision spec) (strs a)"
  have len: "unat b + length (padded spec ys) < 2 ^ 64" using assms(3) None by (simp add: string_text_def ys_def)
  then have "unat b + length ys < 2 ^ 64" using padded_length [of ys spec] by simp
  then have "string_loop end (precision spec) a 0 (b, m) = Some (int (length ys), emit end ys (b, m))"
    unfolding ys_def using string_loop_emit [of m a "strs a" b _ buf "end" 0] assms(1) [OF None] assms(4) by simp
  then show ?thesis using None widen_string_emit [OF assms(2) len]
    by (simp add: string_out_def string_nocheck_def ended_def string_text_def ys_def)
next
  case (Some msg)
  define spec' where "spec' = (if precision spec = -1 then spec\<lparr>precision := 16\<rparr> else spec)"
  define ys where "ys = cut_at (precision spec') msg"
  have prec: "precision spec' = (if precision spec = -1 then 16 else precision spec)" by (simp add: spec'_def)
  have same: "padded spec' ys = padded spec ys" "field_width spec' = field_width spec"
    by (simp_all add: spec'_def padded_def)
  have len: "unat b + length (padded spec' ys) < 2 ^ 64" using assms(3) Some same by (simp add: string_text_def ys_def spec'_def split: if_splits)
  have "literal_loop end (precision spec') msg 0 (b, m) = (int (length ys), emit end ys (b, m))"
    by (simp add: literal_loop_emit ys_def cut_at_def Let_def)
  then have "error_string end msg spec (b, m) = emit end (padded spec' ys) (b, m)"
    using widen_string_emit [OF _ len] assms(2) same by (simp add: error_string_def spec'_def [symmetric])
  then show ?thesis using Some same prec by (simp add: string_out_def string_text_def ys_def)
qed

lemma literal_out_emit:
  assumes "at m f lit" "unat b + length lit < 2 ^ 64" "buf \<le> b" "span f (length lit) \<inter> {buf..<end} = {}"
  shows "literal_out end f (of_nat (length lit)) (b, m) = emit end lit (b, m)"
proof (cases "b < end")
  case False
  then show ?thesis using assms(2) by (simp add: literal_out_def emit_store)
next
  case True
  define ys where "ys = take (unat (end - b)) lit"
  have n: "unat (of_nat (length lit) :: ulong) = length lit" using assms(2) by (simp add: unsigned_of_nat take_bit_nat_eq_self)
  have c: "unat (if of_nat (length lit) > end - b then end - b else of_nat (length lit) :: ulong) = length ys"
    by (simp add: ys_def n word_less_nat_alt)
  have room: "unat (end - b) = unat end - unat b" using True by (simp add: unat_sub less_imp_le)
  have "span b (length ys) \<subseteq> {buf..<end}"
  proof
    fix q assume "q \<in> span b (length ys)"
    then obtain i where i: "i < length ys" "q = b + of_nat i" by (auto simp: span_def)
    then have "unat q = unat b + i" using assms(2) by (simp add: ys_def unat_offset [where n = "length lit"])
    then show "q \<in> {buf..<end}" using assms(3) i(1) room by (simp add: ys_def word_le_nat_alt word_less_nat_alt less_diff_conv add.commute)
  qed
  moreover have "span f (length ys) \<subseteq> span f (length lit)" by (rule span_mono) (simp add: ys_def)
  ultimately have "span f (length ys) \<inter> span b (length ys) = {}" using assms(4) by blast
  moreover have "at m f ys" using assms(1) by (simp add: at_def ys_def)
  ultimately have "memcpy_loop b f (length ys) m = store b ys m" by (intro memcpy_loop_store)
  then show ?thesis using True assms(2) by (simp add: literal_out_def memcpy_def emit_store c ys_def [symmetric])
qed

definition pads :: "int \<Rightarrow> nat" where
  "pads fw = nat (signed_take_bit 23 (fw - 1))"

lemma char_pad_emit:
  "char_pad end fw st =
    (if 0 < signed_take_bit 23 (fw - 1) then 0 else signed_take_bit 23 (fw - 1), emit end (replicate (pads fw) 0x20) st)"
proof (induction "pads fw" arbitrary: fw st)
  case 0
  then show ?case by (subst char_pad.simps) (simp add: pads_def)
next
  case (Suc n)
  define v where "v = signed_take_bit 23 (fw - 1)"
  have v: "v = int (Suc n)" using Suc.hyps(2) unfolding pads_def v_def [symmetric] by linarith
  have "v < 2 ^ 23" unfolding v_def by (rule signed_take_bit_int_less_exp)
  then have v1: "signed_take_bit 23 (v - 1) = int n" using v by (simp add: signed_take_bit_int_eq_self)
  then have "char_pad end v (putc end 0x20 st) = (0, emit end (replicate n 0x20) (putc end 0x20 st))"
    using Suc.hyps(1) [of v "putc end 0x20 st"] by (simp add: pads_def)
  moreover have "char_pad end fw st = char_pad end v (putc end 0x20 st)"
    using v by (subst char_pad.simps) (simp only: Let_def v_def [symmetric] if_True of_nat_0_less_iff zero_less_Suc)
  ultimately show ?case unfolding v_def [symmetric] using v by (simp flip: Suc.hyps(2))
qed

end
