(* ===== verification/Vsprintf_Format.thy ===== *)
theory Vsprintf_Format
  imports Vsprintf
begin

unbundle bit_operations_syntax

text \<open>
  Formats as a whole. The decoder is followed on the list of the bytes of a format, which shows that it
  always moves on and what it makes of a specifier; \<open>printf_text\<close> is the text a format stands for, with
  no buffer and no memory but the strings behind the arguments. The loop of \<^verbatim>\<open>vsnprintf\<close> emits exactly
  that text, and the properties of the functions around it follow.
\<close>

section \<open>Reading a format\<close>

text \<open>The decoder on the list of the bytes that are left, without the NUL byte.\<close>

definition peek :: "u8 list \<Rightarrow> u8" where
  "peek xs = (case xs of [] \<Rightarrow> 0 | x # _ \<Rightarrow> x)"

fun read_flags :: "u8 list \<Rightarrow> u8 \<Rightarrow> u8 list \<times> u8" where
  "read_flags [] flags = ([], flags)"
| "read_flags (c # cs) flags = (case flag_bit c of Some b \<Rightarrow> read_flags cs (flags OR b) | None \<Rightarrow> (c # cs, flags))"

fun read_atoi :: "u8 list \<Rightarrow> u32 \<Rightarrow> u32 \<times> u8 list" where
  "read_atoi [] i = (i, [])"
| "read_atoi (c # cs) i = (let i = i * 10 + scast c - 0x30 in if isdigit (peek cs) then read_atoi cs i else (i, cs))"

definition read_qualifier :: "u8 list \<Rightarrow> u8 \<times> u8 list" where
  "read_qualifier xs =
     (let q = peek xs
      in if q = 0x68 \<or> fast_tolower q = 0x6c \<or> q = 0x7a \<or> q = 0x74
         then if peek (tl xs) = q \<and> q = 0x6c then (0x4c, tl (tl xs))
              else if peek (tl xs) = q \<and> q = 0x68 then (0x48, tl (tl xs)) else (q, tl xs)
         else (0, xs))"

definition read_conversion :: "u8 list \<Rightarrow> printf_spec \<Rightarrow> u8 list \<times> printf_spec" where
  "read_conversion xs spec =
     (let (q, ys) = read_qualifier xs; spec = decode_conversion (peek ys) q spec
      in (if sp_type spec = FORMAT_TYPE_INVALID then ys else tl ys, spec))"

definition read_precision :: "u8 list \<Rightarrow> printf_spec \<Rightarrow> u8 list \<times> printf_spec" where
  "read_precision xs spec =
     (let spec = spec\<lparr>precision := -1\<rparr>; ys = tl xs
      in if peek xs \<noteq> 0x2e then read_conversion xs spec
         else if isdigit (peek ys)
         then let (i, zs) = read_atoi ys 0; spec = set_prec (sint i) spec
              in read_conversion zs (if precision spec < 0 then spec\<lparr>precision := 0\<rparr> else spec)
         else if peek ys = 0x2a then (tl ys, spec\<lparr>sp_type := FORMAT_TYPE_PRECISION\<rparr>)
         else read_conversion ys spec)"

definition read_directive :: "u8 list \<Rightarrow> printf_spec \<Rightarrow> u8 list \<times> printf_spec" where
  "read_directive xs spec =
     (let (ys, flags) = read_flags (tl xs) 0; spec = spec\<lparr>sp_flags := flags, field_width := -1\<rparr>
      in if isdigit (peek ys) then let (i, zs) = read_atoi ys 0 in read_precision zs (set_width (sint i) spec)
         else if peek ys = 0x2a then (tl ys, spec\<lparr>sp_type := FORMAT_TYPE_WIDTH\<rparr>)
         else read_precision ys spec)"

definition read_format :: "u8 list \<Rightarrow> printf_spec \<Rightarrow> u8 list \<times> printf_spec" where
  "read_format xs spec =
     (if sp_type spec = FORMAT_TYPE_WIDTH
      then let spec = (if field_width spec < 0
                       then (set_width (- field_width spec) spec)\<lparr>sp_flags := sp_flags spec OR LEFT\<rparr> else spec)
           in read_precision xs (spec\<lparr>sp_type := FORMAT_TYPE_NONE\<rparr>)
      else if sp_type spec = FORMAT_TYPE_PRECISION
      then let spec = (if precision spec < 0 then spec\<lparr>precision := 0\<rparr> else spec)
           in read_conversion xs (spec\<lparr>sp_type := FORMAT_TYPE_NONE\<rparr>)
      else let spec = spec\<lparr>sp_type := FORMAT_TYPE_NONE\<rparr>; ys = dropWhile (\<lambda>c. c \<noteq> 0x25) xs
           in if length ys < length xs \<or> ys = [] then (ys, spec) else read_directive ys spec)"

text \<open>\<open>went p xs q ys\<close>: reading went from position \<open>p\<close>, with the bytes \<open>xs\<close> ahead, to position \<open>q\<close>, with \<open>ys\<close> ahead.\<close>

definition went :: "ulong \<Rightarrow> u8 list \<Rightarrow> ulong \<Rightarrow> u8 list \<Rightarrow> bool" where
  "went p xs q ys \<longleftrightarrow> (\<exists>k \<le> length xs. ys = drop k xs \<and> q = p + of_nat k)"

lemma went_refl [simp, intro]: "went p xs p xs"
  unfolding went_def by (rule exI [of _ 0]) simp

lemma went_trans: "went p xs q ys \<Longrightarrow> went q ys r zs \<Longrightarrow> went p xs r zs"
  unfolding went_def by (elim exE conjE, rule_tac x = "k + ka" in exI) (auto simp: add.commute)

lemma went_tl: "xs \<noteq> [] \<Longrightarrow> went p xs (p + 1) (tl xs)"
  unfolding went_def by (rule exI [of _ 1]) (auto simp: drop_Suc neq_Nil_conv)

lemma went_cstr: "went p xs q ys \<Longrightarrow> cstr m p xs \<Longrightarrow> cstr m q ys"
  unfolding went_def using cstr_drop by auto

lemma went_pos:
  assumes "went p xs q ys"
  shows "q = p + of_nat (length xs - length ys)" "ys = drop (length xs - length ys) xs" "length ys \<le> length xs"
  using assms by (auto simp: went_def)

lemma cstr_peek: "cstr m p xs \<Longrightarrow> m p = peek xs"
  by (simp add: peek_def cstr_hd)

lemma peek_Nil [simp]: "peek [] = 0"
  by (simp add: peek_def)

lemma peek_Cons [simp]: "peek (x # xs) = x"
  by (simp add: peek_def)

lemma went_char: "cstr m p xs \<Longrightarrow> m p = c \<Longrightarrow> c \<noteq> 0 \<Longrightarrow> went p xs (p + 1) (tl xs) \<and> cstr m (p + 1) (tl xs)"
  using went_tl [of xs p] went_cstr by (cases xs) (auto simp: cstr_peek)

lemma flags_loop_read:
  assumes "cstr m (p + 1) xs"
  shows "\<exists>q. flags_loop m p flags = Some (q, snd (read_flags xs flags)) \<and> went (p + 1) xs q (fst (read_flags xs flags))"
  using assms
proof (induction xs arbitrary: p flags)
  case Nil
  then show ?case by (subst flags_loop.simps) (auto simp: cstr_Nil flag_bit_def)
next
  case (Cons x xs)
  have x: "m (p + 1) = x" "cstr m (p + 1 + 1) xs" using Cons.prems by (simp_all add: cstr_Cons)
  show ?case
  proof (cases "flag_bit x")
    case None
    then show ?thesis using x by (subst flags_loop.simps) auto
  next
    case (Some b)
    from Cons.IH [OF x(2)] obtain q where
      "flags_loop m (p + 1) (flags OR b) = Some (q, snd (read_flags xs (flags OR b)))"
      "went (p + 1 + 1) xs q (fst (read_flags xs (flags OR b)))" by blast
    moreover have "went (p + 1) (x # xs) (p + 1 + 1) xs" using went_tl [of "x # xs" "p + 1"] by simp
    ultimately show ?thesis using Some x by (subst flags_loop.simps) (auto intro: went_trans)
  qed
qed

lemma skip_atoi_read:
  assumes "cstr m p xs" "xs \<noteq> []"
  shows "\<exists>q. skip_atoi m p i = Some (fst (read_atoi xs i), q) \<and> went p xs q (snd (read_atoi xs i))"
  using assms
proof (induction xs arbitrary: p i)
  case (Cons x xs)
  have x: "m p = x" "cstr m (p + 1) xs" using Cons.prems by (simp_all add: cstr_Cons)
  have next_char: "went p (x # xs) (p + 1) xs" using went_tl [of "x # xs" p] by simp
  show ?case
  proof (cases "isdigit (peek xs)")
    case False
    then show ?thesis using x next_char cstr_peek [OF x(2)] by (subst skip_atoi.simps) (auto simp: Let_def)
  next
    case True
    then have "xs \<noteq> []" by (auto simp: isdigit_def)
    from Cons.IH [OF x(2) this, of "i * 10 + scast x - 0x30"] True x next_char cstr_peek [OF x(2)] show ?thesis
      by (subst skip_atoi.simps) (auto simp: Let_def intro: went_trans)
  qed
qed simp

lemma percent_loop_read:
  assumes "cstr m p xs"
  shows "\<exists>q. percent_loop m p = Some q \<and> went p xs q (dropWhile (\<lambda>c. c \<noteq> 0x25) xs)"
  using assms
proof (induction xs arbitrary: p)
  case Nil
  then show ?case by (subst percent_loop.simps) (auto simp: cstr_Nil)
next
  case (Cons x xs)
  have x: "m p = x" "cstr m (p + 1) xs" "x \<noteq> 0" using Cons.prems by (simp_all add: cstr_Cons)
  have "went p (x # xs) (p + 1) xs" using went_tl [of "x # xs" p] by simp
  then show ?case using Cons.IH [OF x(2)] x by (subst percent_loop.simps) (auto intro: went_trans)
qed

lemma qualifier_read:
  assumes "cstr m p xs"
  shows "\<exists>q. qualifier_at m p = (fst (read_qualifier xs), q) \<and> went p xs q (snd (read_qualifier xs))"
proof (cases "m p = 0x68 \<or> fast_tolower (m p) = 0x6c \<or> m p = 0x7a \<or> m p = 0x74")
  case False
  then show ?thesis using cstr_peek [OF assms] by (auto simp: qualifier_at_def read_qualifier_def Let_def)
next
  case True
  have "\<not> (0 = (0x68 :: u8) \<or> fast_tolower 0 = 0x6c \<or> 0 = (0x7a :: u8) \<or> 0 = (0x74 :: u8))"
    by (simp add: fast_tolower_def)
  then have "m p \<noteq> 0" using True by metis
  then have t: "went p xs (p + 1) (tl xs)" "cstr m (p + 1) (tl xs)" using went_char [OF assms refl] by simp_all
  have t2: "m (p + 1) = m p \<Longrightarrow> went p xs (p + 2) (tl (tl xs))"
    using went_char [OF t(2) refl] \<open>m p \<noteq> 0\<close> went_trans [OF t(1)] by (metis (no_types) add.assoc one_add_one)
  show ?thesis using True t(1) t2 cstr_peek [OF assms] cstr_peek [OF t(2)]
    by (auto simp: qualifier_at_def read_qualifier_def Let_def add.assoc)
qed

lemma conversion_of_nul: "sp_type (decode_conversion 0 q spec) = FORMAT_TYPE_INVALID"
  by (simp add: decode_conversion_def)

lemma conversion_read:
  assumes "cstr m p xs"
  shows "\<exists>q. decode_qualifier m p spec = (q, snd (read_conversion xs spec)) \<and> went p xs q (fst (read_conversion xs spec))"
proof -
  obtain r where r: "qualifier_at m p = (fst (read_qualifier xs), r)" "went p xs r (snd (read_qualifier xs))"
    using qualifier_read [OF assms] by blast
  define ys where "ys = snd (read_qualifier xs)"
  have c: "cstr m r ys" unfolding ys_def by (rule went_cstr [OF r(2) assms])
  define spec' where "spec' = decode_conversion (peek ys) (fst (read_qualifier xs)) spec"
  have "sp_type spec' \<noteq> FORMAT_TYPE_INVALID \<Longrightarrow> peek ys \<noteq> 0" unfolding spec'_def using conversion_of_nul by metis
  then have "sp_type spec' \<noteq> FORMAT_TYPE_INVALID \<Longrightarrow> went p xs (r + 1) (tl ys)"
    using went_char [OF c cstr_peek [OF c]] went_trans [OF r(2)] by (auto simp: ys_def)
  then show ?thesis using r cstr_peek [OF c]
    by (simp add: decode_qualifier_def read_conversion_def split_beta Let_def flip: ys_def spec'_def)
qed

lemma precision_read:
  assumes "cstr m p xs"
  shows "\<exists>q. decode_precision m p spec = Some (q, snd (read_precision xs spec)) \<and> went p xs q (fst (read_precision xs spec))"
proof (cases "peek xs = 0x2e")
  case False
  then show ?thesis using conversion_read [OF assms, of "spec\<lparr>precision := -1\<rparr>"] cstr_peek [OF assms]
    by (auto simp: decode_precision_def read_precision_def)
next
  case True
  define ys where "ys = tl xs"
  define spec' where "spec' = spec\<lparr>precision := -1\<rparr>"
  have w: "went p xs (p + 1) ys" "cstr m (p + 1) ys"
    unfolding ys_def using went_char [OF assms cstr_peek [OF assms]] True by simp_all
  consider "isdigit (peek ys)" | "\<not> isdigit (peek ys)" "peek ys = 0x2a" | "\<not> isdigit (peek ys)" "peek ys \<noteq> 0x2a" by blast
  then show ?thesis
  proof cases
    case 1
    then have "ys \<noteq> []" by (auto simp: isdigit_def)
    then obtain q where q: "skip_atoi m (p + 1) 0 = Some (fst (read_atoi ys 0), q)" "went (p + 1) ys q (snd (read_atoi ys 0))"
      using skip_atoi_read [OF w(2)] by blast
    define sp where "sp = (let sp = set_prec (sint (fst (read_atoi ys 0))) spec' in if precision sp < 0 then sp\<lparr>precision := 0\<rparr> else sp)"
    obtain r where r: "decode_qualifier m q sp = (r, snd (read_conversion (snd (read_atoi ys 0)) sp))"
      "went q (snd (read_atoi ys 0)) r (fst (read_conversion (snd (read_atoi ys 0)) sp))"
      using conversion_read [OF went_cstr [OF q(2) w(2)]] by blast
    have "read_precision xs spec = read_conversion (snd (read_atoi ys 0)) sp"
      using True 1 by (simp add: read_precision_def sp_def spec'_def ys_def Let_def split_beta)
    moreover have "decode_precision m p spec = Some (decode_qualifier m q sp)"
      using True 1 q(1) cstr_peek [OF assms] cstr_peek [OF w(2)] by (simp add: decode_precision_def sp_def spec'_def Let_def)
    ultimately show ?thesis using r went_trans [OF w(1) went_trans [OF q(2) r(2)]] by simp
  next
    case 2
    have "went (p + 1) ys (p + 1 + 1) (tl ys)" using went_char [OF w(2) cstr_peek [OF w(2)]] 2 by simp
    then have "went p xs (p + 2) (tl ys)" using went_trans [OF w(1)] by (simp add: add.assoc)
    then show ?thesis using 2 True cstr_peek [OF assms] cstr_peek [OF w(2)]
      by (simp add: decode_precision_def read_precision_def Let_def add.assoc flip: ys_def)
  next
    case 3
    then show ?thesis using True conversion_read [OF w(2), of spec'] cstr_peek [OF assms] cstr_peek [OF w(2)] went_trans [OF w(1)]
      by (auto simp: decode_precision_def read_precision_def Let_def simp flip: ys_def spec'_def)
  qed
qed

lemma directive_read:
  assumes "cstr m p xs" "peek xs = 0x25"
  shows "\<exists>q. decode_directive m p spec = Some (q, snd (read_directive xs spec)) \<and> went p xs q (fst (read_directive xs spec))"
proof -
  have w: "went p xs (p + 1) (tl xs)" "cstr m (p + 1) (tl xs)"
    using went_char [OF assms(1) cstr_peek [OF assms(1)]] assms(2) by simp_all
  define ys flags where "ys = fst (read_flags (tl xs) 0)" and "flags = snd (read_flags (tl xs) 0)"
  obtain q where q: "flags_loop m p 0 = Some (q, flags)" "went (p + 1) (tl xs) q ys"
    unfolding ys_def flags_def using flags_loop_read [OF w(2)] by blast
  have c: "cstr m q ys" "m q = peek ys" using went_cstr [OF q(2) w(2)] cstr_peek by auto
  have pq: "went p xs q ys" by (rule went_trans [OF w(1) q(2)])
  define sp where "sp = spec\<lparr>sp_flags := flags, field_width := -1\<rparr>"
  have unf: "decode_directive m p spec =
    (if isdigit (peek ys) then Option.bind (skip_atoi m q 0) (\<lambda>(i, fmt). decode_precision m fmt (set_width (sint i) sp))
     else if peek ys = 0x2a then Some (q + 1, sp\<lparr>sp_type := FORMAT_TYPE_WIDTH\<rparr>) else decode_precision m q sp)"
    by (simp add: decode_directive_def q(1) c(2) sp_def Let_def)
  have unr: "read_directive xs spec =
    (if isdigit (peek ys) then let (i, zs) = read_atoi ys 0 in read_precision zs (set_width (sint i) sp)
     else if peek ys = 0x2a then (tl ys, sp\<lparr>sp_type := FORMAT_TYPE_WIDTH\<rparr>) else read_precision ys sp)"
    by (simp add: read_directive_def split_beta Let_def sp_def ys_def flags_def)
  consider "isdigit (peek ys)" | "\<not> isdigit (peek ys)" "peek ys = 0x2a" | "\<not> isdigit (peek ys)" "peek ys \<noteq> 0x2a" by blast
  then show ?thesis
  proof cases
    case 1
    then have "ys \<noteq> []" by (auto simp: isdigit_def)
    then obtain r where r: "skip_atoi m q 0 = Some (fst (read_atoi ys 0), r)" "went q ys r (snd (read_atoi ys 0))"
      using skip_atoi_read [OF c(1)] by blast
    show ?thesis using precision_read [OF went_cstr [OF r(2) c(1)], of "set_width (sint (fst (read_atoi ys 0))) sp"]
        went_trans [OF went_trans [OF pq r(2)]] 1 r(1) by (auto simp: unf unr split_beta Let_def)
  next
    case 2
    then show ?thesis using went_trans [OF pq] went_char [OF c] by (simp add: unf unr)
  next
    case 3
    then show ?thesis using precision_read [OF c(1), of sp] went_trans [OF pq] by (auto simp: unf unr)
  qed
qed

lemma format_read:
  assumes "cstr m p xs"
  shows "\<exists>q. format_decode m p spec = Some (q, snd (read_format xs spec)) \<and> went p xs q (fst (read_format xs spec))"
proof -
  consider "sp_type spec = FORMAT_TYPE_WIDTH" | "sp_type spec = FORMAT_TYPE_PRECISION"
    | "sp_type spec \<noteq> FORMAT_TYPE_WIDTH" "sp_type spec \<noteq> FORMAT_TYPE_PRECISION" by blast
  then show ?thesis
  proof cases
    case 1
    then show ?thesis using precision_read [OF assms] by (simp add: format_decode_def read_format_def Let_def)
  next
    case 2
    then show ?thesis using conversion_read [OF assms] by (simp add: format_decode_def read_format_def Let_def)
  next
    case 3
    define ys where "ys = dropWhile (\<lambda>c. c \<noteq> 0x25) xs"
    define sp where "sp = spec\<lparr>sp_type := FORMAT_TYPE_NONE\<rparr>"
    obtain q where q: "percent_loop m p = Some q" "went p xs q ys" unfolding ys_def using percent_loop_read [OF assms] by blast
    have c: "cstr m q ys" by (rule went_cstr [OF q(2) assms])
    show ?thesis
    proof (cases "length ys < length xs \<or> ys = []")
      case True
      have "q \<noteq> p \<or> m q = 0"
      proof (cases "ys = []")
        case True
        then show ?thesis using c by (simp add: cstr_Nil)
      next
        case False
        then have "0 < length xs - length ys" "length xs - length ys < 2 ^ 64"
          using True cstr_short [OF assms] by auto
        then have "(of_nat (length xs - length ys) :: ulong) \<noteq> of_nat 0" by (subst of_nat_inj_64) auto
        then show ?thesis using went_pos(1) [OF q(2)] by simp
      qed
      then show ?thesis using 3 q True by (auto simp: format_decode_def read_format_def Let_def simp flip: ys_def sp_def)
    next
      case False
      then have "q = p" "ys = xs" using went_pos [OF q(2)] by auto
      moreover have "peek xs = 0x25" using False \<open>ys = xs\<close> hd_dropWhile [of "\<lambda>c. c \<noteq> 0x25" xs]
        unfolding ys_def [symmetric] by (cases xs) auto
      moreover have "xs \<noteq> []" using False \<open>ys = xs\<close> by simp
      ultimately show ?thesis using 3 q(1) False directive_read [OF assms, of sp] cstr_peek [OF assms]
        by (auto simp: format_decode_def read_format_def Let_def simp flip: ys_def sp_def)
    qed
  qed
qed

text \<open>Decoding makes progress and leaves a specifier the formatting functions can use.\<close>

lemma read_flags_length: "length (fst (read_flags xs f)) \<le> length xs"
  by (induction xs f rule: read_flags.induct) (auto split: option.splits intro: le_SucI)

lemma read_atoi_length: "length (snd (read_atoi xs i)) \<le> length xs"
  by (induction xs i rule: read_atoi.induct) (auto simp: Let_def intro: le_SucI)

lemma read_qualifier_length: "length (snd (read_qualifier xs)) \<le> length xs"
  by (simp add: read_qualifier_def Let_def)

lemma tl_shorter: "peek ys \<noteq> 0 \<Longrightarrow> length ys \<le> n \<Longrightarrow> length (tl ys) < n"
  by (cases ys) auto

lemma read_conversion_shorter:
  assumes "sp_type (snd (read_conversion xs spec)) \<noteq> FORMAT_TYPE_INVALID"
  shows "length (fst (read_conversion xs spec)) < length xs"
proof -
  define ys where "ys = snd (read_qualifier xs)"
  have "sp_type (decode_conversion (peek ys) (fst (read_qualifier xs)) spec) \<noteq> FORMAT_TYPE_INVALID"
    using assms by (simp add: read_conversion_def split_beta Let_def ys_def)
  moreover from this have "peek ys \<noteq> 0" using conversion_of_nul by metis
  then have "length (tl ys) < length xs" by (rule tl_shorter) (simp add: ys_def read_qualifier_length)
  ultimately show ?thesis by (simp only: read_conversion_def split_beta Let_def ys_def fst_conv if_False)
qed

lemma read_precision_shorter:
  assumes "sp_type (snd (read_precision xs spec)) \<noteq> FORMAT_TYPE_INVALID"
  shows "length (fst (read_precision xs spec)) < length xs"
proof (cases "peek xs = 0x2e")
  case False
  then show ?thesis using assms read_conversion_shorter [of xs] by (auto simp: read_precision_def)
next
  case True
  define ys where "ys = tl xs"
  have ys: "length ys < length xs" using True by (cases xs) (auto simp: ys_def)
  consider "isdigit (peek ys)" | "\<not> isdigit (peek ys)" "peek ys = 0x2a" | "\<not> isdigit (peek ys)" "peek ys \<noteq> 0x2a" by blast
  then show ?thesis
  proof cases
    case 1
    define sp where "sp = (let sp = set_prec (sint (fst (read_atoi ys 0))) (spec\<lparr>precision := -1\<rparr>) in if precision sp < 0 then sp\<lparr>precision := 0\<rparr> else sp)"
    have "read_precision xs spec = read_conversion (snd (read_atoi ys 0)) sp"
      using True 1 by (simp add: read_precision_def sp_def ys_def Let_def split_beta)
    then show ?thesis using assms read_conversion_shorter [of "snd (read_atoi ys 0)" sp] read_atoi_length [of ys 0] ys by simp
  next
    case 2
    then show ?thesis using True ys by (simp add: read_precision_def Let_def flip: ys_def)
  next
    case 3
    then show ?thesis using True assms ys read_conversion_shorter [of ys "spec\<lparr>precision := -1\<rparr>"]
      by (simp add: read_precision_def Let_def flip: ys_def)
  qed
qed

lemma read_directive_shorter:
  assumes "sp_type (snd (read_directive xs spec)) \<noteq> FORMAT_TYPE_INVALID" "xs \<noteq> []"
  shows "length (fst (read_directive xs spec)) < length xs"
proof -
  have "length (fst (read_flags (tl xs) 0)) < length xs"
    using read_flags_length [of "tl xs" 0] assms(2) by (simp add: order.strict_trans1 [OF _ diff_Suc_less])
  then show ?thesis using assms(1) read_precision_shorter read_atoi_length [of "fst (read_flags (tl xs) 0)" 0]
    by (fastforce simp: read_directive_def split_beta Let_def split: if_splits)
qed

lemma read_format_shorter:
  assumes "sp_type (snd (read_format xs spec)) \<noteq> FORMAT_TYPE_INVALID" "xs \<noteq> []"
  shows "length (fst (read_format xs spec)) < length xs"
proof -
  define ys where "ys = dropWhile (\<lambda>c. c \<noteq> 0x25) xs"
  have le: "length ys \<le> length xs" unfolding ys_def by (rule length_dropWhile_le)
  consider "sp_type spec = FORMAT_TYPE_WIDTH" | "sp_type spec = FORMAT_TYPE_PRECISION"
    | "sp_type spec \<noteq> FORMAT_TYPE_WIDTH" "sp_type spec \<noteq> FORMAT_TYPE_PRECISION" by blast
  then show ?thesis
  proof cases
    case 1
    then show ?thesis using assms(1) by (simp add: read_format_def Let_def read_precision_shorter)
  next
    case 2
    then show ?thesis using assms(1) by (simp add: read_format_def Let_def read_conversion_shorter)
  next
    case 3
    show ?thesis
    proof (cases "length ys < length xs \<or> ys = []")
      case True
      then show ?thesis using 3 assms(2) le by (auto simp: read_format_def Let_def simp flip: ys_def)
    next
      case False
      then have "length (fst (read_directive ys (spec\<lparr>sp_type := FORMAT_TYPE_NONE\<rparr>))) < length ys"
        using 3 assms(1) by (intro read_directive_shorter) (auto simp: read_format_def Let_def simp flip: ys_def)
      then show ?thesis using 3 False le by (simp add: read_format_def Let_def flip: ys_def)
    qed
  qed
qed

lemma conversion_fields [simp]:
  "field_width (decode_conversion c q spec) = field_width spec" "sp_base (decode_conversion c q spec) \<in> bases"
  by (simp_all add: decode_conversion_def Let_def bases_def)

lemma read_conversion_fields [simp]:
  "field_width (snd (read_conversion xs spec)) = field_width spec" "sp_base (snd (read_conversion xs spec)) \<in> bases"
  by (simp_all add: read_conversion_def split_beta Let_def)

lemma read_precision_fields:
  "field_width (snd (read_precision xs spec)) = field_width spec"
  "sp_base (snd (read_precision xs spec)) \<notin> bases \<Longrightarrow> sp_type (snd (read_precision xs spec)) = FORMAT_TYPE_PRECISION"
  by (auto simp: read_precision_def split_beta Let_def set_prec_def)

lemma width_field_small: "field_width (set_width w spec) < 2 ^ 23"
  using signed_take_bit_int_less_exp [of 23 w] by (simp add: set_width_def)

lemma read_directive_fields:
  "field_width (snd (read_directive xs spec)) < 2 ^ 23"
  "sp_base (snd (read_directive xs spec)) \<notin> bases
    \<Longrightarrow> sp_type (snd (read_directive xs spec)) = FORMAT_TYPE_PRECISION \<or> sp_type (snd (read_directive xs spec)) = FORMAT_TYPE_WIDTH"
proof -
  show "field_width (snd (read_directive xs spec)) < 2 ^ 23"
    using width_field_small by (simp add: read_directive_def split_beta Let_def read_precision_fields(1))
  show "sp_base (snd (read_directive xs spec)) \<notin> bases
    \<Longrightarrow> sp_type (snd (read_directive xs spec)) = FORMAT_TYPE_PRECISION \<or> sp_type (snd (read_directive xs spec)) = FORMAT_TYPE_WIDTH"
    using read_precision_fields(2) by (simp add: read_directive_def split_beta Let_def split: if_splits)
qed

lemma read_format_fields:
  assumes "field_width spec < 2 ^ 23"
  shows "field_width (snd (read_format xs spec)) < 2 ^ 23"
    "sp_base (snd (read_format xs spec)) \<notin> bases
      \<Longrightarrow> sp_type (snd (read_format xs spec)) \<in> {FORMAT_TYPE_NONE, FORMAT_TYPE_PRECISION, FORMAT_TYPE_WIDTH}"
proof -
  show "field_width (snd (read_format xs spec)) < 2 ^ 23"
    using assms read_directive_fields(1) width_field_small [of "- field_width spec" spec]
    by (simp add: read_format_def Let_def read_precision_fields(1))
  show "sp_base (snd (read_format xs spec)) \<notin> bases
      \<Longrightarrow> sp_type (snd (read_format xs spec)) \<in> {FORMAT_TYPE_NONE, FORMAT_TYPE_PRECISION, FORMAT_TYPE_WIDTH}"
    using read_precision_fields(2) read_directive_fields(2) by (auto simp: read_format_def Let_def split: if_splits)
qed

section \<open>What a format stands for\<close>

text \<open>A character is padded to the field width; what is left of the width stays in the specifier.\<close>

definition left_over :: "int \<Rightarrow> int" where
  "left_over fw = (let v = signed_take_bit 23 (fw - 1) in if 0 < v then 0 else v)"

definition char_text :: "u8 \<Rightarrow> printf_spec \<Rightarrow> u8 list" where
  "char_text c spec =
     (let fw = field_width spec
      in if sp_flags spec AND LEFT \<noteq> 0 then c # replicate (pads fw) 0x20
         else replicate (pads fw) 0x20 @ c # replicate (pads (left_over fw)) 0x20)"

definition char_rest :: "printf_spec \<Rightarrow> printf_spec" where
  "char_rest spec =
     (let fw = field_width spec in set_width (left_over (if sp_flags spec AND LEFT \<noteq> 0 then fw else left_over fw)) spec)"

text \<open>
  The text of one directive, the specifier and the arguments that are left, and the string arguments
  that were read; \<open>lit\<close> are the bytes of the format that were decoded.
\<close>

definition directive_text ::
  "(ulong \<Rightarrow> u8 list) \<Rightarrow> u8 list \<Rightarrow> printf_spec \<Rightarrow> ulong list \<Rightarrow> (printf_spec \<times> ulong list \<times> u8 list \<times> ulong list) outcome" where
  "directive_text strs lit spec args =
     (case sp_type spec of
        FORMAT_TYPE_NONE \<Rightarrow> Ret (spec, args, lit, [])
      | FORMAT_TYPE_WIDTH \<Rightarrow>
          bnd (va_arg args) (\<lambda>(a, args). Ret (set_field_width (sint (va_int a)) spec, args, [], []))
      | FORMAT_TYPE_PRECISION \<Rightarrow>
          bnd (va_arg args) (\<lambda>(a, args). Ret (set_precision (sint (va_int a)) spec, args, [], []))
      | FORMAT_TYPE_CHAR \<Rightarrow>
          bnd (va_arg args) (\<lambda>(a, args).
          Ret (char_rest spec, args, char_text (ucast (va_int a)) spec, []))
      | FORMAT_TYPE_STR \<Rightarrow>
          bnd (va_arg args) (\<lambda>(a, args).
          Ret (spec, args, string_text strs a spec, if check_pointer_msg a = None then [a] else []))
      | FORMAT_TYPE_PTR \<Rightarrow> Fault
      | FORMAT_TYPE_PERCENT_CHAR \<Rightarrow> Ret (spec, args, [0x25], [])
      | FORMAT_TYPE_INVALID \<Rightarrow> Fault
      | _ \<Rightarrow> bnd (va_arg args) (\<lambda>(a, args). Ret (spec, args, number_text (int_arg spec a) spec, [])))"

text \<open>The text of a whole format, and the string arguments it reads.\<close>

function printf_text ::
  "(ulong \<Rightarrow> u8 list) \<Rightarrow> u8 list \<Rightarrow> printf_spec \<Rightarrow> ulong list \<Rightarrow> (u8 list \<times> ulong list) outcome" where
  "printf_text strs fs spec args =
     (if fs = [] then Ret ([], [])
      else let fs' = fst (read_format fs spec); sp = snd (read_format fs spec)
           in if sp_type sp = FORMAT_TYPE_INVALID then Ret ([], [])
              else bnd (directive_text strs (take (length fs - length fs') fs) sp args) (\<lambda>(spec', args', xs, ps).
                   bnd (printf_text strs fs' spec' args') (\<lambda>(ys, qs). Ret (xs @ ys, ps @ qs))))"
  by pat_completeness auto
termination by (relation "measure (\<lambda>(strs, fs, spec, args). length fs)") (auto intro: read_format_shorter)

declare printf_text.simps [simp del]

lemma char_out_emit:
  "char_out end c spec st = (char_rest spec, emit end (char_text c spec) st)"
  by (simp add: char_out_def char_pad_emit char_text_def char_rest_def left_over_def Let_def)

lemma set_field_width_small: "field_width (set_field_width w spec) < 2 ^ 23"
  unfolding set_field_width_def Let_def by (split if_split) (blast intro: width_field_small)

lemma directive_width:
  assumes "field_width spec < 2 ^ 23" "directive_text strs lit spec args = Ret (spec', args', xs, ps)"
  shows "field_width spec' < 2 ^ 23"
proof (cases "sp_type spec")
  case FORMAT_TYPE_CHAR
  then show ?thesis using assms width_field_small
    by (auto simp: directive_text_def outcome_simps char_rest_def Let_def)
next
  case FORMAT_TYPE_WIDTH
  then show ?thesis using assms set_field_width_small by (auto simp: directive_text_def outcome_simps)
next
  case FORMAT_TYPE_PRECISION
  then show ?thesis using assms by (auto simp: directive_text_def outcome_simps set_precision_def set_prec_def Let_def)
qed (use assms in \<open>auto simp: directive_text_def outcome_simps\<close>)

lemma step_emit:
  assumes "directive_text strs lit spec args = Ret (spec', args', xs, ps)"
    and "sp_base spec \<notin> bases \<Longrightarrow> sp_type spec \<in> {FORMAT_TYPE_NONE, FORMAT_TYPE_PRECISION, FORMAT_TYPE_WIDTH}"
    and "field_width spec < 2 ^ 23" "unat b + length xs < 2 ^ 64" "buf \<le> b"
    and "at m f lit" "span f (length lit) \<inter> {buf..<end} = {}" "f' = f + of_nat (length lit)"
    and "\<And>a. a \<in> set ps \<Longrightarrow> cstr m a (strs a) \<and> span a (Suc (length (strs a))) \<inter> {buf..<end} = {}"
  shows "vsnprintf_step end f f' spec args (b, m) = Ret (Some (spec', args'), emit end xs (b, m))"
proof -
  have nums: "sp_type spec \<notin> {FORMAT_TYPE_NONE, FORMAT_TYPE_PRECISION, FORMAT_TYPE_WIDTH}
      \<Longrightarrow> number end n spec (b, m) = Ret (emit end (number_text n spec) (b, m))" for n
    using assms(2) number_emit by blast
  show ?thesis
proof (cases "sp_type spec")
  case FORMAT_TYPE_NONE
  then show ?thesis using assms(1,4-8) literal_out_emit [of m f lit b buf "end"]
    by (simp add: directive_text_def vsnprintf_step_def)
next
  case FORMAT_TYPE_STR
  then obtain a where a: "args = a # args'" "spec' = spec" "xs = string_text strs a spec" "ps = (if check_pointer_msg a = None then [a] else [])"
    using assms(1) by (auto simp: directive_text_def va_arg_def outcome_simps split: list.splits)
  have "string_out end a spec (b, m) = Ret (emit end xs (b, m))"
    unfolding a(3) using assms(3-5,9) a by (intro string_out_emit) auto
  then show ?thesis using FORMAT_TYPE_STR a by (simp add: vsnprintf_step_def va_arg_def)
next
  case FORMAT_TYPE_CHAR
  then show ?thesis using assms(1)
    by (auto simp: directive_text_def vsnprintf_step_def va_arg_def char_out_emit [of "end"] split: list.splits)
qed (use assms(1) nums in \<open>auto simp: directive_text_def vsnprintf_step_def va_arg_def split: list.splits\<close>)
qed


lemma span_shift: "span (p + of_nat k) n \<subseteq> span p (k + n)"
proof
  fix q assume "q \<in> span (p + of_nat k) n"
  then obtain i where "i < n" "q = p + of_nat (k + i)" by (auto simp: span_def add.assoc)
  then show "q \<in> span p (k + n)" using span_nth [of "k + i" "k + n" p] by simp
qed

lemma loop_emit:
  assumes "printf_text strs fs spec args = Ret (xs, ps)" "cstr m f fs" "field_width spec < 2 ^ 23"
    and "unat b + length xs < 2 ^ 64" "buf \<le> b" "span f (Suc (length fs)) \<inter> {buf..<end} = {}"
    and "\<And>a. a \<in> set ps \<Longrightarrow> cstr m a (strs a) \<and> span a (Suc (length (strs a))) \<inter> {buf..<end} = {}"
  shows "vsnprintf_loop end f spec args (b, m) = Some (Ret (emit end xs (b, m)))"
  using assms
proof (induction strs fs spec args arbitrary: xs ps m f b rule: printf_text.induct)
  case (1 strs fs spec args)
  show ?case
  proof (cases "fs = []")
    case True
    then show ?thesis using "1.prems"(1,2) by (subst vsnprintf_loop.simps) (auto simp: printf_text.simps cstr_Nil)
  next
    case False
    have mf: "m f \<noteq> 0" using "1.prems"(2) False by (cases fs) (auto simp: cstr_Cons)
    define fs' sp where "fs' = fst (read_format fs spec)" and "sp = snd (read_format fs spec)"
    obtain f' where f': "format_decode m f spec = Some (f', sp)" "went f fs f' fs'"
      unfolding fs'_def sp_def using format_read [OF "1.prems"(2)] by blast
    have step: "vsnprintf_loop end f spec args (b, m) =
      (case vsnprintf_step end f f' sp args (b, m) of
             Ret (Some (spec, args), st) \<Rightarrow> vsnprintf_loop end f' spec args st
           | Ret (None, st) \<Rightarrow> Some (Ret st)
           | Fault \<Rightarrow> Some Fault | Bug \<Rightarrow> Some Bug | Hang \<Rightarrow> Some Hang)"
      using mf f'(1) by (subst vsnprintf_loop.simps) simp
    show ?thesis
    proof (cases "sp_type sp = FORMAT_TYPE_INVALID")
      case True
      then show ?thesis using "1.prems"(1) False unfolding step
        by (simp add: printf_text.simps [of strs fs] vsnprintf_step_def flip: fs'_def sp_def)
    next
      case valid: False
      define lit where "lit = take (length fs - length fs') fs"
      obtain spec' args' ys zs qs rs where d: "directive_text strs lit sp args = Ret (spec', args', ys, qs)"
        and r: "printf_text strs fs' spec' args' = Ret (zs, rs)" "xs = ys @ zs" "ps = qs @ rs"
        using "1.prems"(1) False valid
        by (auto simp: printf_text.simps [of strs fs] outcome_simps Let_def lit_def simp flip: fs'_def sp_def)
      have pos: "length lit = length fs - length fs'" "f' = f + of_nat (length lit)" "fs' = drop (length lit) fs"
        using went_pos [OF f'(2)] by (auto simp: lit_def)
      have at_lit: "at m f lit" using "1.prems"(2) by (auto simp: cstr_def at_def lit_def nth_append)
      have fs_len: "Suc (length fs) = length lit + Suc (length fs')" using pos(1) went_pos(3) [OF f'(2)] by simp
      have "span f (length lit) \<subseteq> span f (Suc (length fs))" by (rule span_mono) (simp add: fs_len)
      moreover have "span f' (Suc (length fs')) \<subseteq> span f (Suc (length fs))" unfolding pos(2) fs_len by (rule span_shift)
      ultimately have sub: "span f (length lit) \<inter> {buf..<end} = {}" "span f' (Suc (length fs')) \<inter> {buf..<end} = {}"
        using "1.prems"(6) by blast+
      define m' where "m' = snd (emit end ys (b, m))"
      have e: "emit end ys (b, m) = (b + of_nat (length ys), m')"
        unfolding m'_def by (rule prod_eqI) simp_all
      have st: "vsnprintf_step end f f' sp args (b, m) = Ret (Some (spec', args'), (b + of_nat (length ys), m'))"
        unfolding e [symmetric]
      proof (rule step_emit [OF d _ _ _ "1.prems"(5) at_lit sub(1) pos(2)])
        show "field_width sp < 2 ^ 23" unfolding sp_def by (rule read_format_fields(1) [OF "1.prems"(3)])
        show "unat b + length ys < 2 ^ 64" using "1.prems"(4) r(2) by simp
        show "cstr m a (strs a) \<and> span a (Suc (length (strs a))) \<inter> {buf..<end} = {}" if "a \<in> set qs" for a
          using "1.prems"(7) that r(3) by simp
      qed (use read_format_fields(2) [OF "1.prems"(3), of fs] in \<open>simp add: sp_def\<close>)
      have frame: "q \<notin> {buf..<end} \<Longrightarrow> m' q = m q" for q
        unfolding m'_def using "1.prems"(4,5) r(2) by (intro emit_frame) simp_all
      have ub: "unat (b + of_nat (length ys)) = unat b + length ys"
        using "1.prems"(4) r(2) by (simp add: unat_word_ariths unsigned_of_nat take_bit_nat_eq_self)
      have "vsnprintf_loop end f' spec' args' (b + of_nat (length ys), m') = Some (Ret (emit end zs (b + of_nat (length ys), m')))"
      proof (rule "1.IH" [OF False fs'_def sp_def valid d [unfolded lit_def], where xs = zs and ps = rs])
        show "cstr m' f' fs'" by (rule cstr_frame [OF went_cstr [OF f'(2) "1.prems"(2)]]) (use frame sub(2) in blast)
        show "field_width spec' < 2 ^ 23" by (rule directive_width [OF _ d]) (use read_format_fields(1) [OF "1.prems"(3)] in \<open>simp add: sp_def\<close>)
        show "cstr m' a (strs a) \<and> span a (Suc (length (strs a))) \<inter> {buf..<end} = {}" if "a \<in> set rs" for a
        proof -
          have a: "cstr m a (strs a)" "span a (Suc (length (strs a))) \<inter> {buf..<end} = {}"
            using "1.prems"(7) [of a] that r(3) by auto
          then show ?thesis by (blast intro: cstr_frame [OF a(1)] frame)
        qed
      qed (use r "1.prems"(4,5) ub sub in \<open>simp_all add: word_le_nat_alt\<close>)
      then show ?thesis unfolding step st by (simp add: e r(2))
    qed
  qed
qed

section \<open>The buffer\<close>

lemma span_interval:
  assumes "unat (buf :: ulong) + n < 2 ^ 64"
  shows "span buf n = {buf..<buf + of_nat n}"
proof -
  have e: "unat (buf + of_nat n) = unat buf + n"
    using assms by (simp add: unat_word_ariths unsigned_of_nat take_bit_nat_eq_self)
  show ?thesis
  proof (intro set_eqI iffI)
    fix q assume "q \<in> span buf n"
    then obtain i where "i < n" "q = buf + of_nat i" by (auto simp: span_def)
    then show "q \<in> {buf..<buf + of_nat n}"
      using assms e unat_offset [of buf n i] by (simp add: word_le_nat_alt word_less_nat_alt)
  next
    fix q assume "q \<in> {buf..<buf + of_nat n}"
    then have q: "unat buf \<le> unat q" "unat q < unat buf + n" by (simp_all add: word_le_nat_alt word_less_nat_alt e)
    then have "q = buf + of_nat (unat q - unat buf)" by (simp add: of_nat_diff)
    then show "q \<in> span buf n" using span_nth [of "unat q - unat buf" n buf] q by simp
  qed
qed

lemma span_apart:
  assumes "unat p + a \<le> unat q" "unat q + b < 2 ^ 64"
  shows "span p a \<inter> span q b = {}"
proof -
  have "unat p + a < 2 ^ 64" using assms by simp
  then have "unat (p + of_nat a) = unat p + a" by (simp add: unat_word_ariths unsigned_of_nat take_bit_nat_eq_self)
  then have "p + of_nat a \<le> q" using assms(1) by (simp add: word_le_nat_alt)
  then show ?thesis using \<open>unat p + a < 2 ^ 64\<close> assms(2) by (simp add: span_interval not_less [THEN iffD2])
qed

lemma store_last: "(store p (xs @ [x]) m)(p + of_nat (length xs) := y) = store p (xs @ [y]) m"
  by (simp add: store_append)

lemma store_snoc: "(store p xs m)(p + of_nat (length xs) := y) = store p (xs @ [y]) m"
  by (simp add: store_append)

lemma vsnprintf_store:
  assumes "cstr m fmt fs" "printf_text strs fs spec0 args = Ret (xs, ps)" "unat sz \<le> INT_MAX"
    and "unat buf + unat sz < 2 ^ 64" "unat buf + length xs < 2 ^ 64"
    and "span fmt (Suc (length fs)) \<inter> span buf (unat sz) = {}"
    and "\<forall>a\<in>set ps. cstr m a (strs a) \<and> span a (Suc (length (strs a))) \<inter> span buf (unat sz) = {}"
  shows "vsnprintf buf sz fmt args m =
    Ret (of_nat (length xs), if sz = 0 then m else store buf (take (unat sz - 1) xs @ [0]) m)"
proof -
  define n where "n = unat sz"
  have sz: "sz = of_nat n" by (simp add: n_def)
  have ue: "unat (buf + sz) = unat buf + n" using assms(4) by (simp add: n_def unat_word_ariths)
  have room: "span buf (unat sz) = {buf..<buf + sz}" using span_interval [OF assms(4)] by simp
  have "vsnprintf_loop (buf + sz) fmt spec0 args (buf, m) = Some (Ret (emit (buf + sz) xs (buf, m)))"
    by (rule loop_emit [OF assms(2,1)]) (use assms(5-7) room in \<open>auto simp: spec0_def\<close>)
  moreover have "\<not> buf + sz < buf" by (simp add: word_less_nat_alt ue)
  moreover have "emit (buf + sz) xs (buf, m) = (buf + of_nat (length xs), if 0 < n then store buf (take n xs) m else m)"
    using assms(5) by (simp add: emit_store word_less_nat_alt ue n_def)
  ultimately have v: "vsnprintf buf sz fmt args m = Ret (ucast (of_nat (length xs) :: ulong),
      let str = buf + of_nat (length xs); m' = (if 0 < n then store buf (take n xs) m else m)
      in if sz > 0 then if str < buf + sz then m'(str := 0) else m'(buf + sz - 1 := 0) else m')"
    using assms(3) by (simp add: vsnprintf_def ended_def Let_def)
  have "(ucast (of_nat (length xs) :: ulong) :: u32) = of_nat (length xs)"
    by (simp add: word_unat_eq_iff unsigned_ucast_eq unsigned_of_nat take_bit_take_bit)
  moreover have "(let str = buf + of_nat (length xs); m' = (if 0 < n then store buf (take n xs) m else m)
      in if sz > 0 then if str < buf + sz then m'(str := 0) else m'(buf + sz - 1 := 0) else m') =
      (if sz = 0 then m else store buf (take (n - 1) xs @ [0]) m)"
  proof (cases "n = 0")
    case True
    then show ?thesis using sz by (simp add: Let_def)
  next
    case False
    then have nz: "sz > 0" "sz \<noteq> 0" by (auto simp: n_def word_less_nat_alt)
    have ux: "unat (buf + of_nat (length xs)) = unat buf + length xs"
      using assms(5) by (simp add: unat_word_ariths unsigned_of_nat take_bit_nat_eq_self)
    show ?thesis
    proof (cases "length xs < n")
      case True
      then have "take n xs = xs" "take (n - 1) xs = xs" by simp_all
      then show ?thesis using True False nz store_snoc [of buf xs m 0] by (simp add: Let_def word_less_nat_alt ux ue)
    next
      case long: False
      obtain x where x: "take n xs = take (n - 1) xs @ [x]"
        using long False take_Suc_conv_app_nth [of "n - 1" xs] by auto
      have l: "length (take (n - 1) xs) = n - 1" using long by simp
      have e1: "buf + sz - 1 = buf + of_nat (n - 1)" using False sz by (simp add: of_nat_diff)
      have "(store buf (take n xs) m)(buf + sz - 1 := 0) = store buf (take (n - 1) xs @ [0]) m"
        unfolding e1 x using store_last [of buf "take (n - 1) xs" x m 0] unfolding l .
      then show ?thesis using long False nz by (simp add: Let_def word_less_nat_alt ux ue)
    qed
  qed
  ultimately show ?thesis unfolding v n_def by simp
qed

lemma digit_char_dig: "d < 10 \<Longrightarrow> dig (digit_char d) = Some d"
proof -
  have "list_all (\<lambda>d. dig (digit_char d) = Some d) [0..<10]" by code_simp
  then show "d < 10 \<Longrightarrow> ?thesis" by (simp add: list_all_iff)
qed

lemma number_of_append: "number_of b a (ds @ es) = number_of b (number_of b a ds) es"
  by (simp add: number_of_def)

lemma rdec_reads: "list_all (is_dig 10) (rdec n)" "number_of 10 0 (map (the \<circ> dig) (rev (rdec n))) = n" "rdec n \<noteq> []"
proof -
  show "rdec n \<noteq> []" by (subst rdec.simps) simp
  show "list_all (is_dig 10) (rdec n)"
  proof (induction n rule: rdec.induct)
    case (1 n)
    have "is_dig 10 (digit_char (n mod 10))" by (simp add: is_dig_def digit_char_dig)
    then show ?case using 1 by (subst rdec.simps) simp
  qed
  show "number_of 10 0 (map (the \<circ> dig) (rev (rdec n))) = n"
  proof (induction n rule: rdec.induct)
    case (1 n)
    show ?case
    proof (cases "n < 10")
      case True
      then show ?thesis by (subst rdec.simps) (simp add: digit_char_dig)
    next
      case False
      then show ?thesis using 1 by (subst rdec.simps) (simp add: digit_char_dig number_of_append comp_def)
    qed
  qed
qed

lemma rdec_length: "n < 10 ^ k \<Longrightarrow> 0 < k \<Longrightarrow> length (rdec n) \<le> k"
proof (induction k arbitrary: n)
  case (Suc k)
  show ?case
  proof (cases "n < 10")
    case True
    then show ?thesis by (subst rdec.simps) simp
  next
    case False
    then have "0 < k" using Suc.prems(1) by (cases k) auto
    then have "length (rdec (n div 10)) \<le> k" using Suc.prems(1) by (intro Suc.IH) (simp_all add: less_mult_imp_div_less mult.commute)
    then show ?thesis using False by (subst rdec.simps) simp
  qed
qed simp

lemma read_number_rdec: "n < 2 ^ 64 \<Longrightarrow> read_number 10 (rev (rdec n)) = Inr n"
proof -
  assume n: "n < 2 ^ 64"
  have "takeWhile (is_dig 10) (rev (rdec n)) = rev (rdec n)"
    using rdec_reads(1) [of n] by (simp add: takeWhile_eq_all_conv list_all_iff)
  then have "digits 10 (rev (rdec n)) = map (the \<circ> dig) (rev (rdec n))" by (simp only: digits_def)
  then show ?thesis using n rdec_reads [of n] by (simp add: read_number_def radix_of_def Let_def)
qed

lemma rdec_signs: "0x2b \<notin> set (rdec n)" "0x2d \<notin> set (rdec n)" "0 \<notin> set (rdec n)"
proof -
  have "\<not> is_dig 10 0x2b" "\<not> is_dig 10 0x2d" "\<not> is_dig 10 0" by code_simp+
  then show "0x2b \<notin> set (rdec n)" "0x2d \<notin> set (rdec n)" "0 \<notin> set (rdec n)"
    using rdec_reads(1) [of n] by (auto simp: list_all_iff)
qed


lemma sint_magnitude:
  "sint (a :: u64) < 0 \<Longrightarrow> int (unat (- a)) = - sint a" "\<not> sint a < 0 \<Longrightarrow> int (unat a) = sint a"
proof -
  have a: "a = word_of_int (sint a)" by simp
  have b: "- (2 ^ 63) \<le> sint a" "sint a < 2 ^ 63" using sint_greater_eq [of a] sint_less [of a] by simp_all
  show "sint a < 0 \<Longrightarrow> int (unat (- a)) = - sint a"
  proof -
    assume *: "sint a < 0"
    have "- a = word_of_int (- sint a)" by simp
    then have "uint (- a) = (- sint a) mod 2 ^ 64" by (simp only: uint_word_of_int) simp
    then show ?thesis using * b by simp
  qed
  show "\<not> sint a < 0 \<Longrightarrow> int (unat a) = sint a"
  proof -
    assume *: "\<not> sint a < 0"
    have "uint a = sint a mod 2 ^ 64" using uint_word_of_int [of "sint a", where 'a = 64] by simp
    then show ?thesis using * b by simp
  qed
qed

definition decimal :: "int \<Rightarrow> u8 list" where
  "decimal v = (if v < 0 then [0x2d] else []) @ rev (rdec (nat \<bar>v\<bar>))"

lemma lld_text: "printf_text strs [0x25, 0x6c, 0x6c, 0x64] spec0 [a] = Ret (decimal (sint a), [])"
proof -
  define sp where "sp = \<lparr>sp_type = FORMAT_TYPE_LONG_LONG, field_width = -1, sp_flags = SIGN, sp_base = 10, precision = -1\<rparr>"
  have r: "read_format [0x25, 0x6c, 0x6c, 0x64] spec0 = ([], sp)" unfolding sp_def by code_simp
  have f: "SIGN AND SIGN \<noteq> 0" "SIGN AND PLUS = 0" "SIGN AND SPACE = 0" "SIGN AND SPECIAL = 0" "SIGN AND SMALL = 0"
    "SIGN AND LEFT = 0" "SIGN AND ZEROPAD = 0" by (simp_all add: flag_defs)
  have nz: "SIGN \<noteq> 0" by (simp add: SIGN_def)
  have m: "magnitude SIGN a = nat \<bar>sint a\<bar>"
    using sint_magnitude [of a] nz by (cases "sint a < 0") (simp_all add: magnitude_def nat_eq_iff flip: of_nat_eq_iff [where 'a = int])
  have "number_text a sp = decimal (sint a)"
    by (simp add: number_text_def sp_def f nz sign_text_def prefix_text_def m decimal_def rdec_rbase [of 0, symmetric] Let_def)
  then show ?thesis using r
    by (simp add: printf_text.simps directive_text_def va_arg_def int_arg_def sp_def)
qed

lemma decimal_length: "- (2 ^ 63) \<le> v \<Longrightarrow> v < 2 ^ 63 \<Longrightarrow> length (decimal v) \<le> 20"
proof -
  assume "- (2 ^ 63) \<le> v" "v < 2 ^ 63"
  then have "nat \<bar>v\<bar> < 10 ^ 19" by simp
  then have "length (rdec (nat \<bar>v\<bar>)) \<le> 19" by (rule rdec_length) simp
  moreover have "length (decimal v) \<le> 1 + length (rdec (nat \<bar>v\<bar>))" by (simp add: decimal_def del: abs_if)
  ultimately show ?thesis by linarith
qed

lemma decimal_reads:
  assumes "- (2 ^ 63) \<le> v" "v < 2 ^ 63"
  shows "read_signed 10 (decimal v) = Inr v"
proof (cases "v < 0")
  case True
  then show ?thesis using read_number_rdec [of "nat \<bar>v\<bar>"] assms by (simp add: read_signed_def decimal_def)
next
  case False
  define xs where "xs = rev (rdec (nat \<bar>v\<bar>))"
  have "hd xs \<in> set xs" using rdec_reads(3) by (intro hd_in_set) (simp add: xs_def)
  then have h: "hd xs \<noteq> 0x2d" "hd xs \<noteq> 0x2b" using rdec_signs [of "nat \<bar>v\<bar>"] by (auto simp: xs_def)
  have "read_number 10 xs = Inr (nat v)" using read_number_rdec [of "nat \<bar>v\<bar>"] False assms by (simp add: xs_def)
  moreover have "decimal v = xs" using False by (simp add: decimal_def xs_def)
  ultimately show ?thesis using False h by (simp add: read_signed_def)
qed

section \<open>Properties\<close>



definition sample_format :: "u8 list" where
  "sample_format = [0x25, 0x33, 0x64, 0x20, 0x25, 0x73]"

definition sample_memory :: bytes where
  "sample_memory a = (if a < 0x5000 then example_text sample_format (a - 0x1000) else example_text [0x6f, 0x6b] (a - 0x5200))"

lemma sample_text:
  "printf_text (\<lambda>_. [0x6f, 0x6b]) sample_format spec0 [42, 0x5200] = Ret ([0x20, 0x34, 0x32, 0x20, 0x6f, 0x6b], [0x5200])"
  by code_simp

lemma sample_strings: "cstr sample_memory 0x1000 sample_format" "cstr sample_memory 0x5200 [0x6f, 0x6b]"
  by (simp_all add: sample_format_def cstr_Cons cstr_Nil sample_memory_def example_text_def)

lemma sample_apart:
  "span 0x1000 (Suc (length sample_format)) \<inter> span 0x6000 (unat (6 :: ulong)) = {}"
  "span 0x5200 (Suc (length [0x6f, 0x6b :: u8])) \<inter> span 0x6000 (unat (6 :: ulong)) = {}"
  by (rule span_apart; simp add: sample_format_def)+


text \<open>
  C17. Printing and reading back agree: what \<^verbatim>\<open>snprintf\<close> writes for \<^verbatim>\<open>%lld\<close> into a buffer of at least 21 bytes,
  \<^verbatim>\<open>kstrtoll\<close> reads as the same number, for every 64-bit number.
\<close>

theorem vsprintf_decimal_roundtrip:
  assumes "cstr m fmt [0x25, 0x6c, 0x6c, 0x64]" "21 \<le> unat sz" "unat sz \<le> INT_MAX"
    and "unat buf + unat sz < 2 ^ 64" "span fmt 5 \<inter> span buf (unat sz) = {}"
  shows "\<exists>n m'. snprintf buf sz fmt [a] m = Ret (n, m') \<and> kstrtoll m' buf 10 = Inr a"
proof -
  define xs where "xs = decimal (sint a)"
  have b: "- (2 ^ 63) \<le> sint a" "sint a < 2 ^ 63" using sint_greater_eq [of a] sint_less [of a] by simp_all
  have len: "length xs \<le> 20" unfolding xs_def by (rule decimal_length [OF b])
  have nz: "sz \<noteq> 0" using assms(2) by auto
  have "Suc (Suc (Suc (Suc (Suc 0)))) = (5 :: nat)" by simp
  then have fmt: "span fmt (Suc (Suc (Suc (Suc (Suc 0))))) \<inter> span buf (unat sz) = {}" using assms(5) by (simp only:)
  have "snprintf buf sz fmt [a] m = Ret (of_nat (length xs), store buf (xs @ [0]) m)"
    unfolding snprintf_def using vsnprintf_store [OF assms(1) lld_text assms(3,4), of a] assms(2,4) fmt len nz
    by (simp add: xs_def)
  moreover have "cstr (store buf (xs @ [0]) m) buf xs"
    unfolding cstr_def
  proof
    show "at (store buf (xs @ [0]) m) buf (xs @ [0])" using len assms(2,4) by (intro store_at) simp
    show "0 \<notin> set xs" using rdec_signs(3) by (auto simp: xs_def decimal_def)
  qed
  then have "kstrtoll (store buf (xs @ [0]) m) buf 10 = Inr a"
    using kstrtoll_spec [of _ buf xs 10 10] decimal_reads [OF b] len b by (simp add: INT_MAX_def xs_def within_def)
  ultimately show ?thesis by blast
qed

definition lld_memory :: bytes where
  "lld_memory a = example_text [0x25, 0x6c, 0x6c, 0x64] (a - 0x1000)"

theorem vsprintf_decimal_roundtrip_witness:
  "\<exists>n m'. snprintf 0x6000 21 0x1000 [- (2 ^ 63)] lld_memory = Ret (n, m') \<and> kstrtoll m' 0x6000 10 = Inr (- (2 ^ 63))"
proof (rule vsprintf_decimal_roundtrip)
  show "cstr lld_memory 0x1000 [0x25, 0x6c, 0x6c, 0x64]" by (simp add: cstr_Cons cstr_Nil lld_memory_def example_text_def)
  show "span 0x1000 5 \<inter> span 0x6000 (unat (21 :: ulong)) = {}" by (rule span_apart; simp)
qed (simp_all add: INT_MAX_def)

lemma sint_small: "n < 2 ^ 31 \<Longrightarrow> sint (of_nat n :: u32) = int n"
  by (simp add: signed_of_nat signed_take_bit_int_eq_self)

lemma scast_small: "n < 2 ^ 31 \<Longrightarrow> (scast (of_nat n :: u32) :: ulong) = of_nat n"
  using sint_small [of n] by (metis of_int_of_nat_eq of_int_sint)

lemma small_digit: "(num :: u64) \<le> 9 \<Longrightarrow> rdec (unat num) = [0x30 + ucast num]"
proof -
  assume "num \<le> 9"
  then have "unat num < 10" by (simp add: word_le_nat_alt)
  moreover have "(of_nat (unat num) :: u8) = ucast num"
    by (simp add: word_unat_eq_iff unsigned_ucast_eq unsigned_of_nat)
  ultimately show ?thesis by (subst rdec.simps) (simp add: digit_char_def)
qed

text \<open>
  C33. \<^verbatim>\<open>num_to_str\<close> writes the decimal digits, right-justified with spaces to the width, without a NUL byte, and
  returns their number; if the digits or the width exceed the size it returns 0 and writes nothing.
\<close>

theorem vsprintf_num_to_str:
  assumes "unat sz < 2 ^ 31"
  shows "num_to_str buf sz num width m =
    (let ds = rev (rdec (unat num)); xs = replicate (unat width - length ds) 0x20 @ ds
     in if unat sz < length ds \<or> unat sz < unat width then Ret (0, m)
        else Ret (of_nat (length xs), store buf xs m))"
proof -
  define ds where "ds = rdec (unat num)"
  define len where "len = length ds"
  have "unat num < 2 ^ LENGTH(64)" by (rule unsigned_less)
  then have "unat num < 10 ^ 20" by simp
  then have len: "len \<le> 20" unfolding len_def ds_def by (rule rdec_length) simp
  have d: "(if num \<le> 9 then Ret [0x30 + ucast num] else put_dec num) = Ret ds"
    using small_digit [of num] by (simp add: put_dec_eq ds_def)
  have u: "unat (of_nat len :: u32) = len" using len by (simp add: unsigned_of_nat take_bit_nat_eq_self)
  from sint_small [of len] sint_small [of "unat sz"] have "sint (of_nat len :: u32) = int len" "sint sz = int (unat sz)"
    using len assms by simp_all
  then have c: "(sint (of_nat len :: u32) > sint sz \<or> width > sz) \<longleftrightarrow> (unat sz < len \<or> unat sz < unat width)"
    by (simp only: word_less_nat_alt of_nat_less_iff)
  show ?thesis
  proof (cases "unat sz < len \<or> unat sz < unat width")
    case True
    then show ?thesis using c by (simp add: num_to_str_def d Let_def len_def ds_def)
  next
    case False
    have w: "width > of_nat len \<longleftrightarrow> len < unat width" by (simp add: word_less_nat_alt u)
    show ?thesis
    proof (cases "len < unat width")
      case True
      have k: "unat (width - of_nat len) = unat width - len" using True by (simp add: unat_sub word_le_nat_alt u)
      then have kw: "(ucast (width - of_nat len) :: ulong) = of_nat (unat width - len)" "width = of_nat (len + (unat width - len))"
        using True by (metis k of_nat_unat) (use True in simp)
      show ?thesis using False True c w kw k
        by (simp add: num_to_str_def d Let_def store_append flip: len_def ds_def)
    next
      case short: False
      then show ?thesis using False c w by (simp add: num_to_str_def d Let_def flip: len_def ds_def)
    qed
  qed
qed

theorem vsprintf_num_to_str_witness:
  "num_to_str 0x6000 8 1234567 9 sample_memory = Ret (0, sample_memory)
    \<and> num_to_str 0x6000 9 1234567 9 sample_memory =
        Ret (9, store 0x6000 [0x20, 0x20, 0x31, 0x32, 0x33, 0x34, 0x35, 0x36, 0x37] sample_memory)"
proof -
  have "rdec 1234567 = [0x37, 0x36, 0x35, 0x34, 0x33, 0x32, 0x31]"
    by (simp add: rdec.simps digit_char_def)
  moreover have "replicate 2 (0x20 :: u8) = [0x20, 0x20]" by (simp add: numeral_2_eq_2)
  ultimately show ?thesis
    using vsprintf_num_to_str [where sz = 8 and buf = "0x6000" and num = 1234567 and width = 9 and m = sample_memory] vsprintf_num_to_str [where sz = 9 and buf = "0x6000" and num = 1234567 and width = 9 and m = sample_memory]
    by (simp add: Let_def)
qed

text \<open>
  \<^verbatim>\<open>vscnprintf\<close> returns the number of bytes it has put before the NUL byte, always less than the size.
\<close>

theorem vsprintf_vscnprintf_bound:
  assumes "cstr m fmt fs" "printf_text strs fs spec0 args = Ret (xs, ps)" "unat sz \<le> INT_MAX" "sz \<noteq> 0" "length xs < 2 ^ 31"
    and "unat buf + unat sz < 2 ^ 64" "unat buf + length xs < 2 ^ 64"
    and "span fmt (Suc (length fs)) \<inter> span buf (unat sz) = {}"
    and "\<forall>a\<in>set ps. cstr m a (strs a) \<and> span a (Suc (length (strs a))) \<inter> span buf (unat sz) = {}"
  shows "\<exists>r m'. vscnprintf buf sz fmt args m = Ret (r, m') \<and> unat r < unat sz \<and> at m' buf (take (unat r) xs @ [0])"
proof -
  have v: "vsnprintf buf sz fmt args m = Ret (of_nat (length xs), store buf (take (unat sz - 1) xs @ [0]) m)"
    using vsnprintf_store [OF assms(1-3,6-9)] assms(4) by simp
  define n where "n = unat sz"
  have n: "0 < n" "n \<le> INT_MAX" "unat sz = n" using assms(3,4) by (simp_all add: n_def unat_gt_0)
  define r where "r = (if length xs < n then length xs else n - 1)"
  have r: "r < 2 ^ 31" "r < n" using n by (auto simp: r_def INT_MAX_def)
  have "unat (scast (of_nat (length xs) :: u32) :: ulong) = length xs"
    using assms(5) by (simp add: scast_small unsigned_of_nat take_bit_nat_eq_self)
  moreover have "(ucast (sz - 1) :: u32) = of_nat (n - 1)"
  proof -
    have "sz - 1 = of_nat (n - 1)" using n(1) by (simp add: of_nat_diff n_def)
    moreover have "(ucast (of_nat k :: ulong) :: u32) = of_nat k" for k
      by (simp add: word_unat_eq_iff unsigned_ucast_eq unsigned_of_nat take_bit_take_bit)
    ultimately show ?thesis by (simp only:)
  qed
  ultimately have "vscnprintf buf sz fmt args m = Ret (of_nat r, store buf (take (n - 1) xs @ [0]) m)"
    using v assms(4) n by (simp add: vscnprintf_def word_less_nat_alt r_def)
  moreover have "unat (of_nat r :: u32) = r" using r by (simp add: unsigned_of_nat take_bit_nat_eq_self)
  moreover have "take (n - 1) xs = take r xs" by (simp add: r_def)
  moreover have "at (store buf (take r xs @ [0]) m) buf (take r xs @ [0])"
    using assms(6) n r by (intro store_at) simp
  ultimately show ?thesis using r n by auto
qed

theorem vsprintf_vscnprintf_bound_witness:
  "\<exists>r m'. vscnprintf 0x6000 6 0x1000 [42, 0x5200] sample_memory = Ret (r, m') \<and> unat r < unat (6 :: ulong)
    \<and> at m' 0x6000 (take (unat r) [0x20, 0x34, 0x32, 0x20, 0x6f, 0x6b] @ [0])"
  by (rule vsprintf_vscnprintf_bound [OF sample_strings(1) sample_text _ _ _ _ _ sample_apart(1)])
    (use sample_strings(2) sample_apart(2) in \<open>simp_all add: INT_MAX_def\<close>)

section \<open>Fields\<close>

definition fits :: "printf_spec \<Rightarrow> bool" where
  "fits spec \<longleftrightarrow> - (2 ^ 23) \<le> field_width spec \<and> field_width spec < 2 ^ 23 \<and> - (2 ^ 15) \<le> precision spec \<and> precision spec < 2 ^ 15"

lemma fits_set [simp]: "fits spec \<Longrightarrow> fits (set_width w spec)" "fits spec \<Longrightarrow> fits (set_prec w spec)"
  using signed_take_bit_int_less_exp [of 23 w] signed_take_bit_int_greater_eq_minus_exp [of 23 w]
    signed_take_bit_int_less_exp [of 15 w] signed_take_bit_int_greater_eq_minus_exp [of 15 w]
  by (simp_all add: fits_def set_width_def set_prec_def)

lemma fits_fields [simp]:
  "fits (spec\<lparr>sp_type := t\<rparr>) = fits spec" "fits (spec\<lparr>sp_flags := f\<rparr>) = fits spec" "fits (spec\<lparr>sp_base := b\<rparr>) = fits spec"
  "fits spec \<Longrightarrow> fits (spec\<lparr>precision := 0\<rparr>)" "fits spec \<Longrightarrow> fits (spec\<lparr>precision := -1\<rparr>)" "fits spec \<Longrightarrow> fits (spec\<lparr>field_width := -1\<rparr>)"
  by (simp_all add: fits_def)

definition well_typed :: "printf_spec \<Rightarrow> bool" where
  "well_typed spec \<longleftrightarrow> fits spec \<and>
     (sp_type spec \<in> {FORMAT_TYPE_NONE, FORMAT_TYPE_WIDTH, FORMAT_TYPE_PRECISION} \<or> sp_base spec \<in> {8, 10, 16})"

lemma conversion_typed: "fits spec \<Longrightarrow> well_typed (decode_conversion c q spec)"
  by (simp add: well_typed_def decode_conversion_def Let_def)

lemma qualifier_typed: "decode_qualifier m p spec = (q, spec') \<Longrightarrow> fits spec \<Longrightarrow> well_typed spec'"
  by (auto simp: decode_qualifier_def split_beta Let_def conversion_typed)

lemma waiting_typed:
  "fits spec \<Longrightarrow> well_typed (spec\<lparr>sp_type := FORMAT_TYPE_PRECISION\<rparr>)" "fits spec \<Longrightarrow> well_typed (spec\<lparr>sp_type := FORMAT_TYPE_WIDTH\<rparr>)"
  "fits spec \<Longrightarrow> well_typed (spec\<lparr>sp_type := FORMAT_TYPE_NONE\<rparr>)"
  by (simp_all add: well_typed_def)

lemma precision_typed: "decode_precision m p spec = Some (q, spec') \<Longrightarrow> fits spec \<Longrightarrow> well_typed spec'"
  by (auto simp: decode_precision_def Let_def bind_eq_Some_conv split: if_splits intro: qualifier_typed waiting_typed fits_set)

lemma directive_typed: "decode_directive m p spec = Some (q, spec') \<Longrightarrow> fits spec \<Longrightarrow> well_typed spec'"
  by (auto simp: decode_directive_def Let_def bind_eq_Some_conv split: if_splits intro: precision_typed waiting_typed fits_set)



end
