(* ===== verification/Scheduler.thy ===== *)
theory Scheduler
  imports Double_List
begin

unbundle bit_operations_syntax

text \<open>
  The task scheduler: \<^verbatim>\<open>src/mykernel/sched/scheduler/myos_rt.c\<close> (the only scheduling class),
  \<^verbatim>\<open>scheduler_core.c\<close> (picking a task, switching to it, waking and forking tasks), the preemption
  counter of \<^verbatim>\<open>preempt_macro.h\<close> and \<^verbatim>\<open>preempt_arch.h\<close>, and the idle loop of
  \<^verbatim>\<open>sched/misc/idle.c\<close>.  The state is that of the boot processor: \<^verbatim>\<open>select_task_rq\<close> and
  \<^verbatim>\<open>wake_up_new_task\<close> only ever name the run queue of processor 0.

  A task is known by the address of its \<^verbatim>\<open>task_s\<close>, which is not null.  The node \<open>Run_list p\<close> is
  the \<^verbatim>\<open>rt.run_list\<close> of the task \<open>p\<close>, so \<^verbatim>\<open>container_of\<close> is the inverse of that constructor.
  The C code runs on after \<^verbatim>\<open>switch_to\<close> on the stack of the task that is switched to.  What that
  task does then depends on where it was suspended, which the field \<open>frame\<close> records.

  This theory has the definitions, the run queue as a list of tasks, and the lemmas that one pass of
  \<^verbatim>\<open>__schedule\<close> does what a rule on lists of tasks says and that the loops around it end.
  \<open>Scheduler_Run\<close> builds on them.
\<close>

section \<open>Tasks, the run queue and the processor\<close>

definition TASK_RUNNING :: u32 where "TASK_RUNNING = 0x0000"
definition TASK_INTERRUPTIBLE :: u32 where "TASK_INTERRUPTIBLE = 0x0001"
definition TASK_UNINTERRUPTIBLE :: u32 where "TASK_UNINTERRUPTIBLE = 0x0002"
definition TASK_DEAD :: u32 where "TASK_DEAD = 0x0080"
definition TASK_WAKING :: u32 where "TASK_WAKING = 0x0200"
definition TASK_NEW :: u32 where "TASK_NEW = 0x0800"
definition TASK_NORMAL :: u32 where "TASK_NORMAL = TASK_INTERRUPTIBLE OR TASK_UNINTERRUPTIBLE"
definition PF_NOFREEZE :: u32 where "PF_NOFREEZE = 0x8000"

lemmas task_states =
  TASK_RUNNING_def TASK_INTERRUPTIBLE_def TASK_UNINTERRUPTIBLE_def TASK_DEAD_def TASK_WAKING_def
  TASK_NEW_def

datatype rqnode = Running_lhdr | Run_list ulong

datatype frame = In_schedule | In_schedule_idle | In_preempt_schedule | In_do_task_dead | In_ret_from_fork

record task_s =
  tstate :: u32
  tflags :: u32
  on_cpu :: u32
  on_rq :: u32
  vruntime :: u64
  time_slice :: u32
  mm :: "ulong option"
  active_mm :: "ulong option"
  nivcsw :: ulong
  tif_need_resched :: bool
  frame :: frame

record rq_s =
  curr :: ulong
  idle :: ulong
  nr_switches :: u64
  clock :: u64
  prev_mm :: "ulong option"
  last_jiffies :: ulong

text \<open>
  \<open>lists\<close> holds the run queue's header and every task's node; \<open>stray\<close> is the word the code reads
  as a \<^verbatim>\<open>vruntime\<close> when it takes the header itself for a task; \<open>pgd\<close> is the physical address of an
  address space's page directory.  \<open>jiffies\<close> and \<open>local_clock\<close> are advanced by the hardware.
\<close>

record sched =
  task :: "ulong \<Rightarrow> task_s"
  lists :: "rqnode lists"
  stray :: u64
  rq :: rq_s
  "current" :: ulong
  jiffies :: ulong
  local_clock :: u64
  pcount :: u32
  irqs_off :: bool
  mm_users :: "ulong \<Rightarrow> u32"
  pgd :: "ulong \<Rightarrow> ulong"
  cr3 :: ulong

definition with_task :: "ulong \<Rightarrow> (task_s \<Rightarrow> task_s) \<Rightarrow> sched \<Rightarrow> sched" where
  "with_task p f s = s\<lparr>task := (task s)(p := f (task s p))\<rparr>"

definition container_task :: "rqnode ptr \<Rightarrow> ulong outcome" where
  "container_task l = (case l of At (Run_list p) \<Rightarrow> Ret p | _ \<Rightarrow> Fault)"

section \<open>The preemption counter\<close>

definition PREEMPT_NEED_RESCHED :: u32 where "PREEMPT_NEED_RESCHED = 0x80000000"
definition PREEMPT_DISABLE_OFFSET :: u32 where "PREEMPT_DISABLE_OFFSET = 1"
definition PREEMPT_DISABLED :: u32 where
  "PREEMPT_DISABLED = PREEMPT_DISABLE_OFFSET + (0 + PREEMPT_NEED_RESCHED)"

definition preempt_count :: "sched \<Rightarrow> u32" where
  "preempt_count s = pcount s AND NOT PREEMPT_NEED_RESCHED"

definition preempt_count_set :: "u32 \<Rightarrow> sched \<Rightarrow> sched" where
  "preempt_count_set v s =
     s\<lparr>pcount := (pcount s AND PREEMPT_NEED_RESCHED) OR (v AND NOT PREEMPT_NEED_RESCHED)\<rparr>"

definition set_preempt_need_resched :: "sched \<Rightarrow> sched" where
  "set_preempt_need_resched s = s\<lparr>pcount := pcount s AND NOT PREEMPT_NEED_RESCHED\<rparr>"

definition clear_preempt_need_resched :: "sched \<Rightarrow> sched" where
  "clear_preempt_need_resched s = s\<lparr>pcount := pcount s OR PREEMPT_NEED_RESCHED\<rparr>"

definition preempt_disable :: "sched \<Rightarrow> sched" where
  "preempt_disable s = s\<lparr>pcount := pcount s + 1\<rparr>"

definition preempt_enable_no_resched :: "sched \<Rightarrow> sched" where
  "preempt_enable_no_resched s = s\<lparr>pcount := pcount s - 1\<rparr>"

definition should_resched :: "u32 \<Rightarrow> sched \<Rightarrow> bool" where
  "should_resched off s \<longleftrightarrow> pcount s = off"

definition in_atomic :: "sched \<Rightarrow> bool" where
  "in_atomic s \<longleftrightarrow> preempt_count s \<noteq> 0"

definition in_atomic_preempt_off :: "sched \<Rightarrow> bool" where
  "in_atomic_preempt_off s \<longleftrightarrow> preempt_count s \<noteq> PREEMPT_DISABLE_OFFSET"

definition preemptible :: "sched \<Rightarrow> bool" where
  "preemptible s \<longleftrightarrow> preempt_count s = 0 \<and> \<not> irqs_off s"

definition need_resched :: "sched \<Rightarrow> bool" where
  "need_resched s \<longleftrightarrow> tif_need_resched (task s (current s))"

definition clear_tsk_need_resched :: "ulong \<Rightarrow> sched \<Rightarrow> sched" where
  "clear_tsk_need_resched p = with_task p (tif_need_resched_update (\<lambda>_. False))"

definition set_current_state :: "u32 \<Rightarrow> sched \<Rightarrow> sched" where
  "set_current_state v s = with_task (current s) (tstate_update (\<lambda>_. v)) s"

section \<open>The scheduling class\<close>

text \<open>
  The search for the place of the current task in the queue.  The entity whose \<^verbatim>\<open>vruntime\<close> is
  compared is the first one throughout, so the comparison \<open>gt\<close> has one value for the whole walk.
\<close>

partial_function (option) vruntime_walk :: "rqnode heap \<Rightarrow> bool \<Rightarrow> rqnode ptr \<Rightarrow> rqnode ptr outcome option" where
  "vruntime_walk h gt l =
     (if gt \<and> l \<noteq> At Running_lhdr
      then (case rd_next h l of Ret l' \<Rightarrow> vruntime_walk h gt l' | _ \<Rightarrow> Some Fault)
      else Some (Ret l))"

declare vruntime_walk.simps [code]

definition first_vruntime :: "rqnode ptr \<Rightarrow> sched \<Rightarrow> u64 outcome" where
  "first_vruntime l s =
     (case l of At Running_lhdr \<Rightarrow> Ret (stray s) | At (Run_list p) \<Rightarrow> Ret (vruntime (task s p)) | _ \<Rightarrow> Fault)"

definition insert_by_vruntime :: "ulong \<Rightarrow> sched \<Rightarrow> sched outcome" where
  "insert_by_vruntime c s =
     (let tmp_list = nxt (mem (lists s) Running_lhdr) in
      bnd (first_vruntime tmp_list s) (\<lambda>v.
      bnd (loop_end (vruntime_walk (mem (lists s)) (vruntime (task s c) > v) tmp_list)) (\<lambda>l.
      bnd (list_add_to_prev (At (Run_list c)) l (mem (lists s))) (\<lambda>h.
      Ret (s\<lparr>lists := (lists s)\<lparr>mem := h,
        count := (count (lists s))(Running_lhdr := count (lists s) Running_lhdr + 1)\<rparr>\<rparr>)))))"

definition put_back :: "ulong \<Rightarrow> sched \<Rightarrow> sched outcome" where
  "put_back c s =
     (if tstate (task s c) = TASK_RUNNING
      then if c = idle (rq s)
           then bnd (list_header_add_to_tail Running_lhdr (At (Run_list c)) (lists s)) (\<lambda>l. Ret (s\<lparr>lists := l\<rparr>))
           else insert_by_vruntime c s
      else Ret s)"

definition pick_next_task_myos :: "sched \<Rightarrow> (ulong \<times> sched) outcome" where
  "pick_next_task_myos s =
     (let c = current s; used_jiffies = jiffies s - last_jiffies (rq s) in
      if (c = idle (rq s) \<or> used_jiffies \<ge> ucast (time_slice (task s c))
          \<or> tstate (task s c) \<noteq> TASK_RUNNING) \<and> count (lists s) Running_lhdr > 0
      then
        if tstate (task s c) \<noteq> TASK_RUNNING \<and> count (lists s) Running_lhdr \<le> 0 then Bug
        else bnd (list_header_remove_head Running_lhdr (lists s)) (\<lambda>(next_lp, l).
          if next_lp = NULL then Hang
          else bnd (put_back c (s\<lparr>lists := l\<rparr>)) (\<lambda>s.
            let s = (if c \<noteq> idle (rq s) then with_task c (vruntime_update (\<lambda>v. v + used_jiffies)) s else s) in
            bnd (container_task next_lp) (\<lambda>n.
            Ret (n, s\<lparr>rq := (rq s)\<lparr>last_jiffies := jiffies s\<rparr>\<rparr>))))
      else Ret (c, s))"

text \<open>The loop over the classes has one class to ask.\<close>

definition pick_next_task :: "sched \<Rightarrow> (ulong \<times> sched) outcome" where
  "pick_next_task s = bnd (pick_next_task_myos s) (\<lambda>(p, s). if p \<noteq> 0 then Ret (p, s) else Bug)"

section \<open>Switching tasks\<close>

definition update_rq_clock :: "sched \<Rightarrow> sched" where
  "update_rq_clock s =
     (let delta = local_clock s - clock (rq s) in
      if sint delta < 0 then s else s\<lparr>rq := (rq s)\<lparr>clock := clock (rq s) + delta\<rparr>\<rparr>)"

definition schedule_debug :: "sched \<Rightarrow> sched" where
  "schedule_debug s = (if in_atomic_preempt_off s then preempt_count_set PREEMPT_DISABLED s else s)"

definition mmget :: "ulong option \<Rightarrow> sched \<Rightarrow> sched outcome" where
  "mmget m s = (case m of None \<Rightarrow> Fault | Some a \<Rightarrow> Ret (s\<lparr>mm_users := (mm_users s)(a := mm_users s a + 1)\<rparr>))"

definition switch_mm_irqs_off :: "ulong option \<Rightarrow> ulong \<Rightarrow> sched \<Rightarrow> sched" where
  "switch_mm_irqs_off prev nm s = (if prev = Some nm then s else s\<lparr>cr3 := pgd s nm\<rparr>)"

definition switch_to :: "ulong \<Rightarrow> sched \<Rightarrow> sched" where
  "switch_to n s = s\<lparr>current := n\<rparr>"

definition finish_task_switch :: "sched \<Rightarrow> sched" where
  "finish_task_switch s = s\<lparr>rq := (rq s)\<lparr>prev_mm := None\<rparr>\<rparr>"

definition switch_mms :: "ulong \<Rightarrow> ulong \<Rightarrow> sched \<Rightarrow> sched outcome" where
  "switch_mms prev n s =
     (case mm (task s n) of
        None \<Rightarrow>
          (let s = with_task n (active_mm_update (\<lambda>_. active_mm (task s prev))) s in
           if mm (task s prev) \<noteq> None then mmget (active_mm (task s prev)) s
           else Ret (with_task prev (active_mm_update (\<lambda>_. None)) s))
      | Some nm \<Rightarrow>
          (let s = switch_mm_irqs_off (active_mm (task s prev)) nm s in
           if mm (task s prev) = None
           then Ret (with_task prev (active_mm_update (\<lambda>_. None))
                  (s\<lparr>rq := (rq s)\<lparr>prev_mm := active_mm (task s prev)\<rparr>\<rparr>))
           else Ret s))"

definition context_switch :: "ulong \<Rightarrow> ulong \<Rightarrow> sched \<Rightarrow> sched outcome" where
  "context_switch prev n s =
     bnd (switch_mms prev n s) (\<lambda>s.
       let s = switch_to n (s\<lparr>rq := (rq s)\<lparr>curr := n\<rparr>\<rparr>) in
       Ret (if frame (task s n) = In_ret_from_fork then s else finish_task_switch s))"

text \<open>
  A task that runs for the first time starts in \<^verbatim>\<open>ret_from_fork\<close> and not behind \<^verbatim>\<open>switch_to\<close>, so it
  neither finishes the switch nor enables the interrupts here.
\<close>

definition do__schedule :: "sched \<Rightarrow> sched outcome" where
  "do__schedule s =
     (let prev = curr (rq s);
          s = schedule_debug s;
          s = s\<lparr>irqs_off := True\<rparr>;
          s = update_rq_clock s in
      bnd (pick_next_task s) (\<lambda>(n, s).
      let s = clear_tsk_need_resched prev s;
          s = clear_preempt_need_resched s in
      if prev \<noteq> n
      then
        let s = s\<lparr>rq := (rq s)\<lparr>nr_switches := nr_switches (rq s) + 1\<rparr>\<rparr>;
            s = with_task prev (nivcsw_update (\<lambda>c. c + 1)) s in
        bnd (context_switch prev n s) (\<lambda>s.
        Ret (if frame (task s n) = In_ret_from_fork then s else s\<lparr>irqs_off := False\<rparr>))
      else Ret (s\<lparr>irqs_off := False\<rparr>)))"

text \<open>
  The loops around \<^verbatim>\<open>__schedule\<close>.  \<open>enter f\<close> is what the caller does in front of the call, \<open>leave f\<close>
  what a task suspended there does behind it.  \<open>sched_loop\<close> follows the processor through the loops
  of the tasks it comes to, until one of them is left.
\<close>

definition enter :: "frame \<Rightarrow> sched \<Rightarrow> sched" where
  "enter f s =
     (let s = with_task (current s) (frame_update (\<lambda>_. f)) s in
      if f = In_schedule \<or> f = In_preempt_schedule then preempt_disable s else s)"

definition leave :: "frame \<Rightarrow> sched \<Rightarrow> sched" where
  "leave f s = (if f = In_schedule_idle then s else preempt_enable_no_resched s)"

partial_function (option) sched_loop :: "frame \<Rightarrow> sched \<Rightarrow> sched outcome option" where
  "sched_loop f s =
     (case do__schedule (enter f s) of
        Ret s1 \<Rightarrow>
          (let g = frame (task s1 (current s1)); s2 = leave g s1 in
           if g = In_do_task_dead then Some Bug
           else if g = In_ret_from_fork
           then if should_resched 0 s2 \<and> preemptible s2 then sched_loop In_preempt_schedule s2 else Some (Ret s2)
           else if need_resched s2 then sched_loop g s2 else Some (Ret s2))
      | Fault \<Rightarrow> Some Fault | Bug \<Rightarrow> Some Bug | Hang \<Rightarrow> Some Hang)"

declare sched_loop.simps [code]

definition schedule :: "sched \<Rightarrow> sched outcome" where
  "schedule s = loop_end (sched_loop In_schedule s)"

definition schedule_idle :: "sched \<Rightarrow> sched outcome" where
  "schedule_idle s = loop_end (sched_loop In_schedule_idle s)"

definition do_idle :: "sched \<Rightarrow> sched outcome" where
  "do_idle s = schedule_idle (set_preempt_need_resched s)"

definition preempt_schedule_common :: "sched \<Rightarrow> sched outcome" where
  "preempt_schedule_common s = loop_end (sched_loop In_preempt_schedule s)"

definition preempt_schedule :: "sched \<Rightarrow> sched outcome" where
  "preempt_schedule s = (if \<not> preemptible s then Ret s else preempt_schedule_common s)"

definition preempt_enable :: "sched \<Rightarrow> sched outcome" where
  "preempt_enable s =
     (let s = preempt_enable_no_resched s in if should_resched 0 s then preempt_schedule s else Ret s)"

definition do_task_dead :: "sched \<Rightarrow> sched outcome" where
  "do_task_dead s =
     (let s = set_current_state TASK_DEAD s;
          s = with_task (current s) (tflags_update (\<lambda>f. f OR PF_NOFREEZE)) s in
      loop_end (sched_loop In_do_task_dead s))"

section \<open>Waking and forking tasks\<close>

definition set_task_cpu :: "ulong \<Rightarrow> sched \<Rightarrow> sched outcome" where
  "set_task_cpu p s =
     (let s = with_task p (tstate_update (\<lambda>_. TASK_RUNNING)) s in
      bnd (list_header_contains Running_lhdr (At (Run_list p)) (lists s)) (\<lambda>b.
      if \<not> b
      then bnd (list_header_add_to_head Running_lhdr (At (Run_list p)) (lists s)) (\<lambda>l. Ret (s\<lparr>lists := l\<rparr>))
      else Ret s))"

definition try_to_wake_up :: "ulong \<Rightarrow> u32 \<Rightarrow> sched \<Rightarrow> (u32 \<times> sched) outcome" where
  "try_to_wake_up p st s =
     (let success = 0; s = preempt_disable s in
      bnd (if p = current s then Ret (with_task p (tstate_update (\<lambda>_. TASK_RUNNING)) s)
           else set_task_cpu p (with_task p (tstate_update (\<lambda>_. TASK_WAKING)) s)) (\<lambda>s.
      bnd (preempt_enable s) (\<lambda>s. Ret (success, s))))"

definition wake_up_process :: "ulong \<Rightarrow> sched \<Rightarrow> (u32 \<times> sched) outcome" where
  "wake_up_process p = try_to_wake_up p TASK_NORMAL"

definition wake_up_state :: "ulong \<Rightarrow> u32 \<Rightarrow> sched \<Rightarrow> (u32 \<times> sched) outcome" where
  "wake_up_state p st = try_to_wake_up p st"

definition do__sched_fork :: "ulong \<Rightarrow> sched \<Rightarrow> sched outcome" where
  "do__sched_fork p s =
     (let s = with_task p (vruntime_update (\<lambda>_. 0)) s in
      bnd (INIT_LIST_S (At (Run_list p)) (mem (lists s))) (\<lambda>h. Ret (s\<lparr>lists := (lists s)\<lparr>mem := h\<rparr>\<rparr>)))"

definition sched_fork :: "ulong \<Rightarrow> sched \<Rightarrow> (u32 \<times> sched) outcome" where
  "sched_fork p s =
     bnd (do__sched_fork p s) (\<lambda>s.
     let s = with_task p (tstate_update (\<lambda>_. TASK_NEW)) s;
         s = with_task p (on_cpu_update (\<lambda>_. 0)) s in
     Ret (0, s))"

definition wake_up_new_task :: "ulong \<Rightarrow> sched \<Rightarrow> sched outcome" where
  "wake_up_new_task p s =
     (let s = with_task p (tstate_update (\<lambda>_. TASK_RUNNING)) s in
      bnd (list_header_add_to_head Running_lhdr (At (Run_list p)) (lists s)) (\<lambda>l. Ret (s\<lparr>lists := l\<rparr>)))"

definition init_idle :: "ulong \<Rightarrow> sched \<Rightarrow> sched outcome" where
  "init_idle p s =
     (let s = s\<lparr>rq := (rq s)\<lparr>idle := p\<rparr>\<rparr>;
          s = with_task p (on_rq_update (\<lambda>_. 1)) s;
          s = with_task p (on_cpu_update (\<lambda>_. 1)) s;
          s = s\<lparr>rq := (rq s)\<lparr>curr := p\<rparr>\<rparr> in
      bnd (INIT_LIST_HEADER_S Running_lhdr (lists s)) (\<lambda>l. Ret (s\<lparr>lists := l\<rparr>)))"

text \<open>The way out of an interrupt or exception (\<^verbatim>\<open>arch/x86_64/myos/interrupt.c\<close>).\<close>

definition hwint_exit :: "sched \<Rightarrow> sched outcome" where
  "hwint_exit s = (if \<not> in_atomic s then schedule s else Ret s)"

section \<open>The run queue as a list of tasks\<close>

definition queue :: "rqnode lists \<Rightarrow> ulong list \<Rightarrow> bool" where
  "queue l xs \<longleftrightarrow> hdrs l {Running_lhdr} (\<lambda>_. map Run_list xs)"

lemma queue_iff:
  "queue l xs \<longleftrightarrow> dlist (mem l) Running_lhdr (map Run_list xs) \<and> unat (count l Running_lhdr) = length xs"
  by (simp add: queue_def hdrs_one)

lemma queue_distinct: "queue l xs \<Longrightarrow> distinct xs"
  by (simp add: queue_iff dlist_def distinct_map)

lemma queue_count_pos: "queue l xs \<Longrightarrow> (count l Running_lhdr > 0) = (xs \<noteq> [])"
  using header_count_pos [of "count l Running_lhdr" xs] by (simp add: queue_iff)

lemma fresh_node: "fresh {Running_lhdr} (\<lambda>_. map Run_list xs) (Run_list p) \<longleftrightarrow> p \<notin> set xs"
  by (auto simp: fresh_def)

lemma queue_of_hdrs:
  "hdrs l {Running_lhdr} ((\<lambda>_. map Run_list xs)(Running_lhdr := map Run_list ys)) \<Longrightarrow> queue l ys"
  by (simp add: queue_def hdrs_one)

lemma queue_remove_head:
  assumes "queue l (x # xs)"
  shows "\<exists>l'. list_header_remove_head Running_lhdr l = Ret (At (Run_list x), l') \<and> queue l' xs"
  using hdrs_remove_head(2) [OF assms [unfolded queue_def], of Running_lhdr "Run_list x" "map Run_list xs"]
    queue_of_hdrs [of _ "x # xs" xs] by fastforce

lemma queue_add_to_head:
  assumes "queue l xs" "p \<notin> set xs" "Suc (length xs) < 2 ^ 64"
  shows "\<exists>l'. list_header_add_to_head Running_lhdr (At (Run_list p)) l = Ret l' \<and> queue l' (p # xs)"
  using hdrs_add_to_head [OF assms(1) [unfolded queue_def], of Running_lhdr "Run_list p"] assms(2,3)
    queue_of_hdrs [of _ xs "p # xs"] by (fastforce simp: fresh_node)

lemma queue_add_to_tail:
  assumes "queue l xs" "p \<notin> set xs" "Suc (length xs) < 2 ^ 64"
  shows "\<exists>l'. list_header_add_to_tail Running_lhdr (At (Run_list p)) l = Ret l' \<and> queue l' (xs @ [p])"
  using hdrs_add_to_tail [OF assms(1) [unfolded queue_def], of Running_lhdr "Run_list p"] assms(2,3)
    queue_of_hdrs [of _ xs "xs @ [p]"] by (fastforce simp: fresh_node)

lemma queue_contains:
  "queue l xs \<Longrightarrow> list_header_contains Running_lhdr (At (Run_list p)) l = Ret (p \<in> set xs)"
  using list_header_contains_ring [of l Running_lhdr "map Run_list xs" "Run_list p"] by (auto simp: queue_iff)

lemma queue_add_to_prev:
  assumes "queue l (xs @ ys)" "p \<notin> set (xs @ ys)" "Suc (length (xs @ ys)) < 2 ^ 64"
    and "v = hd (map Run_list ys @ [Running_lhdr])"
  shows "\<exists>h. list_add_to_prev (At (Run_list p)) (At v) (mem l) = Ret h
    \<and> queue (l\<lparr>mem := h, count := (count l)(Running_lhdr := count l Running_lhdr + 1)\<rparr>) (xs @ p # ys)"
proof -
  from assms(1) have d: "dlist (mem l) Running_lhdr (map Run_list xs @ map Run_list ys)"
    and c: "unat (count l Running_lhdr) = length (xs @ ys)" by (auto simp: queue_iff)
  have "Run_list p \<notin> set (Running_lhdr # map Run_list xs @ map Run_list ys)" using assms(2) by auto
  from list_add_to_prev_ring [OF d this assms(4)] obtain h where
    h: "list_add_to_prev (At (Run_list p)) (At v) (mem l) = Ret h"
      "dlist h Running_lhdr (map Run_list xs @ Run_list p # map Run_list ys)" by blast
  with unat_Suc [OF c assms(3)] show ?thesis by (auto simp: queue_iff)
qed

text \<open>The walk stays at the first node or, when the comparison holds, goes round to the header.\<close>

lemma vruntime_walk_stays: "vruntime_walk h False l = Some (Ret l)"
  by (subst vruntime_walk.simps) simp

lemma vruntime_walk_round:
  assumes "successively (linked h) (map Run_list xs @ [Running_lhdr])"
    "map Run_list xs @ [Running_lhdr] = w # ws"
  shows "vruntime_walk h True (At w) = Some (Ret (At Running_lhdr))"
  using assms
proof (induction xs arbitrary: w ws)
  case Nil
  then show ?case by (subst vruntime_walk.simps) simp
next
  case (Cons x xs)
  then obtain v vs where v: "map Run_list xs @ [Running_lhdr] = v # vs" by (cases xs) auto
  with Cons.prems have "nxt (h (Run_list x)) = At v" "successively (linked h) (map Run_list xs @ [Running_lhdr])"
    by (auto simp: linked_def)
  with Cons.IH [OF this(2) v] Cons.prems(2) show ?case
    by (subst vruntime_walk.simps) simp
qed

lemma queue_first:
  "queue l xs \<Longrightarrow> nxt (mem l Running_lhdr) = At (hd (map Run_list xs @ [Running_lhdr]))"
  by (cases xs) (auto simp: queue_iff dlist_def linked_def)

lemma queue_walk:
  assumes "queue l xs"
  shows "vruntime_walk (mem l) gt (At (hd (map Run_list xs @ [Running_lhdr])))
    = Some (Ret (At (if gt then Running_lhdr else hd (map Run_list xs @ [Running_lhdr]))))"
proof -
  obtain w ws where w: "map Run_list xs @ [Running_lhdr] = w # ws" by (cases xs) auto
  from assms w have "successively (linked (mem l)) (map Run_list xs @ [Running_lhdr])"
    by (auto simp: queue_iff dlist_def)
  from vruntime_walk_round [OF this w] w show ?thesis by (simp add: vruntime_walk_stays)
qed

section \<open>Picking a task, on lists\<close>

text \<open>
  What the class does to the queue.  The current task gives way when it is the idle task, when its
  slice is used up or when it is not runnable, provided another task waits.  A task that stays
  runnable goes back to the tail of the queue or to its head, by one comparison with the first
  waiting task.
\<close>

definition gives_way :: "sched \<Rightarrow> bool" where
  "gives_way s \<longleftrightarrow> current s = idle (rq s)
     \<or> jiffies s - last_jiffies (rq s) \<ge> ucast (time_slice (task s (current s)))
     \<or> tstate (task s (current s)) \<noteq> TASK_RUNNING"

definition goes_last :: "sched \<Rightarrow> ulong list \<Rightarrow> bool" where
  "goes_last s ys \<longleftrightarrow> current s = idle (rq s)
     \<or> ys \<noteq> [] \<and> vruntime (task s (current s)) > vruntime (task s (hd ys))"

definition requeued :: "sched \<Rightarrow> ulong list \<Rightarrow> ulong list" where
  "requeued s ys =
     (if tstate (task s (current s)) \<noteq> TASK_RUNNING then ys
      else if goes_last s ys then ys @ [current s] else current s # ys)"

definition pick_abs :: "sched \<Rightarrow> ulong list \<Rightarrow> ulong \<times> ulong list" where
  "pick_abs s xs = (if gives_way s \<and> xs \<noteq> [] then (hd xs, requeued s (tl xs)) else (current s, xs))"

definition charged :: "sched \<Rightarrow> ulong \<Rightarrow> task_s" where
  "charged s = (if current s = idle (rq s) then task s
     else (task s)(current s :=
       vruntime_update (\<lambda>v. v + (jiffies s - last_jiffies (rq s))) (task s (current s))))"

lemma insert_by_vruntime_queue:
  assumes "queue (lists s) ys" "current s \<notin> set ys" "Suc (length ys) < 2 ^ 64"
    and "current s \<noteq> idle (rq s)"
  shows "\<exists>l. insert_by_vruntime (current s) s = Ret (s\<lparr>lists := l\<rparr>)
    \<and> queue l (if goes_last s ys then ys @ [current s] else current s # ys)"
proof -
  let ?w = "hd (map Run_list ys @ [Running_lhdr])"
  obtain v where v: "first_vruntime (At ?w) s = Ret v" "ys \<noteq> [] \<Longrightarrow> v = vruntime (task s (hd ys))"
    by (cases ys) (auto simp: first_vruntime_def)
  let ?gt = "vruntime (task s (current s)) > v"
  let ?v = "if ?gt then Running_lhdr else ?w"
  have "\<exists>h. list_add_to_prev (At (Run_list (current s))) (At ?v) (mem (lists s)) = Ret h
    \<and> queue ((lists s)\<lparr>mem := h, count := (count (lists s))(Running_lhdr := count (lists s) Running_lhdr + 1)\<rparr>)
        (if ?gt then ys @ [current s] else current s # ys)"
    using queue_add_to_prev [of "lists s" ys "[]" "current s" Running_lhdr]
      queue_add_to_prev [of "lists s" "[]" ys "current s" ?w] assms(1-3) by simp
  then obtain h where
    h: "list_add_to_prev (At (Run_list (current s))) (At ?v) (mem (lists s)) = Ret h"
      "queue ((lists s)\<lparr>mem := h, count := (count (lists s))(Running_lhdr := count (lists s) Running_lhdr + 1)\<rparr>)
        (if ?gt then ys @ [current s] else current s # ys)" by blast
  have "(if ?gt then ys @ [current s] else current s # ys)
      = (if goes_last s ys then ys @ [current s] else current s # ys)"
    using v(2) assms(4) by (cases ys) (auto simp: goes_last_def)
  note q = h(2) [unfolded this]
  from h(1) v(1) queue_first [OF assms(1)] queue_walk [OF assms(1), of ?gt]
  have "insert_by_vruntime (current s) s = Ret (s\<lparr>lists := (lists s)\<lparr>mem := h,
      count := (count (lists s))(Running_lhdr := count (lists s) Running_lhdr + 1)\<rparr>\<rparr>)"
    by (simp add: insert_by_vruntime_def loop_end_def Let_def)
  with q show ?thesis by blast
qed

lemma put_back_queue:
  assumes "queue (lists s) ys" "current s \<notin> set ys" "Suc (length ys) < 2 ^ 64"
  shows "\<exists>l. put_back (current s) s = Ret (s\<lparr>lists := l\<rparr>) \<and> queue l (requeued s ys)"
proof -
  consider "tstate (task s (current s)) \<noteq> TASK_RUNNING"
    | "tstate (task s (current s)) = TASK_RUNNING" "current s = idle (rq s)"
    | "tstate (task s (current s)) = TASK_RUNNING" "current s \<noteq> idle (rq s)" by blast
  then show ?thesis
  proof cases
    case 1
    then have "put_back (current s) s = Ret (s\<lparr>lists := lists s\<rparr>)" "requeued s ys = ys"
      by (simp_all add: put_back_def requeued_def)
    with assms(1) show ?thesis by metis
  next
    case 2
    with queue_add_to_tail [OF assms] show ?thesis
      by (auto simp: put_back_def requeued_def goes_last_def)
  next
    case 3
    with insert_by_vruntime_queue [OF assms] show ?thesis by (simp add: put_back_def requeued_def)
  qed
qed

lemma requeued_lists [simp]: "requeued (s\<lparr>lists := l\<rparr>) ys = requeued s ys"
  by (simp add: requeued_def goes_last_def)

lemma pick_stays:
  assumes "queue (lists s) xs" "\<not> (gives_way s \<and> xs \<noteq> [])"
  shows "pick_next_task_myos s = Ret (current s, s)"
proof -
  have "\<not> (gives_way s \<and> count (lists s) Running_lhdr > 0)"
    using assms queue_count_pos [OF assms(1)] by simp
  then show ?thesis unfolding pick_next_task_myos_def gives_way_def Let_def by (rule if_not_P)
qed

lemma pick_switches:
  assumes "queue (lists s) (x # xs)" "current s \<notin> set (x # xs)" "Suc (length xs) < 2 ^ 64" "gives_way s"
  shows "\<exists>l. pick_next_task_myos s = Ret (x, s\<lparr>lists := l, task := charged s, rq := (rq s)\<lparr>last_jiffies := jiffies s\<rparr>\<rparr>)
    \<and> queue l (requeued s xs)"
proof -
  from queue_remove_head [OF assms(1)] obtain l where
    l: "list_header_remove_head Running_lhdr (lists s) = Ret (At (Run_list x), l)" "queue l xs" by blast
  with put_back_queue [of "s\<lparr>lists := l\<rparr>" xs] assms(2,3) obtain l' where
    l': "put_back (current s) (s\<lparr>lists := l\<rparr>) = Ret (s\<lparr>lists := l'\<rparr>)" "queue l' (requeued s xs)" by auto
  have c: "count (lists s) Running_lhdr > 0" using queue_count_pos [OF assms(1)] by simp
  then have nb: "\<not> (tstate (task s (current s)) \<noteq> TASK_RUNNING \<and> count (lists s) Running_lhdr \<le> 0)"
    by (blast dest: leD)
  from c assms(4) have g: "(current s = idle (rq s)
      \<or> jiffies s - last_jiffies (rq s) \<ge> ucast (time_slice (task s (current s)))
      \<or> tstate (task s (current s)) \<noteq> TASK_RUNNING) \<and> count (lists s) Running_lhdr > 0"
    by (simp add: gives_way_def)
  have "pick_next_task_myos s = Ret (x, s\<lparr>lists := l', task := charged s, rq := (rq s)\<lparr>last_jiffies := jiffies s\<rparr>\<rparr>)"
    unfolding pick_next_task_myos_def Let_def if_P [OF g] if_not_P [OF nb] l(1)
    by (simp add: l'(1) container_task_def charged_def with_task_def)
  with l'(2) show ?thesis by blast
qed

section \<open>The invariant\<close>

text \<open>
  An address space is in order when every user task has its own space as the active one and the
  page directory loaded in the processor is that of the current task's active space.
\<close>

definition space_ok :: "sched \<Rightarrow> bool" where
  "space_ok s \<longleftrightarrow> (\<forall>t m. mm (task s t) = Some m \<longrightarrow> active_mm (task s t) = Some m)
     \<and> (\<exists>m. active_mm (task s (current s)) = Some m \<and> cr3 s = pgd s m)"

definition sched_inv :: "sched \<Rightarrow> ulong list \<Rightarrow> bool" where
  "sched_inv s xs \<longleftrightarrow> queue (lists s) xs \<and> current s = curr (rq s) \<and> current s \<notin> set xs
     \<and> 0 \<notin> set (current s # xs) \<and> idle (rq s) \<in> set (current s # xs)
     \<and> (\<forall>t \<in> insert (idle (rq s)) (set xs). tstate (task s t) = TASK_RUNNING) \<and> space_ok s"

lemma distinct_words_length: "distinct xs \<Longrightarrow> length (xs :: ulong list) \<le> 2 ^ 64"
  using card_mono [of UNIV "set xs"] by (simp add: distinct_card card_word)

lemma sched_inv_room:
  assumes "sched_inv s xs"
  shows "Suc (length xs) < 2 ^ 64"
  using distinct_words_length [of "0 # current s # xs"] assms queue_distinct [of "lists s" xs]
  by (auto simp: sched_inv_def)

lemma sched_inv_room_for:
  assumes "sched_inv s xs" "p \<notin> set xs" "p \<noteq> current s" "p \<noteq> 0"
  shows "Suc (Suc (length xs)) < 2 ^ 64"
  using distinct_words_length [of "0 # p # current s # xs"] assms queue_distinct [of "lists s" xs]
  by (auto simp: sched_inv_def)

text \<open>The fields of a task that a switch leaves alone.\<close>

definition core :: "task_s \<Rightarrow> task_s" where
  "core t = t\<lparr>active_mm := None, nivcsw := 0, tif_need_resched := False\<rparr>"

lemma core_fields:
  assumes "core a = core b"
  shows "tstate a = tstate b" "vruntime a = vruntime b" "time_slice a = time_slice b"
    "frame a = frame b" "mm a = mm b"
  using arg_cong [OF assms, of tstate] arg_cong [OF assms, of vruntime]
    arg_cong [OF assms, of time_slice] arg_cong [OF assms, of frame] arg_cong [OF assms, of mm]
  by (simp_all add: core_def)

lemma core_updates [simp]:
  "core (active_mm_update f t) = core t" "core (nivcsw_update g t) = core t"
  "core (tif_need_resched_update h t) = core t"
  by (simp_all add: core_def)

definition picked :: "sched \<Rightarrow> ulong list \<Rightarrow> ulong \<Rightarrow> task_s" where
  "picked s xs = (if gives_way s \<and> xs \<noteq> [] then charged s else task s)"

lemma picked_fields [simp]:
  "tstate (picked s xs t) = tstate (task s t)" "time_slice (picked s xs t) = time_slice (task s t)"
  "frame (picked s xs t) = frame (task s t)" "mm (picked s xs t) = mm (task s t)"
  "active_mm (picked s xs t) = active_mm (task s t)"
  "tif_need_resched (picked s xs t) = tif_need_resched (task s t)"
  by (simp_all add: picked_def charged_def)

lemma requeued_set:
  "set (requeued s ys) = set ys \<union> (if tstate (task s (current s)) = TASK_RUNNING then {current s} else {})"
  by (auto simp: requeued_def)

text \<open>Picking a task from a state in order always succeeds and does what the rule on lists says.\<close>

lemma pick_next_task_ok:
  assumes "sched_inv s xs"
  shows "\<exists>l lj. pick_next_task s
      = Ret (fst (pick_abs s xs), s\<lparr>lists := l, task := picked s xs, rq := (rq s)\<lparr>last_jiffies := lj\<rparr>\<rparr>)
    \<and> queue l (snd (pick_abs s xs))
    \<and> lj = (if gives_way s \<and> xs \<noteq> [] then jiffies s else last_jiffies (rq s))"
proof (cases "gives_way s \<and> xs \<noteq> []")
  case False
  have "s = s\<lparr>lists := lists s, task := task s, rq := (rq s)\<lparr>last_jiffies := last_jiffies (rq s)\<rparr>\<rparr>"
    by simp
  moreover have "pick_next_task s = Ret (current s, s)"
    using pick_stays [OF _ False] assms by (auto simp: pick_next_task_def sched_inv_def)
  moreover have "pick_abs s xs = (current s, xs)" "picked s xs = task s" "queue (lists s) xs"
    using False assms by (auto simp: pick_abs_def picked_def sched_inv_def)
  ultimately show ?thesis using False by (metis fst_conv snd_conv)
next
  case True
  then obtain x ys where xs: "xs = x # ys" by (cases xs) auto
  have "queue (lists s) (x # ys)" "current s \<notin> set (x # ys)" "Suc (length ys) < 2 ^ 64" "x \<noteq> 0"
    using assms sched_inv_room [OF assms] xs by (auto simp: sched_inv_def)
  moreover from True have "gives_way s" by simp
  ultimately obtain l where
    "pick_next_task_myos s = Ret (x, s\<lparr>lists := l, task := charged s, rq := (rq s)\<lparr>last_jiffies := jiffies s\<rparr>\<rparr>)"
    "queue l (requeued s ys)" "x \<noteq> 0"
    using pick_switches [of s x ys] by blast
  with True xs show ?thesis by (auto simp: pick_next_task_def pick_abs_def picked_def)
qed

lemma pick_abs_ok:
  assumes "sched_inv s xs" "pick_abs s xs = (n, ys)"
  shows "n \<notin> set ys" "0 \<notin> set (n # ys)" "idle (rq s) \<in> set (n # ys)"
    "\<forall>t \<in> insert (idle (rq s)) (set ys). tstate (task s t) = TASK_RUNNING"
    "n = current s \<or> n \<in> set xs" "n = current s \<Longrightarrow> ys = xs"
proof -
  have d: "distinct xs" "current s \<notin> set xs" "0 \<notin> set (current s # xs)" "idle (rq s) \<in> set (current s # xs)"
    "\<forall>t \<in> insert (idle (rq s)) (set xs). tstate (task s t) = TASK_RUNNING"
    using assms(1) queue_distinct by (auto simp: sched_inv_def)
  have "n \<notin> set ys \<and> 0 \<notin> set (n # ys) \<and> idle (rq s) \<in> set (n # ys)
    \<and> (\<forall>t \<in> insert (idle (rq s)) (set ys). tstate (task s t) = TASK_RUNNING)
    \<and> (n = current s \<or> n \<in> set xs) \<and> (n = current s \<longrightarrow> ys = xs)"
  proof (cases "gives_way s \<and> xs \<noteq> []")
    case False
    with assms(2) d show ?thesis by (auto simp: pick_abs_def)
  next
    case True
    then obtain x zs where xs: "xs = x # zs" by (cases xs) auto
    with True assms(2) have n: "n = x" "ys = requeued s zs" by (auto simp: pick_abs_def)
    from d xs show ?thesis unfolding n by (auto simp: requeued_set split: if_splits)
  qed
  then show "n \<notin> set ys" "0 \<notin> set (n # ys)" "idle (rq s) \<in> set (n # ys)"
    "\<forall>t \<in> insert (idle (rq s)) (set ys). tstate (task s t) = TASK_RUNNING"
    "n = current s \<or> n \<in> set xs" "n = current s \<Longrightarrow> ys = xs" by auto
qed

text \<open>Switching the address space leaves the one of the next task loaded.\<close>

lemma switch_mms_ok:
  assumes "space_ok s" "n \<noteq> current s"
  shows "\<exists>tk mu c pm. switch_mms (current s) n s
      = Ret (s\<lparr>task := tk, mm_users := mu, cr3 := c, rq := (rq s)\<lparr>prev_mm := pm\<rparr>\<rparr>)
    \<and> (\<forall>t. core (tk t) = core (task s t) \<and> tif_need_resched (tk t) = tif_need_resched (task s t))
    \<and> (\<forall>t m. mm (tk t) = Some m \<longrightarrow> active_mm (tk t) = Some m)
    \<and> (\<exists>m. active_mm (tk n) = Some m \<and> c = pgd s m)"
proof -
  let ?p = "current s"
  let ?R = "\<lambda>tk c. (\<forall>t. core (tk t) = core (task s t) \<and> tif_need_resched (tk t) = tif_need_resched (task s t))
    \<and> (\<forall>t m. mm (tk t) = Some m \<longrightarrow> active_mm (tk t) = Some m)
    \<and> (\<exists>m. active_mm (tk n) = Some m \<and> c = pgd s m)"
  from assms(1) obtain a where a: "active_mm (task s ?p) = Some a" "cr3 s = pgd s a"
    and own: "\<And>t m. mm (task s t) = Some m \<Longrightarrow> active_mm (task s t) = Some m"
    by (auto simp: space_ok_def)
  let ?n = "(task s)(n := active_mm_update (\<lambda>_. Some a) (task s n))"
  let ?q = "\<lambda>f. f(?p := active_mm_update (\<lambda>_. None) (f ?p))"
  have "\<exists>tk mu c pm. switch_mms ?p n s
      = Ret (s\<lparr>task := tk, mm_users := mu, cr3 := c, rq := (rq s)\<lparr>prev_mm := pm\<rparr>\<rparr>) \<and> ?R tk c"
  proof (cases "mm (task s n)")
    case None
    show ?thesis
    proof (cases "mm (task s ?p)")
      case (Some m)
      have "switch_mms ?p n s = Ret (s\<lparr>task := ?n, mm_users := (mm_users s)(a := mm_users s a + 1),
          cr3 := cr3 s, rq := (rq s)\<lparr>prev_mm := prev_mm (rq s)\<rparr>\<rparr>)"
        using None Some a(1) assms(2) by (simp add: switch_mms_def mmget_def with_task_def)
      moreover have "?R ?n (cr3 s)" using own None a by simp
      ultimately show ?thesis by blast
    next
      case pn: None
      have "switch_mms ?p n s = Ret (s\<lparr>task := ?q ?n, mm_users := mm_users s,
          cr3 := cr3 s, rq := (rq s)\<lparr>prev_mm := prev_mm (rq s)\<rparr>\<rparr>)"
        using None pn a(1) assms(2) by (simp add: switch_mms_def with_task_def)
      moreover have "?R (?q ?n) (cr3 s)" using own None pn a assms(2) by simp
      ultimately show ?thesis by blast
    qed
  next
    case nm: (Some nm)
    let ?c = "if a = nm then cr3 s else pgd s nm"
    have c: "?c = pgd s nm" using a(2) by simp
    show ?thesis
    proof (cases "mm (task s ?p)")
      case (Some m)
      have "switch_mms ?p n s = Ret (s\<lparr>task := task s, mm_users := mm_users s,
          cr3 := ?c, rq := (rq s)\<lparr>prev_mm := prev_mm (rq s)\<rparr>\<rparr>)"
        using nm Some a(1) by (simp add: switch_mms_def switch_mm_irqs_off_def)
      moreover have "?R (task s) ?c" using own nm c by simp
      ultimately show ?thesis by blast
    next
      case None
      have "switch_mms ?p n s = Ret (s\<lparr>task := ?q (task s), mm_users := mm_users s,
          cr3 := ?c, rq := (rq s)\<lparr>prev_mm := Some a\<rparr>\<rparr>)"
        using nm None a(1) by (simp add: switch_mms_def switch_mm_irqs_off_def with_task_def)
      moreover have "?R (?q (task s)) ?c" using own [OF nm] own None nm c assms(2) by simp
      ultimately show ?thesis by blast
    qed
  qed
  then show ?thesis by blast
qed

section \<open>Switching to the picked task\<close>

definition scheduled :: "sched \<Rightarrow> ulong list \<Rightarrow> sched \<Rightarrow> bool" where
  "scheduled s xs s' \<longleftrightarrow> sched_inv s' (snd (pick_abs s xs)) \<and> current s' = fst (pick_abs s xs)
     \<and> idle (rq s') = idle (rq s) \<and> jiffies s' = jiffies s
     \<and> last_jiffies (rq s') = (if gives_way s \<and> xs \<noteq> [] then jiffies s else last_jiffies (rq s))
     \<and> (\<forall>t. core (task s' t) = core (picked s xs t)
           \<and> tif_need_resched (task s' t) = (tif_need_resched (task s t) \<and> t \<noteq> current s))
     \<and> bit (pcount s') 31"

lemma schedule_entry:
  "\<exists>pc ck. update_rq_clock ((schedule_debug s)\<lparr>irqs_off := True\<rparr>)
     = s\<lparr>pcount := pc, irqs_off := True, rq := (rq s)\<lparr>clock := ck\<rparr>\<rparr>"
proof -
  obtain pc where d: "schedule_debug s = s\<lparr>pcount := pc\<rparr>"
    by (cases "in_atomic_preempt_off s") (auto simp: schedule_debug_def preempt_count_set_def intro: that [of "pcount s"])
  let ?s = "s\<lparr>pcount := pc, irqs_off := True\<rparr>"
  have "update_rq_clock ?s = ?s\<lparr>rq := (rq ?s)\<lparr>clock := clock (rq ?s)\<rparr>\<rparr>
      \<or> (\<exists>ck. update_rq_clock ?s = ?s\<lparr>rq := (rq ?s)\<lparr>clock := ck\<rparr>\<rparr>)"
    by (auto simp: update_rq_clock_def Let_def)
  then obtain ck where "update_rq_clock ?s = ?s\<lparr>rq := (rq ?s)\<lparr>clock := ck\<rparr>\<rparr>" by blast
  with d show ?thesis by auto
qed

lemma entry_irrelevant:
  fixes s pc b ck
  defines "s' \<equiv> s\<lparr>pcount := pc, irqs_off := b, rq := (rq s)\<lparr>clock := ck\<rparr>\<rparr>"
  shows "sched_inv s' xs = sched_inv s xs" "pick_abs s' xs = pick_abs s xs" "picked s' xs = picked s xs"
    "gives_way s' = gives_way s"
  unfolding s'_def
  by (simp_all add: sched_inv_def space_ok_def pick_abs_def gives_way_def requeued_def goes_last_def
      picked_def charged_def)

lemma context_switch_ok:
  assumes "space_ok s" "n \<noteq> current s"
  shows "\<exists>s'. context_switch (current s) n s = Ret s' \<and> lists s' = lists s \<and> current s' = n
    \<and> curr (rq s') = n \<and> idle (rq s') = idle (rq s) \<and> last_jiffies (rq s') = last_jiffies (rq s)
    \<and> jiffies s' = jiffies s \<and> pcount s' = pcount s \<and> space_ok s'
    \<and> (\<forall>t. core (task s' t) = core (task s t) \<and> tif_need_resched (task s' t) = tif_need_resched (task s t))"
proof -
  from switch_mms_ok [OF assms] obtain tk mu c pm where
    m: "switch_mms (current s) n s = Ret (s\<lparr>task := tk, mm_users := mu, cr3 := c, rq := (rq s)\<lparr>prev_mm := pm\<rparr>\<rparr>)"
    and tk: "\<forall>t. core (tk t) = core (task s t) \<and> tif_need_resched (tk t) = tif_need_resched (task s t)"
    and sp: "\<forall>t m. mm (tk t) = Some m \<longrightarrow> active_mm (tk t) = Some m"
      "\<exists>m. active_mm (tk n) = Some m \<and> c = pgd s m" by blast
  let ?s = "s\<lparr>task := tk, mm_users := mu, cr3 := c, rq := (rq s)\<lparr>prev_mm := pm, curr := n\<rparr>, current := n\<rparr>"
  let ?r = "if frame (tk n) = In_ret_from_fork then ?s else finish_task_switch ?s"
  have "context_switch (current s) n s = Ret ?r"
    by (simp add: context_switch_def m switch_to_def)
  moreover have "space_ok ?r" using sp by (simp add: space_ok_def finish_task_switch_def)
  ultimately show ?thesis using tk by (simp add: finish_task_switch_def)
qed

lemma bit_or_flag: "bit (x OR PREEMPT_NEED_RESCHED) 31"
  by (simp add: bit_or_iff PREEMPT_NEED_RESCHED_def bit_numeral_word_iff)

lemma sched_inv_transfer:
  assumes "sched_inv s xs" "pick_abs s xs = (n, ys)"
    and "queue (lists s') ys" "current s' = n" "curr (rq s') = n" "idle (rq s') = idle (rq s)"
    and "space_ok s'" "\<forall>t. core (task s' t) = core (picked s xs t)"
  shows "sched_inv s' ys"
proof -
  have "tstate (task s' t) = tstate (task s t)" "frame (task s' t) = frame (task s t)" for t
    using core_fields(1,4) [of "task s' t" "picked s xs t"] assms(8) by simp_all
  with pick_abs_ok [OF assms(1,2)] assms(1,3-7) show ?thesis by (simp add: sched_inv_def)
qed

lemma do__schedule_ok:
  assumes ok: "sched_inv s xs"
  shows "\<exists>s'. do__schedule s = Ret s' \<and> scheduled s xs s'"
proof -
  from schedule_entry [of s] obtain pc ck where
    e: "update_rq_clock ((schedule_debug s)\<lparr>irqs_off := True\<rparr>)
      = s\<lparr>pcount := pc, irqs_off := True, rq := (rq s)\<lparr>clock := ck\<rparr>\<rparr>" (is "_ = ?e") by blast
  note i = entry_irrelevant [where s = s and pc = pc and b = True and ck = ck]
  have prev: "curr (rq s) = current s" using ok by (simp add: sched_inv_def)
  obtain n ys where p: "pick_abs s xs = (n, ys)" by (cases "pick_abs s xs")
  define lj where "lj = (if gives_way s \<and> xs \<noteq> [] then jiffies s else last_jiffies (rq s))"
  from pick_next_task_ok [of ?e xs, unfolded i, OF ok] p obtain l where
    "pick_next_task ?e = Ret (n, ?e\<lparr>lists := l, task := picked s xs, rq := (rq ?e)\<lparr>last_jiffies :=
       if gives_way s \<and> xs \<noteq> [] then jiffies ?e else last_jiffies (rq ?e)\<rparr>\<rparr>)" and q: "queue l ys"
    by (simp only: fst_conv snd_conv) blast
  then have pk: "pick_next_task ?e = Ret (n, ?e\<lparr>lists := l, task := picked s xs, rq := (rq ?e)\<lparr>last_jiffies := lj\<rparr>\<rparr>)"
    by (simp add: lj_def cong: if_cong)
  define s1 where "s1 = clear_preempt_need_resched (clear_tsk_need_resched (current s)
    (?e\<lparr>lists := l, task := picked s xs, rq := (rq ?e)\<lparr>last_jiffies := lj\<rparr>\<rparr>))"
  have f1: "lists s1 = l" "current s1 = current s" "idle (rq s1) = idle (rq s)" "jiffies s1 = jiffies s"
      "last_jiffies (rq s1) = lj" "bit (pcount s1) 31" "curr (rq s1) = current s"
      "\<forall>t. core (task s1 t) = core (picked s xs t)
         \<and> tif_need_resched (task s1 t) = (tif_need_resched (task s t) \<and> t \<noteq> current s)"
    using prev by (simp_all add: s1_def clear_preempt_need_resched_def clear_tsk_need_resched_def with_task_def bit_or_flag)
  have "space_ok s" using ok by (simp add: sched_inv_def)
  then have sp1: "space_ok s1"
    by (simp add: s1_def space_ok_def clear_preempt_need_resched_def clear_tsk_need_resched_def with_task_def)
  show ?thesis
  proof (cases "n = current s")
    case True
    let ?r = "s1\<lparr>irqs_off := False\<rparr>"
    have "do__schedule s = Ret ?r" using True by (simp add: do__schedule_def Let_def e prev pk s1_def)
    moreover have "sched_inv ?r ys"
      by (rule sched_inv_transfer [OF ok p]) (use f1 q sp1 True in \<open>simp_all add: space_ok_def\<close>)
    ultimately show ?thesis using f1 True p by (simp add: scheduled_def lj_def)
  next
    case False
    let ?s2 = "with_task (current s) (nivcsw_update (\<lambda>c. c + 1)) (s1\<lparr>rq := (rq s1)\<lparr>nr_switches := nr_switches (rq s1) + 1\<rparr>\<rparr>)"
    have s2: "lists ?s2 = l" "current ?s2 = current s" "idle (rq ?s2) = idle (rq s)" "jiffies ?s2 = jiffies s"
      "last_jiffies (rq ?s2) = lj" "bit (pcount ?s2) 31"
      "\<forall>t. core (task ?s2 t) = core (picked s xs t)
         \<and> tif_need_resched (task ?s2 t) = (tif_need_resched (task s t) \<and> t \<noteq> current s)"
      using f1 by (simp_all add: with_task_def)
    have "space_ok ?s2" using sp1 f1(2) by (simp add: space_ok_def with_task_def)
    from context_switch_ok [OF this, of n] False s2(2) obtain s3 where
      s3: "context_switch (current s) n ?s2 = Ret s3" "lists s3 = l" "current s3 = n" "curr (rq s3) = n"
        "idle (rq s3) = idle (rq s)" "last_jiffies (rq s3) = lj" "jiffies s3 = jiffies s"
        "bit (pcount s3) 31" "space_ok s3"
        "\<forall>t. core (task s3 t) = core (picked s xs t)
         \<and> tif_need_resched (task s3 t) = (tif_need_resched (task s t) \<and> t \<noteq> current s)"
      using s2 by (metis (no_types, lifting))
    let ?r = "if frame (task s3 n) = In_ret_from_fork then s3 else s3\<lparr>irqs_off := False\<rparr>"
    have "do__schedule s = Ret ?r"
      using False s3(1) by (simp add: do__schedule_def Let_def e prev pk s1_def)
    moreover have "sched_inv ?r ys"
      by (rule sched_inv_transfer [OF ok p]) (use s3 q in \<open>simp_all add: space_ok_def\<close>)
    ultimately show ?thesis using s3 p by (simp add: scheduled_def lj_def)
  qed
qed

section \<open>The scheduling loops end\<close>

text \<open>A state is in order when, besides, every task that was suspended in \<^verbatim>\<open>do_task_dead\<close> is dead.\<close>

definition dead_ok :: "sched \<Rightarrow> bool" where
  "dead_ok s \<longleftrightarrow> (\<forall>t. frame (task s t) = In_do_task_dead \<longrightarrow> tstate (task s t) = TASK_DEAD)"

definition sched_ok :: "sched \<Rightarrow> ulong list \<Rightarrow> bool" where
  "sched_ok s xs \<longleftrightarrow> sched_inv s xs \<and> dead_ok s"

lemma scheduled_dead_ok: "scheduled s xs s' \<Longrightarrow> dead_ok s \<Longrightarrow> dead_ok s'"
  using core_fields(1,4) [of "task s' _" "picked s xs _"] by (simp add: scheduled_def dead_ok_def)

lemma do__schedule_safe:
  assumes "sched_ok s xs"
  shows "\<exists>s'. do__schedule s = Ret s' \<and> scheduled s xs s' \<and> sched_ok s' (snd (pick_abs s xs))"
proof -
  from assms do__schedule_ok [of s xs] obtain s' where "do__schedule s = Ret s'" "scheduled s xs s'"
    by (auto simp: sched_ok_def)
  with scheduled_dead_ok [OF this(2)] assms show ?thesis by (auto simp: sched_ok_def scheduled_def)
qed

definition flagged :: "sched \<Rightarrow> ulong set" where
  "flagged s = {t. tif_need_resched (task s t)}"

lemma enter_form:
  "\<exists>pc. enter f s = s\<lparr>task := (task s)(current s := (task s (current s))\<lparr>frame := f\<rparr>), pcount := pc\<rparr>"
  by (cases "f = In_schedule \<or> f = In_preempt_schedule")
    (auto simp: enter_def with_task_def preempt_disable_def intro: exI [of _ "pcount s"])

lemma enter_facts:
  shows "current (enter f s) = current s" "tif_need_resched (task (enter f s) t) = tif_need_resched (task s t)" "pick_abs (enter f s) xs = pick_abs s xs"
    "gives_way (enter f s) = gives_way s" "idle (rq (enter f s)) = idle (rq s)"
    "frame (task (enter f s) t) = (if t = current s then f else frame (task s t))"
    "tstate (task (enter f s) t) = tstate (task s t)" "jiffies (enter f s) = jiffies s"
    "time_slice (task (enter f s) t) = time_slice (task s t)"
    "last_jiffies (rq (enter f s)) = last_jiffies (rq s)"
    "vruntime (picked (enter f s) xs t) = vruntime (picked s xs t)"
proof -
  from enter_form [of f s] obtain pc where
    e: "enter f s = s\<lparr>task := (task s)(current s := (task s (current s))\<lparr>frame := f\<rparr>), pcount := pc\<rparr>" by blast
  show "current (enter f s) = current s" "tif_need_resched (task (enter f s) t) = tif_need_resched (task s t)" "idle (rq (enter f s)) = idle (rq s)"
    "frame (task (enter f s) t) = (if t = current s then f else frame (task s t))"
    "tstate (task (enter f s) t) = tstate (task s t)" "jiffies (enter f s) = jiffies s"
    "time_slice (task (enter f s) t) = time_slice (task s t)"
    "last_jiffies (rq (enter f s)) = last_jiffies (rq s)"
    by (simp_all add: e)
  show g: "gives_way (enter f s) = gives_way s" by (simp add: e gives_way_def)
  have "requeued (enter f s) ys = requeued s ys" for ys by (simp add: e requeued_def goes_last_def)
  then show "pick_abs (enter f s) xs = pick_abs s xs"
    unfolding pick_abs_def g by (simp add: e)
  show "vruntime (picked (enter f s) xs t) = vruntime (picked s xs t)"
    unfolding picked_def g by (simp add: e charged_def)
qed

lemma sched_ok_enter:
  assumes "sched_ok s xs" "f = In_do_task_dead \<Longrightarrow> tstate (task s (current s)) = TASK_DEAD"
  shows "sched_ok (enter f s) xs"
proof -
  from enter_form [of f s] obtain pc where
    e: "enter f s = s\<lparr>task := (task s)(current s := (task s (current s))\<lparr>frame := f\<rparr>), pcount := pc\<rparr>" by blast
  from assms show ?thesis unfolding e by (auto simp: sched_ok_def dead_ok_def sched_inv_def space_ok_def)
qed

lemma leave_facts:
  "sched_ok (leave g s) xs = sched_ok s xs" "current (leave g s) = current s" "rq (leave g s) = rq s"
  "task (leave g s) = task s" "jiffies (leave g s) = jiffies s"
  by (simp_all add: leave_def preempt_enable_no_resched_def sched_ok_def dead_ok_def sched_inv_def space_ok_def)

lemma leave_pcount:
  assumes "bit (pcount s) 31"
  shows "pcount (leave g s) \<noteq> 0"
proof
  assume "pcount (leave g s) = 0"
  then have "pcount s = 1 \<or> pcount s = 0"
    by (auto simp: leave_def preempt_enable_no_resched_def split: if_splits)
  with assms show False by (auto simp: bit_1_iff)
qed

lemma resumes_alive:
  assumes "sched_ok s xs" "f = In_do_task_dead \<Longrightarrow> tstate (task s (current s)) = TASK_DEAD"
    and "scheduled (enter f s) xs s1"
  shows "frame (task s1 (current s1)) \<noteq> In_do_task_dead"
proof
  assume d: "frame (task s1 (current s1)) = In_do_task_dead"
  obtain n ys where p: "pick_abs s xs = (n, ys)" by (cases "pick_abs s xs")
  from assms(3) p have n: "current s1 = n" "core (task s1 n) = core (picked (enter f s) xs n)"
    by (auto simp: scheduled_def enter_facts)
  from core_fields(4) [OF n(2)] d n(1) have fr: "(if n = current s then f else frame (task s n)) = In_do_task_dead"
    by (simp add: enter_facts)
  show False
  proof (cases "n = current s")
    case True
    with fr assms(2) have dead: "tstate (task s (current s)) = TASK_DEAD" by simp
    with assms(1) have "idle (rq s) \<in> set xs" "gives_way s"
      by (auto simp: sched_ok_def sched_inv_def gives_way_def task_states)
    then have "xs \<noteq> []" by auto
    with p True \<open>gives_way s\<close> have "hd xs = current s" by (auto simp: pick_abs_def)
    with \<open>xs \<noteq> []\<close> have "current s \<in> set xs" by (metis hd_in_set)
    with assms(1) show False by (simp add: sched_ok_def sched_inv_def)
  next
    case False
    with pick_abs_ok(5) [OF _ p] assms(1) have "n \<in> set xs" by (simp add: sched_ok_def)
    with fr False assms(1) show False by (auto simp: sched_ok_def sched_inv_def dead_ok_def task_states)
  qed
qed

lemma sched_loop_ok:
  assumes "sched_ok s xs" "f = In_do_task_dead \<Longrightarrow> tstate (task s (current s)) = TASK_DEAD"
  shows "\<exists>s' ys. sched_loop f s = Some (Ret s') \<and> sched_ok s' ys \<and> idle (rq s') = idle (rq s) \<and> pcount s' \<noteq> 0
    \<and> frame (task s' (current s')) \<noteq> In_do_task_dead"
  using assms
proof (induction "card (flagged s - {current s})" arbitrary: f s xs rule: less_induct)
  case less
  from do__schedule_safe [OF sched_ok_enter [OF less.prems]] obtain s1 where
    s1: "do__schedule (enter f s) = Ret s1" "scheduled (enter f s) xs s1"
      "sched_ok s1 (snd (pick_abs s xs))" by (auto simp: enter_facts)
  let ?g = "frame (task s1 (current s1))" let ?s2 = "leave ?g s1"
  have ok2: "sched_ok ?s2 (snd (pick_abs s xs))" "idle (rq ?s2) = idle (rq s)" "bit (pcount s1) 31"
    "flagged ?s2 = flagged s - {current s}"
    using s1(2,3) by (auto simp: scheduled_def leave_facts enter_facts flagged_def)
  have g: "?g \<noteq> In_do_task_dead" using resumes_alive [OF less.prems s1(2)] .
  have step: "sched_loop f s = (if ?g \<noteq> In_ret_from_fork \<and> need_resched ?s2 then sched_loop ?g ?s2 else Some (Ret ?s2))"
    using g leave_pcount [OF ok2(3), of In_ret_from_fork]
    by (subst sched_loop.simps) (simp add: s1(1) Let_def should_resched_def)
  show ?case
  proof (cases "?g \<noteq> In_ret_from_fork \<and> need_resched ?s2")
    case True
    then have "current ?s2 \<in> flagged ?s2" by (simp add: need_resched_def flagged_def)
    then have "card (flagged ?s2 - {current ?s2}) < card (flagged s - {current s})"
      unfolding ok2(4) by (intro psubset_card_mono) auto
    from less.hyps [OF this ok2(1), of ?g] g True ok2(2) step show ?thesis by auto
  next
    case False
    with step ok2 g leave_pcount [OF ok2(3)] show ?thesis by (auto simp: leave_facts)
  qed
qed

text \<open>With no task marked for rescheduling, the loop runs once.\<close>

definition switched :: "frame \<Rightarrow> sched \<Rightarrow> ulong list \<Rightarrow> sched \<Rightarrow> bool" where
  "switched f s xs s' \<longleftrightarrow> sched_ok s' (snd (pick_abs s xs)) \<and> current s' = fst (pick_abs s xs)
     \<and> idle (rq s') = idle (rq s) \<and> jiffies s' = jiffies s \<and> flagged s' = {} \<and> pcount s' \<noteq> 0
     \<and> last_jiffies (rq s') = (if gives_way s \<and> xs \<noteq> [] then jiffies s else last_jiffies (rq s))
     \<and> (\<forall>t. tstate (task s' t) = tstate (task s t) \<and> time_slice (task s' t) = time_slice (task s t)
          \<and> vruntime (task s' t) = vruntime (picked s xs t)
          \<and> frame (task s' t) = (if t = current s then f else frame (task s t)))"

lemma sched_loop_once:
  assumes "sched_ok s xs" "f = In_do_task_dead \<Longrightarrow> tstate (task s (current s)) = TASK_DEAD" "flagged s = {}"
  shows "\<exists>s'. sched_loop f s = Some (Ret s') \<and> switched f s xs s'"
proof -
  from do__schedule_safe [OF sched_ok_enter [OF assms(1,2)]] obtain s1 where
    s1: "do__schedule (enter f s) = Ret s1" "scheduled (enter f s) xs s1"
      "sched_ok s1 (snd (pick_abs s xs))" by (auto simp: enter_facts)
  let ?g = "frame (task s1 (current s1))" let ?s2 = "leave ?g s1"
  have core: "core (task s1 t) = core (picked (enter f s) xs t)" for t
    using s1(2) by (simp add: scheduled_def)
  have fl: "flagged ?s2 = {}" and b: "bit (pcount s1) 31" using s1(2) assms(3)
    by (auto simp: scheduled_def leave_facts flagged_def enter_facts)
  then have "\<not> need_resched ?s2" by (auto simp: need_resched_def flagged_def)
  with resumes_alive [OF assms(1,2) s1(2)] leave_pcount [OF b, of In_ret_from_fork]
  have "sched_loop f s = Some (Ret ?s2)"
    by (subst sched_loop.simps) (simp add: s1(1) Let_def should_resched_def)
  moreover have "switched f s xs ?s2"
    using s1(2,3) fl leave_pcount [OF b] core_fields(1-4) [OF core]
    by (simp add: switched_def scheduled_def leave_facts enter_facts)
  ultimately show ?thesis by blast
qed

end
