(* ===== verification/Scheduler_Run.thy ===== *)
theory Scheduler_Run
  imports Scheduler
begin

unbundle bit_operations_syntax

text \<open>
  The scheduler at work.  Every entry point keeps the run queue and the loaded address space in order
  and returns, so all states reachable from boot are in order.  A task queued ahead of the idle task
  is run within a bounded number of rounds, a task queued behind it may never run, and a wake-up
  revives dead tasks.
\<close>

section \<open>The entry points keep the state in order\<close>

definition system_ok :: "sched \<Rightarrow> bool" where
  "system_ok s \<longleftrightarrow> (\<exists>xs. sched_ok s xs) \<and> frame (task s (current s)) \<noteq> In_do_task_dead"

text \<open>
  An operation that, from a state in order, returns to a state in order with the same idle task: it
  meets no wrong pointer, hits no \<^verbatim>\<open>BUG()\<close> and does not hang.
\<close>

fun repeated :: "nat \<Rightarrow> (sched \<Rightarrow> sched outcome) \<Rightarrow> sched \<Rightarrow> sched outcome" where
  "repeated 0 f s = Ret s"
| "repeated (Suc n) f s = bnd (f s) (repeated n f)"

locale sched_entry =
  fixes entry :: "sched \<Rightarrow> sched outcome"
  assumes returns_ok: "system_ok s \<Longrightarrow> \<exists>s'. entry s = Ret s' \<and> system_ok s' \<and> idle (rq s') = idle (rq s)"
begin

lemma keeps: "system_ok s \<Longrightarrow> entry s = Ret s' \<Longrightarrow> system_ok s' \<and> idle (rq s') = idle (rq s)"
  using returns_ok by fastforce

lemma repeats: "system_ok s \<Longrightarrow> \<exists>s'. repeated n entry s = Ret s' \<and> system_ok s' \<and> idle (rq s') = idle (rq s)"
proof (induction n arbitrary: s)
  case (Suc n)
  from returns_ok [OF Suc.prems] obtain s1 where
    s1: "entry s = Ret s1" "system_ok s1" "idle (rq s1) = idle (rq s)" by blast
  from Suc.IH [OF s1(2)] s1 show ?case by auto
qed simp

end

lemma system_ok_pcount: "system_ok (s\<lparr>pcount := pc\<rparr>) = system_ok s"
  by (simp add: system_ok_def sched_ok_def dead_ok_def sched_inv_def space_ok_def)

lemma sched_loop_system_ok:
  assumes "system_ok s" "f \<noteq> In_do_task_dead"
  shows "\<exists>s'. loop_end (sched_loop f s) = Ret s' \<and> system_ok s' \<and> idle (rq s') = idle (rq s)"
proof -
  from assms(1) obtain xs where "sched_ok s xs" by (auto simp: system_ok_def)
  from sched_loop_ok [OF this, of f] assms(2) show ?thesis by (auto simp: loop_end_def system_ok_def)
qed

interpretation sched_e: sched_entry schedule
  by unfold_locales (simp add: schedule_def sched_loop_system_ok)

interpretation hwint_e: sched_entry hwint_exit
  by unfold_locales (auto simp: hwint_exit_def sched_e.returns_ok)

interpretation preempt_e: sched_entry preempt_enable
proof unfold_locales
  fix s assume "system_ok s"
  then have s: "system_ok (preempt_enable_no_resched s)"
    by (simp add: preempt_enable_no_resched_def system_ok_pcount)
  moreover have "idle (rq (preempt_enable_no_resched s)) = idle (rq s)"
    by (simp add: preempt_enable_no_resched_def)
  ultimately show "\<exists>s'. preempt_enable s = Ret s' \<and> system_ok s' \<and> idle (rq s') = idle (rq s)"
    using sched_loop_system_ok [OF s, of In_preempt_schedule]
    by (simp add: preempt_enable_def preempt_schedule_def preempt_schedule_common_def Let_def)
qed

interpretation idle_e: sched_entry do_idle
proof unfold_locales
  fix s assume "system_ok s"
  then have s: "system_ok (set_preempt_need_resched s)"
    by (simp add: set_preempt_need_resched_def system_ok_pcount)
  have "idle (rq (set_preempt_need_resched s)) = idle (rq s)" by (simp add: set_preempt_need_resched_def)
  with sched_loop_system_ok [OF s, of In_schedule_idle]
  show "\<exists>s'. do_idle s = Ret s' \<and> system_ok s' \<and> idle (rq s') = idle (rq s)"
    by (simp add: do_idle_def schedule_idle_def)
qed

lemma set_current_state_sched_ok:
  assumes "sched_ok s xs" "frame (task s (current s)) \<noteq> In_do_task_dead" "current s \<noteq> idle (rq s)"
  shows "sched_ok (set_current_state st s) xs"
  using assms
  by (auto simp: sched_ok_def sched_inv_def dead_ok_def space_ok_def set_current_state_def with_task_def)

lemma set_current_state_ok:
  assumes "system_ok s" "current s \<noteq> idle (rq s)"
  shows "system_ok (set_current_state st s)"
  using assms set_current_state_sched_ok [OF _ _ assms(2)]
  by (auto simp: system_ok_def set_current_state_def with_task_def)

lemma do_task_dead_ok:
  assumes "system_ok s" "current s \<noteq> idle (rq s)"
  shows "\<exists>s'. do_task_dead s = Ret s' \<and> system_ok s' \<and> idle (rq s') = idle (rq s)"
proof -
  let ?s = "with_task (current s) (tflags_update (\<lambda>f. f OR PF_NOFREEZE)) (set_current_state TASK_DEAD s)"
  have c: "current (set_current_state TASK_DEAD s) = current s" "idle (rq ?s) = idle (rq s)"
    "tstate (task ?s (current ?s)) = TASK_DEAD"
    by (simp_all add: set_current_state_def with_task_def)
  from set_current_state_ok [OF assms, of TASK_DEAD] obtain xs where
    "sched_ok (set_current_state TASK_DEAD s) xs" by (auto simp: system_ok_def)
  then have "sched_ok ?s xs"
    by (auto simp: sched_ok_def sched_inv_def dead_ok_def space_ok_def with_task_def)
  from sched_loop_ok [OF this, of In_do_task_dead] c(2,3) show ?thesis
    unfolding do_task_dead_def Let_def c(1) by (auto simp: loop_end_def system_ok_def)
qed

section \<open>Waking and forking\<close>

text \<open>A task put at the head of the queue.\<close>

definition woken :: "ulong \<Rightarrow> sched \<Rightarrow> rqnode lists \<Rightarrow> sched" where
  "woken p s l = s\<lparr>task := (task s)(p := (task s p)\<lparr>tstate := TASK_RUNNING\<rparr>), lists := l\<rparr>"

lemma set_task_cpu_ok:
  assumes "sched_inv s xs" "p \<noteq> 0" "p \<noteq> current s"
  shows "\<exists>l. set_task_cpu p s = Ret (woken p s l) \<and> queue l (if p \<in> set xs then xs else p # xs)"
proof -
  have q: "queue (lists s) xs" using assms(1) by (simp add: sched_inv_def)
  show ?thesis
  proof (cases "p \<in> set xs")
    case True
    with q queue_contains [OF q, of p] have "set_task_cpu p s = Ret (woken p s (lists s))"
      by (simp add: set_task_cpu_def with_task_def woken_def)
    with q True show ?thesis by auto
  next
    case False
    from sched_inv_room_for [OF assms(1) False assms(3,2)] have "Suc (length xs) < 2 ^ 64" by simp
    from queue_add_to_head [OF q False this] obtain l where
      "list_header_add_to_head Running_lhdr (At (Run_list p)) (lists s) = Ret l" "queue l (p # xs)" by blast
    with False queue_contains [OF q, of p] show ?thesis
      by (auto simp: set_task_cpu_def with_task_def woken_def)
  qed
qed

lemma woken_inv:
  assumes "sched_inv s xs" "p \<noteq> 0" "p \<noteq> current s" "queue l (if p \<in> set xs then xs else p # xs)"
  shows "sched_inv (woken p s l) (if p \<in> set xs then xs else p # xs)"
  using assms by (auto simp: sched_inv_def space_ok_def woken_def)

lemma woken_dead_ok:
  "dead_ok s \<Longrightarrow> tstate (task s p) \<noteq> TASK_DEAD \<Longrightarrow> dead_ok (woken p s l)"
  by (auto simp: dead_ok_def woken_def)

lemma woken_system_ok:
  assumes "sched_ok s xs" "system_ok s" "p \<noteq> 0" "p \<noteq> current s" "tstate (task s p) \<noteq> TASK_DEAD"
    "queue l (if p \<in> set xs then xs else p # xs)"
  shows "system_ok (woken p s l)"
  using woken_inv [OF _ assms(3,4,6)] woken_dead_ok [OF _ assms(5)] assms(1,2,4)
  by (auto simp: sched_ok_def system_ok_def woken_def)

lemma try_to_wake_up_ok:
  assumes "system_ok s" "p \<noteq> 0" "tstate (task s p) \<noteq> TASK_DEAD"
  shows "\<exists>s'. try_to_wake_up p st s = Ret (0, s') \<and> system_ok s' \<and> idle (rq s') = idle (rq s)"
proof -
  let ?s = "preempt_disable s"
  have s: "system_ok ?s" "current ?s = current s" "rq ?s = rq s" "task ?s = task s"
    using assms(1) by (simp_all add: preempt_disable_def system_ok_pcount)
  have "\<exists>s1. (if p = current ?s then Ret (with_task p (tstate_update (\<lambda>_. TASK_RUNNING)) ?s)
           else set_task_cpu p (with_task p (tstate_update (\<lambda>_. TASK_WAKING)) ?s)) = Ret s1
      \<and> system_ok s1 \<and> idle (rq s1) = idle (rq s)"
  proof (cases "p = current s")
    case True
    from s(1) True s(2) have "system_ok (with_task p (tstate_update (\<lambda>_. TASK_RUNNING)) ?s)"
      by (auto simp: system_ok_def sched_ok_def sched_inv_def dead_ok_def space_ok_def with_task_def)
    with True s(2,3) show ?thesis by (simp add: with_task_def)
  next
    case False
    from s(1) obtain xs where xs: "sched_ok ?s xs" by (auto simp: system_ok_def)
    let ?w = "with_task p (tstate_update (\<lambda>_. TASK_WAKING)) ?s"
    have "set_task_cpu p ?w = set_task_cpu p ?s" by (simp add: set_task_cpu_def with_task_def)
    moreover from xs set_task_cpu_ok [of ?s xs p] assms(2) False s(2) obtain l where
      l: "set_task_cpu p ?s = Ret (woken p ?s l)" "queue l (if p \<in> set xs then xs else p # xs)"
      by (auto simp: sched_ok_def)
    moreover have "system_ok (woken p ?s l)"
      by (rule woken_system_ok [OF xs s(1) assms(2) _ _ l(2)]) (use False s assms(3) in simp_all)
    ultimately show ?thesis using False s by (auto simp: woken_def)
  qed
  then obtain s1 where s1: "(if p = current ?s then Ret (with_task p (tstate_update (\<lambda>_. TASK_RUNNING)) ?s)
           else set_task_cpu p (with_task p (tstate_update (\<lambda>_. TASK_WAKING)) ?s)) = Ret s1"
      "system_ok s1" "idle (rq s1) = idle (rq s)" by blast
  with preempt_e.returns_ok [OF s1(2)] show ?thesis
    unfolding try_to_wake_up_def Let_def s1(1) by auto
qed

text \<open>The fork path: \<open>t\<close> is what \<^verbatim>\<open>copy_process\<close> has put into the new \<^verbatim>\<open>task_s\<close>.\<close>

definition fork_task :: "ulong \<Rightarrow> task_s \<Rightarrow> sched \<Rightarrow> sched outcome" where
  "fork_task p t s =
     bnd (sched_fork p (s\<lparr>task := (task s)(p := t)\<rparr>)) (\<lambda>(_, s). wake_up_new_task p s)"

lemma queue_init_node:
  assumes "queue l xs" "p \<notin> set xs"
  shows "queue (l\<lparr>mem := (mem l)(Run_list p := x)\<rparr>) xs"
proof -
  from assms(1) have d: "dlist (mem l) Running_lhdr (map Run_list xs)" by (simp add: queue_iff)
  have "dlist ((mem l)(Run_list p := x)) Running_lhdr (map Run_list xs)"
    by (rule dlist_frame [OF d]) (use assms(2) in auto)
  with assms(1) show ?thesis by (simp add: queue_iff)
qed

lemma INIT_LIST_S_At: "\<exists>x. INIT_LIST_S (At a) h = Ret (h(a := x))"
  by (auto simp: INIT_LIST_S_def)

lemma fork_task_ok:
  assumes "sched_ok s xs" "system_ok s" "p \<noteq> 0" "p \<noteq> current s" "p \<notin> set xs"
    and "frame t = In_ret_from_fork" "\<And>m. mm t = Some m \<Longrightarrow> active_mm t = Some m"
  shows "\<exists>s'. fork_task p t s = Ret s' \<and> system_ok s' \<and> idle (rq s') = idle (rq s)
    \<and> queue (lists s') (p # xs)"
proof -
  let ?t = "t\<lparr>vruntime := 0, on_cpu := 0, tstate := TASK_RUNNING\<rparr>"
  from INIT_LIST_S_At [of "Run_list p" "mem (lists s)"] obtain x where
    x: "INIT_LIST_S (At (Run_list p)) (mem (lists s)) = Ret ((mem (lists s))(Run_list p := x))" by blast
  let ?l = "(lists s)\<lparr>mem := (mem (lists s))(Run_list p := x)\<rparr>"
  have "queue (lists s) xs" using assms(1) by (simp add: sched_ok_def sched_inv_def)
  from queue_init_node [OF this assms(5)] have ql: "queue ?l xs" .
  have "Suc (length xs) < 2 ^ 64"
    using sched_inv_room_for [of s xs p] assms(1,3-5) by (simp add: sched_ok_def)
  from queue_add_to_head [OF ql assms(5) this] obtain l where
    l: "list_header_add_to_head Running_lhdr (At (Run_list p)) ?l = Ret l" "queue l (p # xs)" by blast
  let ?r = "s\<lparr>task := (task s)(p := ?t), lists := l\<rparr>"
  have "fork_task p t s = Ret ?r"
    by (simp add: fork_task_def sched_fork_def do__sched_fork_def wake_up_new_task_def with_task_def x l(1))
  moreover have "sched_ok ?r (p # xs)"
    using assms l(2) by (auto simp: sched_ok_def sched_inv_def dead_ok_def space_ok_def)
  ultimately show ?thesis using assms(2,4) l(2) by (auto simp: system_ok_def)
qed

section \<open>Boot and reachable states\<close>

definition booting :: "ulong \<Rightarrow> sched \<Rightarrow> bool" where
  "booting p s \<longleftrightarrow> p \<noteq> 0 \<and> current s = p \<and> tstate (task s p) = TASK_RUNNING
     \<and> (\<forall>t. frame (task s t) \<noteq> In_do_task_dead) \<and> space_ok s"

lemma init_idle_ok:
  assumes "booting p s"
  shows "\<exists>s'. init_idle p s = Ret s' \<and> system_ok s' \<and> queue (lists s') [] \<and> idle (rq s') = p"
proof -
  let ?s = "s\<lparr>task := (task s)(p := (task s p)\<lparr>on_rq := 1, on_cpu := 1\<rparr>),
    rq := (rq s)\<lparr>idle := p, curr := p\<rparr>\<rparr>"
  obtain l where l: "INIT_LIST_HEADER_S Running_lhdr (lists s) = Ret l"
      "mem l Running_lhdr = \<lparr>nxt = At Running_lhdr, prv = At Running_lhdr\<rparr>" "count l Running_lhdr = 0"
    by (auto simp: INIT_LIST_HEADER_S_def INIT_LIST_S_def)
  then have q: "queue l []" by (simp add: queue_iff dlist_def linked_def)
  have "init_idle p s = Ret (?s\<lparr>lists := l\<rparr>)" by (simp add: init_idle_def with_task_def l(1))
  moreover have "sched_ok (?s\<lparr>lists := l\<rparr>) []"
    using assms q by (auto simp: booting_def sched_ok_def sched_inv_def dead_ok_def space_ok_def)
  ultimately show ?thesis using assms q by (auto simp: system_ok_def booting_def)
qed

text \<open>
  The states the system can get into: from the boot of the idle task by clock ticks, interrupts,
  marks for rescheduling and sections without preemption, by tasks that change their state, call the
  scheduler or exit, and by wake-ups and forks.  The idle task does not block, only tasks that are
  not dead are woken, and a new task is not yet known to the run queue.
\<close>

inductive reach :: "sched \<Rightarrow> bool" where
  boot: "booting p s \<Longrightarrow> init_idle p s = Ret s' \<Longrightarrow> reach s'"
| tick: "reach s \<Longrightarrow> reach (s\<lparr>jiffies := jiffies s + 1\<rparr>)"
| clock: "reach s \<Longrightarrow> reach (s\<lparr>local_clock := c\<rparr>)"
| irqs: "reach s \<Longrightarrow> reach (s\<lparr>irqs_off := b\<rparr>)"
| mark: "reach s \<Longrightarrow> reach (with_task p (tif_need_resched_update (\<lambda>_. True)) s)"
| disable: "reach s \<Longrightarrow> reach (preempt_disable s)"
| enable: "reach s \<Longrightarrow> preempt_enable s = Ret s' \<Longrightarrow> reach s'"
| hwint: "reach s \<Longrightarrow> hwint_exit s = Ret s' \<Longrightarrow> reach s'"
| sched: "reach s \<Longrightarrow> schedule s = Ret s' \<Longrightarrow> reach s'"
| idling: "reach s \<Longrightarrow> current s = idle (rq s) \<Longrightarrow> do_idle s = Ret s' \<Longrightarrow> reach s'"
| state: "reach s \<Longrightarrow> current s \<noteq> idle (rq s) \<Longrightarrow> reach (set_current_state st s)"
| dead: "reach s \<Longrightarrow> current s \<noteq> idle (rq s) \<Longrightarrow> do_task_dead s = Ret s' \<Longrightarrow> reach s'"
| wake: "reach s \<Longrightarrow> p \<noteq> 0 \<Longrightarrow> tstate (task s p) \<noteq> TASK_DEAD \<Longrightarrow> try_to_wake_up p st s = Ret (r, s')
    \<Longrightarrow> reach s'"
| fork: "reach s \<Longrightarrow> p \<noteq> 0 \<Longrightarrow> p \<noteq> current s
    \<Longrightarrow> list_header_contains Running_lhdr (At (Run_list p)) (lists s) = Ret False
    \<Longrightarrow> frame t = In_ret_from_fork \<Longrightarrow> mm t = None \<or> active_mm t = mm t
    \<Longrightarrow> fork_task p t s = Ret s' \<Longrightarrow> reach s'"

lemmas system_defs = system_ok_def sched_ok_def dead_ok_def sched_inv_def space_ok_def

lemma system_ok_fork:
  assumes "system_ok s" "p \<noteq> 0" "p \<noteq> current s"
    "list_header_contains Running_lhdr (At (Run_list p)) (lists s) = Ret False"
    "frame t = In_ret_from_fork" "mm t = None \<or> active_mm t = mm t"
  shows "\<exists>s'. fork_task p t s = Ret s' \<and> system_ok s'"
proof -
  from assms(1) obtain xs where xs: "sched_ok s xs" by (auto simp: system_ok_def)
  then have "queue (lists s) xs" by (simp add: sched_ok_def sched_inv_def)
  from queue_contains [OF this, of p] assms(4) have "p \<notin> set xs" by simp
  from fork_task_ok [OF xs assms(1-3) this assms(5)] assms(6) show ?thesis by fastforce
qed

lemma system_ok_mark:
  assumes "system_ok s"
  shows "system_ok (with_task p (tif_need_resched_update (\<lambda>_. True)) s)"
proof -
  from assms obtain xs where "sched_ok s xs" by (auto simp: system_ok_def)
  then have "sched_ok (with_task p (tif_need_resched_update (\<lambda>_. True)) s) xs"
    by (auto simp: sched_ok_def sched_inv_def dead_ok_def space_ok_def with_task_def)
  with assms show ?thesis by (auto simp: system_ok_def with_task_def)
qed

lemma reach_system_ok: "reach s \<Longrightarrow> system_ok s"
proof (induction rule: reach.induct)
  case (boot p s s')
  with init_idle_ok [OF boot(1)] show ?case by auto
next
  case (enable s s')
  then show ?case using preempt_e.keeps by blast
next
  case (hwint s s')
  then show ?case using hwint_e.keeps by blast
next
  case (sched s s')
  then show ?case using sched_e.keeps by blast
next
  case (idling s s')
  then show ?case using idle_e.keeps by blast
next
  case (state s st)
  then show ?case using set_current_state_ok by blast
next
  case (dead s s')
  with do_task_dead_ok [of s] show ?case by auto
next
  case (wake s p st r s')
  with try_to_wake_up_ok [of s p st] show ?case by auto
next
  case (fork s p t s')
  with system_ok_fork [of s p t] show ?case by auto
next
  case (disable s)
  then show ?case by (simp add: preempt_disable_def system_ok_pcount)
next
  case (mark s p)
  show ?case by (rule system_ok_mark [OF mark.IH])
qed (simp_all add: system_defs)

text \<open>A state at boot, in which the idle task is the task at address 1.\<close>

definition boot_task :: task_s where
  "boot_task = \<lparr>tstate = TASK_RUNNING, tflags = 0, on_cpu = 0, on_rq = 0, vruntime = -1, time_slice = 2,
     mm = None, active_mm = Some 8, nivcsw = 0, tif_need_resched = False, frame = In_schedule\<rparr>"

definition boot_sched :: sched where
  "boot_sched = \<lparr>task = (\<lambda>_. boot_task),
     lists = \<lparr>mem = (\<lambda>a. \<lparr>nxt = At a, prv = At a\<rparr>), count = (\<lambda>_. 0)\<rparr>, stray = 0,
     rq = \<lparr>curr = 0, idle = 0, nr_switches = 0, clock = 0, prev_mm = None, last_jiffies = 0\<rparr>,
     current = 1, jiffies = 0, local_clock = 0, pcount = 0x80000000, irqs_off = False,
     mm_users = (\<lambda>_. 1), pgd = (\<lambda>a. a + 64), cr3 = 72\<rparr>"

lemma booting_boot_sched: "booting 1 boot_sched"
  by (simp add: booting_def boot_sched_def boot_task_def space_ok_def)

section \<open>Rounds\<close>

text \<open>
  A round: \<open>k\<close> ticks pass, the current task (unless it is the idle task) enters the state \<open>st\<close>, and
  the scheduler is called.
\<close>

definition before_round :: "ulong \<times> u32 \<Rightarrow> sched \<Rightarrow> sched" where
  "before_round r s =
     (let s = s\<lparr>jiffies := jiffies s + fst r\<rparr> in if current s = idle (rq s) then s else set_current_state (snd r) s)"

definition slice_round :: "ulong \<times> u32 \<Rightarrow> sched \<Rightarrow> sched outcome" where
  "slice_round r s = schedule (before_round r s)"

fun rounds :: "(ulong \<times> u32) list \<Rightarrow> sched \<Rightarrow> sched outcome" where
  "rounds [] s = Ret s"
| "rounds (r # rs) s = bnd (slice_round r s) (rounds rs)"

definition resting :: "sched \<Rightarrow> ulong list \<Rightarrow> bool" where
  "resting s xs \<longleftrightarrow> sched_ok s xs \<and> frame (task s (current s)) \<noteq> In_do_task_dead \<and> flagged s = {}"

lemma before_round_facts:
  "current (before_round r s) = current s" "rq (before_round r s) = rq s"
  "jiffies (before_round r s) = jiffies s + fst r" "vruntime (task (before_round r s) t) = vruntime (task s t)"
  "time_slice (task (before_round r s) t) = time_slice (task s t)"
  "frame (task (before_round r s) t) = frame (task s t)"
  "flagged (before_round r s) = flagged s"
  "tstate (task (before_round r s) t) = (if t = current s \<and> t \<noteq> idle (rq s) then snd r else tstate (task s t))"
  by (auto simp: before_round_def set_current_state_def with_task_def flagged_def Let_def)

lemma before_round_ok:
  assumes "resting s xs"
  shows "sched_ok (before_round r s) xs" "flagged (before_round r s) = {}"
proof -
  have ok: "sched_ok s xs" "frame (task s (current s)) \<noteq> In_do_task_dead" "flagged s = {}"
    using assms by (auto simp: resting_def)
  then show "flagged (before_round r s) = {}" by (simp add: before_round_facts)
  let ?s = "s\<lparr>jiffies := jiffies s + fst r\<rparr>"
  have "sched_ok ?s xs = sched_ok s xs" by (simp add: sched_ok_def sched_inv_def dead_ok_def space_ok_def)
  with ok(1) set_current_state_sched_ok [of ?s xs "snd r"] ok(2) show "sched_ok (before_round r s) xs"
    by (simp add: before_round_def Let_def)
qed

lemma slice_round_ok:
  assumes "resting s xs"
  shows "\<exists>s'. slice_round r s = Ret s' \<and> switched In_schedule (before_round r s) xs s'
    \<and> resting s' (snd (pick_abs (before_round r s) xs))"
proof -
  note b = before_round_ok [OF assms, of r]
  from sched_loop_once [OF b(1), of In_schedule] b(2) obtain s' where
    s': "sched_loop In_schedule (before_round r s) = Some (Ret s')" "switched In_schedule (before_round r s) xs s'"
    by auto
  from sched_loop_ok [OF b(1), of In_schedule] s'(1) have "frame (task s' (current s')) \<noteq> In_do_task_dead"
    by auto
  with s' show ?thesis by (simp add: slice_round_def schedule_def loop_end_def resting_def switched_def)
qed

section \<open>A task ahead of the idle task gets its turn\<close>

text \<open>
  The situation of a task \<open>w\<close> with the tasks \<open>as\<close> queued ahead of it.  \<open>M\<close> bounds the run times at
  the outset and \<open>K\<close> the length of a round.  Only the current task and the first waiting one can have
  passed \<open>M\<close>.
\<close>

definition vrt :: "sched \<Rightarrow> ulong \<Rightarrow> nat" where
  "vrt s t = unat (vruntime (task s t))"

definition waits :: "nat \<Rightarrow> nat \<Rightarrow> ulong \<Rightarrow> ulong list \<Rightarrow> ulong list \<Rightarrow> sched \<Rightarrow> bool" where
  "waits M K w as bs s \<longleftrightarrow> resting s (as @ w # bs) \<and> last_jiffies (rq s) = jiffies s
     \<and> idle (rq s) \<notin> set (w # as) \<and> (current s \<noteq> idle (rq s) \<longrightarrow> vrt s (current s) \<le> M + K)
     \<and> (\<forall>a \<in> set (take 1 as). vrt s a \<le> M + K) \<and> (\<forall>a \<in> set (w # drop 1 as). vrt s a \<le> M)"

text \<open>The number of rounds still to come: the distance of \<open>w\<close> and what two tasks lack to the next one's run time.\<close>

definition remaining :: "nat \<Rightarrow> ulong \<Rightarrow> ulong list \<Rightarrow> sched \<Rightarrow> nat" where
  "remaining M w as s = length as * (2 * M + 3)
     + (case as of [] \<Rightarrow> 0
        | a # as' \<Rightarrow> (Suc (vrt s (hd (as' @ [w]))) - vrt s (current s)) + (Suc (vrt s (hd (as' @ [w]))) - vrt s a))"

definition full_round :: "nat \<Rightarrow> sched \<Rightarrow> ulong \<Rightarrow> bool" where
  "full_round K s k \<longleftrightarrow> 1 \<le> unat k \<and> unat k \<le> K \<and> (\<forall>t. unat (time_slice (task s t)) \<le> unat k)"

lemma full_round_gives_way:
  assumes "last_jiffies (rq s) = jiffies s" "full_round K s (fst r)"
  shows "gives_way (before_round r s)"
proof -
  have "unat (time_slice (task s (current s))) \<le> unat (fst r)" using assms(2) by (simp add: full_round_def)
  then have "(ucast (time_slice (task s (current s))) :: ulong) \<le> fst r"
    by (simp add: word_le_nat_alt unsigned_ucast_eq order_trans [OF take_bit_nat_less_eq_self])
  with assms(1) show ?thesis by (simp add: gives_way_def before_round_facts)
qed

lemma full_round_switches:
  assumes "resting s (x # xs)" "last_jiffies (rq s) = jiffies s" "full_round K s (fst r)"
  shows "\<exists>s'. slice_round r s = Ret s' \<and> resting s' (requeued (before_round r s) xs) \<and> current s' = x
    \<and> idle (rq s') = idle (rq s) \<and> last_jiffies (rq s') = jiffies s'
    \<and> (\<forall>t. time_slice (task s' t) = time_slice (task s t))
    \<and> (\<forall>t. t \<noteq> current s \<or> t = idle (rq s) \<longrightarrow> vrt s' t = vrt s t)
    \<and> (current s \<noteq> idle (rq s) \<longrightarrow> vruntime (task s' (current s)) = vruntime (task s (current s)) + fst r)"
proof -
  note g = full_round_gives_way [OF assms(2,3)]
  then have p: "pick_abs (before_round r s) (x # xs) = (x, requeued (before_round r s) xs)"
    "picked (before_round r s) (x # xs) = charged (before_round r s)"
    by (simp_all add: pick_abs_def picked_def)
  from slice_round_ok [OF assms(1), of r] p g obtain s' where
    s': "slice_round r s = Ret s'" "switched In_schedule (before_round r s) (x # xs) s'"
      "resting s' (requeued (before_round r s) xs)" by auto
  from s'(2) p g assms(2) have
    "current s' = x" "idle (rq s') = idle (rq s)" "last_jiffies (rq s') = jiffies s'"
    "\<forall>t. time_slice (task s' t) = time_slice (task s t)"
    "\<forall>t. vruntime (task s' t) = vruntime (charged (before_round r s) t)"
    by (simp_all add: switched_def before_round_facts)
  with s' assms(2) show ?thesis by (simp add: charged_def before_round_facts vrt_def)
qed

text \<open>A round with other tasks still ahead brings \<open>w\<close> closer to its turn.\<close>

lemma waits_step:
  assumes "waits M K w (a # as) bs s" "full_round K s (fst r)" "M + 2 * K < 2 ^ 64"
  shows "\<exists>s' as' bs'. slice_round r s = Ret s' \<and> waits M K w as' bs' s'
    \<and> (\<forall>t. time_slice (task s' t) = time_slice (task s t))
    \<and> remaining M w as' s' < remaining M w (a # as) s"
proof -
  let ?c = "current s" let ?z = "hd (as @ [w])" let ?b = "before_round r s" let ?i = "idle (rq s)"
  have w: "resting s (a # as @ w # bs)" "last_jiffies (rq s) = jiffies s" "?i \<notin> set (w # a # as)"
    "?c \<noteq> ?i \<Longrightarrow> vrt s ?c \<le> M + K" "vrt s a \<le> M + K" "\<forall>x \<in> set (w # as). vrt s x \<le> M"
    using assms(1) by (auto simp: waits_def)
  have z: "?z \<in> set (w # as)" by (cases as) auto
  have hz: "hd (as @ w # bs) = ?z" by (cases as) auto
  have cur: "?c \<notin> set (a # as @ w # bs)" using w(1) unfolding resting_def sched_ok_def sched_inv_def by blast
  from full_round_switches [OF w(1,2) assms(2)] obtain s' where
    s': "slice_round r s = Ret s'" "resting s' (requeued ?b (as @ w # bs))" "current s' = a"
      "idle (rq s') = ?i" "last_jiffies (rq s') = jiffies s'" "\<forall>t. time_slice (task s' t) = time_slice (task s t)"
      "\<forall>t. t \<noteq> ?c \<or> t = ?i \<longrightarrow> vrt s' t = vrt s t"
      "?c \<noteq> ?i \<longrightarrow> vruntime (task s' ?c) = vruntime (task s ?c) + fst r" by blast
  have va: "vrt s' x = vrt s x" if "x \<in> set (a # as @ w # bs)" for x using s'(7) cur that by metis
  show ?thesis
  proof (cases "tstate (task ?b ?c) = TASK_RUNNING \<and> \<not> goes_last ?b (as @ w # bs)")
    case True
    then have q: "requeued ?b (as @ w # bs) = (?c # as) @ w # bs" by (simp add: requeued_def before_round_facts)
    from True have ci: "?c \<noteq> ?i" and "vrt s ?c \<le> vrt s ?z"
      by (auto simp: goes_last_def before_round_facts hz vrt_def not_less word_le_nat_alt)
    moreover have vz: "vrt s ?z \<le> M" using w(6) z by blast
    moreover have k: "1 \<le> unat (fst r)" "unat (fst r) \<le> K" using assms(2) by (auto simp: full_round_def)
    ultimately have "unat (vruntime (task s ?c)) + unat (fst r) < 2 ^ 64" using assms(3) by (simp add: vrt_def)
    then have vc: "vrt s' ?c = vrt s ?c + unat (fst r)"
      using s'(8) ci by (simp add: vrt_def unat_word_ariths)
    have "waits M K w (?c # as) bs s'"
      using s' q w va vc \<open>vrt s ?c \<le> vrt s ?z\<close> vz k ci by (auto simp: waits_def)
    moreover have "remaining M w (?c # as) s' < remaining M w (a # as) s"
      using va [of a] va [of ?z] z vc \<open>vrt s ?c \<le> vrt s ?z\<close> k(1) s'(3) by (auto simp: remaining_def)
    ultimately show ?thesis using s'(1,6) by blast
  next
    case False
    then obtain bs' where q: "requeued ?b (as @ w # bs) = as @ w # bs'"
      by (cases "tstate (task ?b ?c) = TASK_RUNNING") (auto simp: requeued_def before_round_facts)
    have t: "x \<in> set as" if "x \<in> set (take 1 as) \<or> x \<in> set (drop 1 as)" for x
      using that by (auto dest: in_set_takeD in_set_dropD)
    have "waits M K w as bs' s'"
      unfolding waits_def
      using s'(2-5) q w(3,5,6) va t by (force intro: trans_le_add1)
    moreover have "remaining M w as s' < remaining M w (a # as) s"
    proof -
      have "vrt s' (hd (xs @ [w])) \<le> M" if "as = x # xs" for x xs
        using w(6) va that by (cases xs) auto
      then have "remaining M w as s' \<le> length as * (2 * M + 3) + 2 * Suc M"
        by (cases as) (auto simp: remaining_def intro!: diff_le_mono2 add_le_mono le_trans [OF diff_le_self])
      then show ?thesis by (simp add: remaining_def)
    qed
    ultimately show ?thesis using s'(1,6) by blast
  qed
qed

lemma waits_runs:
  assumes "waits M K w as bs s" "\<forall>r \<in> set rs. full_round K s (fst r)" "M + 2 * K < 2 ^ 64"
    and "remaining M w as s < length rs"
  shows "\<exists>n s'. n \<le> length rs \<and> rounds (take n rs) s = Ret s' \<and> current s' = w"
  using assms
proof (induction rs arbitrary: as bs s)
  case (Cons r rs)
  show ?case
  proof (cases as)
    case Nil
    with Cons.prems(1) have "resting s (w # bs)" "last_jiffies (rq s) = jiffies s" by (auto simp: waits_def)
    from full_round_switches [OF this, of K r] Cons.prems(2) obtain s' where
      "slice_round r s = Ret s'" "current s' = w" by auto
    then show ?thesis by (intro exI [of _ 1]) simp
  next
    case (Cons a as')
    from waits_step [of M K w a as' bs s r] Cons.prems Cons obtain s1 as1 bs1 where
      s1: "slice_round r s = Ret s1" "waits M K w as1 bs1 s1"
        "\<forall>t. time_slice (task s1 t) = time_slice (task s t)" "remaining M w as1 s1 < remaining M w as s" by auto
    from s1(3) Cons.prems(2) have "\<forall>r \<in> set rs. full_round K s1 (fst r)" by (simp add: full_round_def)
    from Cons.IH [OF s1(2) this Cons.prems(3)] s1(4) Cons.prems(4) obtain n s' where
      "n \<le> length rs" "rounds (take n rs) s1 = Ret s'" "current s' = w" by auto
    with s1(1) show ?thesis by (intro exI [of _ "Suc n"]) auto
  qed
qed simp

lemma remaining_le:
  assumes "waits M K w as bs s"
  shows "remaining M w as s < Suc (length as) * (2 * M + 3)"
proof -
  have "vrt s (hd (xs @ [w])) \<le> M" if "as = x # xs" for x xs
    using assms that by (cases xs) (auto simp: waits_def)
  then have "remaining M w as s \<le> length as * (2 * M + 3) + 2 * Suc M"
    by (cases as) (auto simp: remaining_def intro!: diff_le_mono2 add_le_mono le_trans [OF diff_le_self])
  then show ?thesis by simp
qed

section \<open>A task behind the idle task\<close>

lemma not_greater_max: "\<not> (-1 :: 'a::len word) < x"
  by (simp add: not_less)

lemma starving_step:
  assumes "resting s (a # idle (rq s) # cs)" "vruntime (task s (idle (rq s))) = -1"
    and "current s \<noteq> idle (rq s)" "snd r = TASK_RUNNING"
  shows "\<exists>s' b. slice_round r s = Ret s' \<and> resting s' (b # idle (rq s') # cs) \<and> idle (rq s') = idle (rq s)
    \<and> vruntime (task s' (idle (rq s'))) = -1 \<and> {current s', b} = {current s, a}"
proof -
  let ?b = "before_round r s" let ?i = "idle (rq s)" let ?xs = "a # ?i # cs"
  from slice_round_ok [OF assms(1), of r] obtain s' where
    s': "slice_round r s = Ret s'" "switched In_schedule ?b ?xs s'" "resting s' (snd (pick_abs ?b ?xs))" by blast
  have "\<not> goes_last ?b (?i # cs)"
    using assms(2,3) not_greater_max by (simp add: goes_last_def before_round_facts)
  then have rq: "requeued ?b (?i # cs) = current s # ?i # cs"
    using assms(3,4) by (simp add: requeued_def before_round_facts)
  have f: "idle (rq s') = ?i" "vruntime (task s' ?i) = -1" "current s' = fst (pick_abs ?b ?xs)"
    using s'(2) assms(2,3) by (auto simp: switched_def before_round_facts picked_def charged_def)
  show ?thesis
  proof (cases "gives_way ?b")
    case True
    then have "pick_abs ?b ?xs = (a, current s # ?i # cs)" by (simp add: pick_abs_def rq)
    with s' f show ?thesis by (intro exI [of _ s'] exI [of _ "current s"]) auto
  next
    case False
    then have "pick_abs ?b ?xs = (current s, ?xs)" by (simp add: pick_abs_def before_round_facts)
    with s' f show ?thesis by (intro exI [of _ s'] exI [of _ a]) auto
  qed
qed

lemma starving_rounds:
  assumes "resting s (a # idle (rq s) # cs)" "vruntime (task s (idle (rq s))) = -1"
    and "current s \<noteq> idle (rq s)" "\<forall>r \<in> set rs. snd r = TASK_RUNNING"
  shows "\<exists>s' b. rounds rs s = Ret s' \<and> resting s' (b # idle (rq s') # cs) \<and> {current s', b} = {current s, a}"
  using assms
proof (induction rs arbitrary: s a)
  case (Cons r rs)
  from starving_step [OF Cons.prems(1-3), of r] Cons.prems(4) obtain s1 b where
    s1: "slice_round r s = Ret s1" "resting s1 (b # idle (rq s1) # cs)" "idle (rq s1) = idle (rq s)"
      "vruntime (task s1 (idle (rq s1))) = -1" "{current s1, b} = {current s, a}" by auto
  have "current s1 \<noteq> idle (rq s1)"
    using s1(2) unfolding resting_def sched_ok_def sched_inv_def by auto
  from Cons.IH [OF s1(2,4) this] Cons.prems(4) s1(1,5) show ?case by auto
qed auto

section \<open>Waking a task, whatever its state\<close>

lemma sched_inv_pcount: "sched_inv (s\<lparr>pcount := pc\<rparr>) xs = sched_inv s xs"
  by (simp add: sched_inv_def space_ok_def)

lemma try_to_wake_up_queues:
  assumes "sched_inv s xs" "p \<noteq> 0" "p \<noteq> current s" "p \<notin> set xs" "pcount s \<noteq> 0"
  shows "\<exists>l. try_to_wake_up p st s = Ret (0, woken p s l) \<and> queue l (p # xs) \<and> sched_inv (woken p s l) (p # xs)"
proof -
  let ?s = "preempt_disable s"
  have inv: "sched_inv ?s xs" using assms(1) by (simp add: preempt_disable_def sched_inv_pcount)
  have c: "current ?s = current s" by (simp add: preempt_disable_def)
  from set_task_cpu_ok [OF inv assms(2)] assms(3,4) c obtain l where
    l: "set_task_cpu p ?s = Ret (woken p ?s l)" "queue l (p # xs)" by auto
  have "set_task_cpu p (with_task p (tstate_update (\<lambda>_. TASK_WAKING)) ?s) = set_task_cpu p ?s"
    by (simp add: set_task_cpu_def with_task_def)
  moreover have "preempt_enable (woken p ?s l) = Ret (woken p s l)"
    using assms(5)
    by (simp add: preempt_enable_def preempt_enable_no_resched_def should_resched_def woken_def preempt_disable_def)
  ultimately have "try_to_wake_up p st s = Ret (0, woken p s l)"
    using assms(3) c l(1) by (simp add: try_to_wake_up_def)
  with l(2) woken_inv [OF assms(1-3), of l] assms(4) show ?thesis by auto
qed

lemma resumes_dead_bug:
  assumes "sched_inv s (p # xs)" "gives_way s" "frame (task s p) = In_do_task_dead"
  shows "schedule s = Bug"
proof -
  let ?e = "enter In_schedule s"
  from enter_form [of In_schedule s] obtain pc where
    e: "?e = s\<lparr>task := (task s)(current s := (task s (current s))\<lparr>frame := In_schedule\<rparr>), pcount := pc\<rparr>" by blast
  have cur: "p \<noteq> current s" using assms(1) unfolding sched_inv_def by auto
  from assms(1) have "sched_inv ?e (p # xs)" unfolding e by (auto simp: sched_inv_def space_ok_def)
  from do__schedule_ok [OF this] obtain s1 where
    s1: "do__schedule ?e = Ret s1" "scheduled ?e (p # xs) s1" by blast
  have "current s1 = p" "core (task s1 p) = core (picked ?e (p # xs) p)"
    using s1(2) assms(2) by (auto simp: scheduled_def enter_facts pick_abs_def)
  with core_fields(4) [OF this(2)] cur assms(3) have "frame (task s1 (current s1)) = In_do_task_dead"
    by (simp add: enter_facts)
  then have "sched_loop In_schedule s = Some Bug"
    by (subst sched_loop.simps) (simp add: s1(1) Let_def)
  then show ?thesis by (simp add: schedule_def loop_end_def)
qed

lemma do_task_dead_once:
  assumes "resting s xs" "current s \<noteq> idle (rq s)"
  shows "\<exists>s' ys. do_task_dead s = Ret s' \<and> sched_ok s' ys \<and> current s \<notin> set (current s' # ys)
    \<and> frame (task s' (current s)) = In_do_task_dead \<and> pcount s' \<noteq> 0 \<and> last_jiffies (rq s') = jiffies s'"
proof -
  let ?s = "with_task (current s) (tflags_update (\<lambda>f. f OR PF_NOFREEZE)) (set_current_state TASK_DEAD s)"
  have c: "current (set_current_state TASK_DEAD s) = current s" "current ?s = current s" "rq ?s = rq s"
    "tstate (task ?s (current s)) = TASK_DEAD" "flagged ?s = flagged s"
    by (auto simp: set_current_state_def with_task_def flagged_def)
  have ok: "sched_ok s xs" "frame (task s (current s)) \<noteq> In_do_task_dead" "flagged s = {}"
    using assms(1) by (auto simp: resting_def)
  from set_current_state_sched_ok [OF ok(1,2) assms(2), of TASK_DEAD] have oks: "sched_ok ?s xs"
    by (auto simp: sched_ok_def sched_inv_def dead_ok_def space_ok_def with_task_def)
  from sched_loop_once [OF oks, of In_do_task_dead] c ok(3) obtain s' where
    s': "sched_loop In_do_task_dead ?s = Some (Ret s')" "switched In_do_task_dead ?s xs s'" by auto
  obtain x zs where xs: "xs = x # zs"
    using ok(1) assms(2) unfolding sched_ok_def sched_inv_def by (cases xs) auto
  have cx: "current s \<notin> set xs" using ok(1) unfolding sched_ok_def sched_inv_def by blast
  have "gives_way ?s" using c(2,4) by (simp add: gives_way_def task_states)
  then have p: "pick_abs ?s xs = (x, zs)" using c(2,4) xs
    by (simp add: pick_abs_def requeued_def task_states)
  have "do_task_dead s = Ret s'" using s'(1) by (simp add: do_task_dead_def c(1) loop_end_def)
  with s'(2) p c(2) cx xs \<open>gives_way ?s\<close> show ?thesis
    by (intro exI [of _ s'] exI [of _ zs]) (simp add: switched_def)
qed

section \<open>Properties\<close>

text \<open>A state with the tasks \<open>a\<close>, \<open>b\<close> and \<open>c\<close> queued while task 4 runs; task 1 is the idle task.\<close>

definition ring3 :: "ulong \<Rightarrow> ulong \<Rightarrow> ulong \<Rightarrow> rqnode heap" where
  "ring3 a b c =
     (\<lambda>x. if x = Running_lhdr then \<lparr>nxt = At (Run_list a), prv = At (Run_list c)\<rparr>
          else if x = Run_list a then \<lparr>nxt = At (Run_list b), prv = At Running_lhdr\<rparr>
          else if x = Run_list b then \<lparr>nxt = At (Run_list c), prv = At (Run_list a)\<rparr>
          else \<lparr>nxt = At Running_lhdr, prv = At (Run_list b)\<rparr>)"

definition three_queued :: "ulong \<Rightarrow> ulong \<Rightarrow> ulong \<Rightarrow> sched" where
  "three_queued a b c = boot_sched\<lparr>
     task := (\<lambda>t. if t = 1 then boot_task else boot_task\<lparr>vruntime := 0\<rparr>),
     lists := \<lparr>mem = ring3 a b c, count = (\<lambda>_. 3)\<rparr>,
     rq := (rq boot_sched)\<lparr>curr := 4, idle := 1\<rparr>, current := 4\<rparr>"

lemma three_queued_resting:
  assumes "distinct [0, 4, a, b, c]" "1 \<in> {a, b, c}"
  shows "resting (three_queued a b c) [a, b, c]"
  using assms
  by (auto simp: resting_def sched_ok_def sched_inv_def dead_ok_def space_ok_def flagged_def queue_iff dlist_def
      linked_def ring3_def three_queued_def boot_sched_def boot_task_def)

text \<open>
  C3. Liveness: a task queued ahead of the idle task is run.  When every round lasts at least a time
  slice and at most \<open>K\<close> ticks, and the run times of the tasks involved are at most \<open>M\<close> at the outset,
  the task \<open>w\<close> becomes the current one within \<open>(n + 1) * (2 * M + 3)\<close> rounds, where \<open>n\<close> tasks are ahead
  of it, whether the tasks that run stay runnable or block.
\<close>

theorem sched_waiting_task_runs:
  assumes "resting s (as @ w # bs)" "last_jiffies (rq s) = jiffies s" "idle (rq s) \<notin> set (w # as)"
    and "\<forall>t \<in> set (current s # w # as) - {idle (rq s)}. unat (vruntime (task s t)) \<le> M"
    and "\<forall>r \<in> set rs. full_round K s (fst r)" "M + 2 * K < 2 ^ 64"
    and "length rs = Suc (length as) * (2 * M + 3)"
  shows "\<exists>n s'. n \<le> length rs \<and> rounds (take n rs) s = Ret s' \<and> current s' = w"
proof -
  have "x \<in> set (w # as)" if "x \<in> set (take 1 as) \<or> x \<in> set (w # drop 1 as)" for x
    using that by (auto dest: in_set_takeD in_set_dropD)
  then have "waits M K w as bs s" unfolding waits_def vrt_def
    using assms(1-4) by (force intro: trans_le_add1)
  from waits_runs [OF this assms(5,6)] remaining_le [OF this] assms(7) show ?thesis by simp
qed

theorem sched_waiting_task_runs_witness:
  "\<exists>n s'. n \<le> 6 \<and> rounds (take n (replicate 6 (2, TASK_RUNNING))) (three_queued 2 3 1) = Ret s' \<and> current s' = 3"
  using sched_waiting_task_runs [of "three_queued 2 3 1" "[2]" 3 "[1]" 0 "replicate 6 (2, TASK_RUNNING)" 2]
    three_queued_resting [of 2 3 1]
  by (simp add: three_queued_def boot_sched_def boot_task_def full_round_def)

text \<open>
  C5. In every reachable state the run queue is a well-formed list of distinct runnable tasks that
  does not hold the current task, the idle task is queued or current, and the page directory loaded
  in the processor is that of the current task's address space.
\<close>

theorem sched_reachable_ok:
  assumes "reach s"
  shows "\<exists>xs. hdrs (lists s) {Running_lhdr} (\<lambda>_. map Run_list xs) \<and> distinct (current s # xs)
    \<and> curr (rq s) = current s \<and> idle (rq s) \<in> set (current s # xs)
    \<and> (\<forall>t \<in> set xs. tstate (task s t) = TASK_RUNNING)
    \<and> (\<exists>m. active_mm (task s (current s)) = Some m \<and> cr3 s = pgd s m)
    \<and> (\<forall>m. mm (task s (current s)) = Some m \<longrightarrow> cr3 s = pgd s m)"
proof -
  from reach_system_ok [OF assms] obtain xs where xs: "sched_inv s xs"
    by (auto simp: system_ok_def sched_ok_def)
  then have "distinct xs" using queue_distinct by (auto simp: sched_inv_def)
  with xs have "hdrs (lists s) {Running_lhdr} (\<lambda>_. map Run_list xs)" "distinct (current s # xs)"
    "curr (rq s) = current s" "idle (rq s) \<in> set (current s # xs)"
    "\<forall>t \<in> set xs. tstate (task s t) = TASK_RUNNING" "space_ok s"
    by (auto simp: sched_inv_def queue_def)
  then show ?thesis unfolding space_ok_def by fastforce
qed

theorem sched_reachable_ok_witness:
  "\<exists>s xs. init_idle 1 boot_sched = Ret s \<and> hdrs (lists s) {Running_lhdr} (\<lambda>_. map Run_list xs)
    \<and> distinct (current s # xs)"
proof -
  from init_idle_ok [OF booting_boot_sched] obtain s where s: "init_idle 1 boot_sched = Ret s" by blast
  from sched_reachable_ok [OF reach.boot [OF booting_boot_sched s]] s show ?thesis by blast
qed

text \<open>
  C10. In every reachable state the scheduler, the way out of an interrupt, the end of a section without
  preemption and any number of turns of the idle loop return: no \<^verbatim>\<open>BUG()\<close>, no wrong pointer and no
  endless loop is met.  A task other than the idle task can exit, and any task that is not dead can be
  woken.
\<close>

theorem sched_entry_points_return:
  assumes "reach s"
  shows "(\<exists>s'. schedule s = Ret s') \<and> (\<exists>s'. hwint_exit s = Ret s') \<and> (\<exists>s'. preempt_enable s = Ret s')
    \<and> (\<exists>s'. repeated n do_idle s = Ret s')
    \<and> (current s \<noteq> idle (rq s) \<longrightarrow> (\<exists>s'. do_task_dead s = Ret s'))
    \<and> (\<forall>p st. p \<noteq> 0 \<and> tstate (task s p) \<noteq> TASK_DEAD \<longrightarrow> (\<exists>s'. try_to_wake_up p st s = Ret (0, s')))"
  using reach_system_ok [OF assms] sched_e.returns_ok hwint_e.returns_ok preempt_e.returns_ok
    idle_e.repeats [of s n] do_task_dead_ok [of s] try_to_wake_up_ok [of s] by blast

theorem sched_entry_points_return_witness:
  "\<exists>s s'. init_idle 1 boot_sched = Ret s \<and> schedule s = Ret s'"
proof -
  from init_idle_ok [OF booting_boot_sched] obtain s where s: "init_idle 1 boot_sched = Ret s" by blast
  from sched_entry_points_return [OF reach.boot [OF booting_boot_sched s], of 0] s show ?thesis by blast
qed

text \<open>
  C11. Picking the next task, walked through on the linked list, is the rule \<open>pick_abs\<close> on the list of
  waiting tasks: the first one is taken when the current task gives way, the current task goes to the
  tail or the head of the rest, and the ticks used are charged to it.
\<close>

theorem sched_pick_next_refines:
  assumes "sched_inv s xs" "pick_abs s xs = (n, ys)"
  shows "\<exists>l. pick_next_task s = Ret (n, s\<lparr>lists := l, task := picked s xs,
      rq := (rq s)\<lparr>last_jiffies := if gives_way s \<and> xs \<noteq> [] then jiffies s else last_jiffies (rq s)\<rparr>\<rparr>)
    \<and> queue l ys"
  using pick_next_task_ok [OF assms(1)] assms(2) by auto

theorem sched_pick_next_refines_witness:
  "\<exists>l s'. pick_next_task ((three_queued 2 3 1)\<lparr>jiffies := 2\<rparr>) = Ret (2, s') \<and> lists s' = l \<and> queue l [4, 3, 1]"
proof -
  let ?s = "(three_queued 2 3 1)\<lparr>jiffies := 2\<rparr>"
  have "sched_inv (three_queued 2 3 1) [2, 3, 1]"
    using three_queued_resting [of 2 3 1] by (simp add: resting_def sched_ok_def)
  moreover have "sched_inv ?s [2, 3, 1] = sched_inv (three_queued 2 3 1) [2, 3, 1]"
    by (simp add: sched_inv_def space_ok_def)
  moreover have "pick_abs ?s [2, 3, 1] = (2, [4, 3, 1])"
    by (simp add: pick_abs_def gives_way_def requeued_def goes_last_def three_queued_def boot_sched_def boot_task_def)
  ultimately show ?thesis using sched_pick_next_refines [of ?s "[2, 3, 1]" 2 "[4, 3, 1]"] by fastforce
qed

text \<open>
  C34. Starvation: the idle task has the greatest run time there is, so a task that gives way while the
  idle task is the second in the queue is put in front of it again.  As long as no task blocks, two
  tasks take turns, and those behind the idle task never run, however many rounds pass.
\<close>

theorem sched_behind_idle_starves:
  assumes "resting s (a # idle (rq s) # cs)" "vruntime (task s (idle (rq s))) = -1"
    and "current s \<noteq> idle (rq s)" "c \<in> set cs" "\<forall>r \<in> set rs. snd r = TASK_RUNNING"
  shows "\<exists>s'. rounds rs s = Ret s' \<and> current s' \<in> {current s, a} \<and> current s' \<noteq> c"
proof -
  from starving_rounds [OF assms(1-3,5)] obtain s' b where
    s': "rounds rs s = Ret s'" "resting s' (b # idle (rq s') # cs)" "{current s', b} = {current s, a}" by blast
  from s'(2) have "current s' \<notin> set cs" unfolding resting_def sched_ok_def sched_inv_def by auto
  with s' assms(4) show ?thesis by blast
qed

theorem sched_behind_idle_starves_witness:
  "\<exists>s'. rounds (replicate 1000 (5, TASK_RUNNING)) (three_queued 2 1 3) = Ret s' \<and> current s' \<noteq> 3"
  using sched_behind_idle_starves [of "three_queued 2 1 3" 2 "[3]" 3 "replicate 1000 (5, TASK_RUNNING)"]
    three_queued_resting [of 2 1 3]
  by (auto simp: three_queued_def boot_sched_def boot_task_def)

text \<open>
  C35. A wake-up takes no notice of the state of the task or of the states it is asked to wake.  A task
  that has exited through \<^verbatim>\<open>do_task_dead\<close> is put back at the head of the queue by \<^verbatim>\<open>wake_up_process\<close>, which
  returns 0, and the next switch runs into the \<^verbatim>\<open>BUG()\<close> behind the exit.
\<close>

theorem sched_dead_task_revived:
  assumes "resting s xs" "current s \<noteq> idle (rq s)"
  shows "\<exists>s1 s2. do_task_dead s = Ret s1 \<and> wake_up_process (current s) s1 = Ret (0, s2)
    \<and> (\<forall>k. ucast (time_slice (task s1 (current s1))) \<le> k \<longrightarrow> schedule (s2\<lparr>jiffies := jiffies s2 + k\<rparr>) = Bug)"
proof -
  let ?p = "current s"
  from do_task_dead_once [OF assms] obtain s1 ys where
    s1: "do_task_dead s = Ret s1" "sched_ok s1 ys" "?p \<notin> set (current s1 # ys)"
      "frame (task s1 ?p) = In_do_task_dead" "pcount s1 \<noteq> 0" "last_jiffies (rq s1) = jiffies s1" by blast
  have "?p \<noteq> 0" using assms(1) unfolding resting_def sched_ok_def sched_inv_def by auto
  with try_to_wake_up_queues [of s1 ys ?p TASK_NORMAL] s1(2,3,5) obtain l where
    l: "wake_up_process ?p s1 = Ret (0, woken ?p s1 l)" "sched_inv (woken ?p s1 l) (?p # ys)"
    by (auto simp: sched_ok_def wake_up_process_def)
  have "schedule ((woken ?p s1 l)\<lparr>jiffies := jiffies (woken ?p s1 l) + k\<rparr>) = Bug" (is "schedule ?s = _")
    if "ucast (time_slice (task s1 (current s1))) \<le> k" for k
  proof (rule resumes_dead_bug)
    have "sched_inv ?s (?p # ys) = sched_inv (woken ?p s1 l) (?p # ys)" by (simp add: sched_inv_def space_ok_def)
    with l(2) show "sched_inv ?s (?p # ys)" by simp
    show "gives_way ?s" using that s1(3,6) by (auto simp: gives_way_def woken_def)
    show "frame (task ?s ?p) = In_do_task_dead" using s1(4) by (simp add: woken_def)
  qed
  with s1(1) l(1) show ?thesis by blast
qed

theorem sched_dead_task_revived_witness:
  "\<exists>s1 s2. do_task_dead (three_queued 2 3 1) = Ret s1 \<and> wake_up_process 4 s1 = Ret (0, s2)
    \<and> schedule (s2\<lparr>jiffies := jiffies s2 - 1\<rparr>) = Bug"
proof -
  have "resting (three_queued 2 3 1) [2, 3, 1]" "current (three_queued 2 3 1) = 4"
    "idle (rq (three_queued 2 3 1)) = 1"
    by (simp_all add: three_queued_resting, simp_all add: three_queued_def)
  with sched_dead_task_revived [of "three_queued 2 3 1" "[2, 3, 1]"] obtain s1 s2 where
    "do_task_dead (three_queued 2 3 1) = Ret s1" "wake_up_process 4 s1 = Ret (0, s2)"
    "\<forall>k. ucast (time_slice (task s1 (current s1))) \<le> k \<longrightarrow> schedule (s2\<lparr>jiffies := jiffies s2 + k\<rparr>) = Bug" by auto
  moreover from this(3) have "schedule (s2\<lparr>jiffies := jiffies s2 + (- 1)\<rparr>) = Bug"
    by (blast intro: word_order.extremum)
  ultimately show ?thesis by auto
qed

end
