(* ===== verification/Rtc.thy ===== *)
theory Rtc
  imports Prelude
begin

unbundle bit_operations_syntax

text \<open>
  Dates: \<^verbatim>\<open>mykernel/drivers/rtc/lib.c\<close>, \<^verbatim>\<open>mktime64\<close> of \<^verbatim>\<open>mykernel/time/time.c\<close>, the binary coded decimals of
  \<^verbatim>\<open>mykernel/lib/bcd.c\<close> and the reading of the clock chip in \<^verbatim>\<open>mykernel/drivers/rtc/rtc-mc146818.c\<close>.

  The reference is the Gregorian calendar itself: \<open>epoch_days\<close> adds up the lengths of the years since 1970
  and of the months of the year.  Proved: \<^verbatim>\<open>mktime64\<close> computes it for every valid date, \<^verbatim>\<open>rtc_time64_to_tm\<close>,
  which divides by multiplying, finds the date of every day, and the two are inverse to each other.
\<close>

section \<open>The code\<close>

record rtc_time =
  tm_sec :: u32
  tm_min :: u32
  tm_hour :: u32
  tm_mday :: u32
  tm_mon :: u32
  tm_year :: u32
  tm_wday :: u32
  tm_yday :: u32
  tm_isdst :: u32

text \<open>Division of signed C integers rounds towards zero.\<close>

definition cdiv :: "int \<Rightarrow> int \<Rightarrow> int" where
  "cdiv a b = sgn a * sgn b * (\<bar>a\<bar> div \<bar>b\<bar>)"

definition cmod :: "int \<Rightarrow> int \<Rightarrow> int" where
  "cmod a b = a - b * cdiv a b"

definition is_leap_year :: "u32 \<Rightarrow> bool" where
  "is_leap_year year \<longleftrightarrow> (year mod 4 = 0 \<and> year mod 100 \<noteq> 0) \<or> year mod 400 = 0"

definition rtc_days_in_month :: "u8 list" where
  "rtc_days_in_month = [31, 28, 31, 30, 31, 30, 31, 31, 30, 31, 30, 31]"

definition rtc_ydays :: "bool \<Rightarrow> u16 list" where
  "rtc_ydays leap =
     (if leap then [0, 31, 60, 91, 121, 152, 182, 213, 244, 274, 305, 335, 366]
      else [0, 31, 59, 90, 120, 151, 181, 212, 243, 273, 304, 334, 365])"

definition rtc_month_days :: "u32 \<Rightarrow> u32 \<Rightarrow> u32 outcome" where
  "rtc_month_days month year =
     (if unat month < 12
      then Ret (ucast (rtc_days_in_month ! unat month) + of_bool (is_leap_year year \<and> month = 1))
      else Fault)"

definition rtc_year_days :: "u32 \<Rightarrow> u32 \<Rightarrow> u32 \<Rightarrow> u32 outcome" where
  "rtc_year_days day month year =
     (if unat month < 13 then Ret (ucast (rtc_ydays (is_leap_year year) ! unat month) + day - 1) else Fault)"

definition upper_32_bits :: "u64 \<Rightarrow> u32" where
  "upper_32_bits n = ucast (drop_bit 16 (drop_bit 16 n))"

definition lower_32_bits :: "u64 \<Rightarrow> u32" where
  "lower_32_bits n = ucast (n AND 0xffffffff)"

definition rtc_time64_to_tm :: "u64 \<Rightarrow> rtc_time" where
  "rtc_time64_to_tm time =
     (let days = word_of_int (cdiv (sint time) 86400) :: u32;
          secs = word_of_int (cmod (sint time) 86400) :: u32;
          wday = word_of_int (cmod (sint (days + 4)) 7);
          udays = days + 719468;
          u32tmp = 4 * udays + 3;
          century = u32tmp div 146097;
          day_of_century = u32tmp mod 146097 div 4;
          u32tmp = 4 * day_of_century + 3;
          u64tmp = 2939745 * ucast u32tmp;
          year_of_century = upper_32_bits u64tmp;
          day_of_year = lower_32_bits u64tmp div 2939745 div 4;
          year = 100 * century + year_of_century;
          leap = (if year_of_century \<noteq> 0 then year_of_century mod 4 = 0 else century mod 4 = 0);
          u32tmp = 2141 * day_of_year + 132377;
          month = drop_bit 16 u32tmp;
          day = ucast (ucast u32tmp :: u16) div 2141;
          is_Jan_or_Feb = day_of_year \<ge> 306;
          year = year + of_bool is_Jan_or_Feb;
          month = (if is_Jan_or_Feb then month - 12 else month);
          day = day + 1;
          day_of_year = (if is_Jan_or_Feb then day_of_year - 306 else day_of_year + 31 + 28 + of_bool leap);
          hour = secs div 3600;
          secs = secs - hour * 3600;
          minute = secs div 60
      in \<lparr>tm_sec = secs - minute * 60, tm_min = minute, tm_hour = hour, tm_mday = day, tm_mon = month,
          tm_year = year - 1900, tm_wday = wday, tm_yday = day_of_year + 1, tm_isdst = 0\<rparr>)"

definition mktime64 :: "u32 \<Rightarrow> u32 \<Rightarrow> u32 \<Rightarrow> u32 \<Rightarrow> u32 \<Rightarrow> u32 \<Rightarrow> u64" where
  "mktime64 year0 mon0 day hour minute sec =
     (let mon = mon0 - 2;
          (mon, year) = (if 0 \<ge> sint mon then (mon + 12, year0 - 1) else (mon, year0))
      in (((ucast (year div 4 - year div 100 + year div 400 + 367 * mon div 12 + day) + ucast (year * 365) - 719499)
            * 24 + ucast hour) * 60 + ucast minute) * 60 + ucast sec)"

definition rtc_valid_tm :: "rtc_time \<Rightarrow> int outcome" where
  "rtc_valid_tm tm =
     (if sint (tm_year tm) < 70 \<or> sint (tm_year tm) > 2 ^ 31 - 1 - 1900 \<or> tm_mon tm \<ge> 12 \<or> sint (tm_mday tm) < 1
      then Ret (- EINVAL)
      else bnd (rtc_month_days (tm_mon tm) (tm_year tm + 1900)) (\<lambda>d.
        if sint (tm_mday tm) > sint d \<or> tm_hour tm \<ge> 24 \<or> tm_min tm \<ge> 60 \<or> tm_sec tm \<ge> 60
        then Ret (- EINVAL) else Ret 0))"

definition rtc_tm_to_time64 :: "rtc_time \<Rightarrow> u64" where
  "rtc_tm_to_time64 tm =
     mktime64 (tm_year tm + 1900) (tm_mon tm + 1) (tm_mday tm) (tm_hour tm) (tm_min tm) (tm_sec tm)"

definition bcd2bin :: "u8 \<Rightarrow> u32" where
  "bcd2bin v = ucast (v AND 0x0f) + ucast (drop_bit 4 v) * 10"

definition bin2bcd :: "u32 \<Rightarrow> u8" where
  "bin2bcd v = ucast (push_bit 4 (v div 10) + v mod 10)"

text \<open>The clock chip: \<open>cmos\<close> is what \<^verbatim>\<open>CMOS_READ\<close> finds in a register.\<close>

definition RTC_SECONDS :: u8 where "RTC_SECONDS = 0"
definition RTC_MINUTES :: u8 where "RTC_MINUTES = 2"
definition RTC_HOURS :: u8 where "RTC_HOURS = 4"
definition RTC_DAY_OF_MONTH :: u8 where "RTC_DAY_OF_MONTH = 7"
definition RTC_MONTH :: u8 where "RTC_MONTH = 8"
definition RTC_YEAR :: u8 where "RTC_YEAR = 9"

definition simple_mc146818_gettime :: "(u8 \<Rightarrow> u8) \<Rightarrow> rtc_time \<Rightarrow> rtc_time" where
  "simple_mc146818_gettime cmos t =
     t\<lparr>tm_sec := ucast (cmos RTC_SECONDS), tm_min := ucast (cmos RTC_MINUTES), tm_hour := ucast (cmos RTC_HOURS),
       tm_mday := ucast (cmos RTC_DAY_OF_MONTH), tm_mon := ucast (cmos RTC_MONTH), tm_year := ucast (cmos RTC_YEAR)\<rparr>"

definition mc146818_get_time :: "(u8 \<Rightarrow> u8) \<Rightarrow> rtc_time \<Rightarrow> rtc_time" where
  "mc146818_get_time cmos t =
     (let t = simple_mc146818_gettime cmos t;
          t = t\<lparr>tm_sec := bcd2bin (ucast (tm_sec t))\<rparr>;
          t = t\<lparr>tm_min := bcd2bin (ucast (tm_min t))\<rparr>;
          t = t\<lparr>tm_hour := bcd2bin (ucast (tm_hour t))\<rparr>;
          t = t\<lparr>tm_mday := bcd2bin (ucast (tm_mday t))\<rparr>;
          t = t\<lparr>tm_mon := bcd2bin (ucast (tm_mon t))\<rparr>;
          t = t\<lparr>tm_year := bcd2bin (ucast (tm_year t))\<rparr>;
          t = (if sint (tm_year t) \<le> 69 then t\<lparr>tm_year := tm_year t + 100\<rparr> else t)
      in t\<lparr>tm_mon := tm_mon t - 1\<rparr>)"

section \<open>The Gregorian calendar\<close>

lemma less_12:
  fixes k :: nat
  assumes "k < 12"
  shows "k = 0 \<or> k = 1 \<or> k = 2 \<or> k = 3 \<or> k = 4 \<or> k = 5 \<or> k = 6 \<or> k = 7 \<or> k = 8 \<or> k = 9 \<or> k = 10 \<or> k = 11"
  using assms by arith

definition leap :: "nat \<Rightarrow> bool" where
  "leap y \<longleftrightarrow> (4 dvd y \<and> \<not> 100 dvd y) \<or> 400 dvd y"

definition year_len :: "nat \<Rightarrow> nat" where
  "year_len y = 365 + of_bool (leap y)"

definition month_len :: "nat \<Rightarrow> nat \<Rightarrow> nat" where
  "month_len y m = [31, 28, 31, 30, 31, 30, 31, 31, 30, 31, 30, 31] ! m + of_bool (leap y \<and> m = 1)"

lemma month_len_le: "m < 12 \<Longrightarrow> month_len y m \<le> 31"
  by (drule less_12) (elim disjE; simp add: month_len_def)

text \<open>The days from the first of January 1970 to a date; months count from 0, days from 1.\<close>

definition epoch_days :: "nat \<Rightarrow> nat \<Rightarrow> nat \<Rightarrow> nat" where
  "epoch_days y m d = sum_list (map year_len [1970..<y]) + sum_list (map (month_len y) [0..<m]) + (d - 1)"

definition valid_date :: "nat \<Rightarrow> nat \<Rightarrow> nat \<Rightarrow> bool" where
  "valid_date y m d \<longleftrightarrow> 1970 \<le> y \<and> m < 12 \<and> 1 \<le> d \<and> d \<le> month_len y m"

section \<open>Years that start in March\<close>

definition leaps :: "nat \<Rightarrow> nat" where
  "leaps y = y div 4 - y div 100 + y div 400"

lemma leaps_bounds: "(y :: nat) div 100 \<le> y div 4"
  by (rule div_le_mono2) simp_all

lemma leaps_Suc: "leaps (Suc y) = leaps y + of_bool (leap (Suc y))"
proof -
  have s: "Suc y div k = y div k + of_bool (k dvd Suc y)" if "k > 0" for k
    using that by (simp add: div_Suc dvd_eq_mod_eq_0)
  have "4 dvd Suc y" if "100 dvd Suc y" using that by (rule dvd_trans [rotated]) simp
  moreover have "100 dvd Suc y" if "400 dvd Suc y" using that by (rule dvd_trans [rotated]) simp
  ultimately show ?thesis
    using leaps_bounds [of y] by (auto simp: leaps_def s leap_def)
qed

lemma year_sum:
  "1970 \<le> y \<Longrightarrow> sum_list (map year_len [1970..<y]) + 719527 = 365 * y + leaps (y - 1)"
proof (induction y rule: nat_induct_at_least)
  case base
  show ?case by (simp add: leaps_def)
next
  case (Suc y)
  then have "leaps y = leaps (y - 1) + of_bool (leap y)" using leaps_Suc [of "y - 1"] by simp
  with Suc show ?case by (simp add: year_len_def)
qed

definition march_off :: "nat \<Rightarrow> nat" where
  "march_off k = [0, 31, 61, 92, 122, 153, 184, 214, 245, 275, 306, 337] ! k"

lemma march_off_cases:
  assumes "k < 12"
  shows "march_off k + 30 = 367 * Suc k div 12"
proof -
  note less_12 [OF assms]
  then show ?thesis by (auto simp: march_off_def)
qed

lemma month_sum:
  assumes "2 \<le> m" "m < 12"
  shows "sum_list (map (month_len y) [0..<m]) = march_off (m - 2) + 59 + of_bool (leap y)"
proof -
  from assms have "m = 2 \<or> m = 3 \<or> m = 4 \<or> m = 5 \<or> m = 6 \<or> m = 7 \<or> m = 8 \<or> m = 9 \<or> m = 10 \<or> m = 11"
    by arith
  then show ?thesis by (elim disjE) (simp_all add: march_off_def month_len_def eval_nat_numeral)
qed

lemma epoch_days_march:
  assumes "1970 \<le> y" "m < 12" "1 \<le> d"
  shows "epoch_days y m d + 719468
    = (if m < 2 then 365 * (y - 1) + leaps (y - 1) + march_off (m + 10) else 365 * y + leaps y + march_off (m - 2)) + (d - 1)"
proof (cases "m < 2")
  case True
  then have "m = 0 \<or> m = 1" by auto
  with year_sum [OF assms(1)] assms(1) show ?thesis
    by (auto simp: epoch_days_def march_off_def month_len_def)
next
  case False
  have "leaps y = leaps (y - 1) + of_bool (leap y)" using leaps_Suc [of "y - 1"] assms(1) by simp
  with False year_sum [OF assms(1)] month_sum [of m y] assms show ?thesis
    by (simp add: epoch_days_def)
qed

section \<open>Centuries, years and days of the year\<close>

lemma mod4_sum3:
  fixes a b :: nat
  assumes "(a + b) mod 4 = 3"
  shows "a mod 4 + b mod 4 = 3"
proof -
  define x y where "x = a mod 4" and "y = b mod 4"
  have "(x + y) mod 4 = 3" "x < 4" "y < 4" using assms by (simp_all add: x_def y_def mod_add_eq)
  then have "x + y = 3" by (cases "x + y < 4") (simp_all add: le_mod_geq)
  then show ?thesis by (simp add: x_def y_def)
qed

lemma split_four:
  fixes n :: nat
  assumes "4 * n + 3 = (4 * k + 1) * c + r"
  shows "(c + r) mod 4 = 3" "n = k * c + c div 4 + r div 4"
proof -
  define h where "h = k * c"
  have h: "4 * n + 3 = 4 * h + (c + r)" unfolding assms h_def by (simp add: algebra_simps)
  have "(4 * h + (c + r)) mod 4 = (4 * n + 3) mod 4" by (simp only: h)
  then show m: "(c + r) mod 4 = 3" by (simp only: mod_mult_self4) simp
  note mod4_sum3 [OF m]
  moreover have "c = 4 * (c div 4) + c mod 4" "r = 4 * (r div 4) + r mod 4" by simp_all
  ultimately have "n = h + c div 4 + r div 4" using h by linarith
  then show "n = k * c + c div 4 + r div 4" by (simp add: h_def)
qed

lemma century_split:
  fixes n :: nat
  defines "c \<equiv> (4 * n + 3) div 146097" and "r \<equiv> (4 * n + 3) mod 146097"
  shows "n = 36524 * c + c div 4 + r div 4" "(c + r) mod 4 = 3" "r < 146097"
  using split_four [of n 36524 c r] by (simp_all add: c_def r_def)

lemma year_split:
  fixes p :: nat
  assumes "p < 146100"
  shows "2939745 * p div 2 ^ 32 = p div 1461" "2939745 * p mod 2 ^ 32 div 2939745 = p mod 1461"
proof -
  define q r where "q = p div 1461" and "r = p mod 1461"
  have p: "p = 1461 * q + r" "r < 1461" "q < 100" using assms by (simp_all add: q_def r_def)
  have e: "2939745 * p = q * 2 ^ 32 + (149 * q + 2939745 * r)" unfolding p(1) by simp
  have l: "149 * q + 2939745 * r < 2 ^ 32" using p by simp
  show "2939745 * p div 2 ^ 32 = p div 1461"
    unfolding e q_def [symmetric] using div_less [OF l] by (subst div_mult_self3) simp_all
  have "2939745 * p mod 2 ^ 32 = 149 * q + 2939745 * r"
    unfolding e by (simp only: mod_mult_self3 mod_less [OF l])
  moreover have "(149 * q + 2939745 * r) div 2939745 = r" using p(3) by simp
  ultimately show "2939745 * p mod 2 ^ 32 div 2939745 = p mod 1461" by (simp add: r_def)
qed

text \<open>The month and the day of a day of the year.\<close>

definition march_len :: "nat \<Rightarrow> nat" where
  "march_len k = [31, 30, 31, 30, 31, 31, 30, 31, 30, 31, 31, 29] ! k"

lemma affine_month:
  fixes t :: nat
  assumes "t = 65536 * k + (r + 2141 * d)" "r < 2141" "r + 2141 * d < 65536"
  shows "t div 65536 = k" "t mod 65536 div 2141 = d"
  using assms by simp_all

lemma month_day:
  assumes "k < 12" "d < march_len k"
  shows "(2141 * (march_off k + d) + 132377) div 65536 = k + 2"
    "(2141 * (march_off k + d) + 132377) mod 65536 div 2141 = d"
proof -
  define r where "r = 2141 * march_off k + 132377 - 65536 * (k + 2)"
  note less_12 [OF assms(1)]
  then have "2141 * march_off k + 132377 = 65536 * (k + 2) + r \<and> r < 2141 \<and> r + 2141 * d < 65536"
    using assms(2) by (elim disjE) (simp_all add: r_def march_off_def march_len_def)
  then show "(2141 * (march_off k + d) + 132377) div 65536 = k + 2"
    "(2141 * (march_off k + d) + 132377) mod 65536 div 2141 = d"
    using affine_month [of "2141 * (march_off k + d) + 132377" "k + 2" r d] by simp_all
qed

lemma day_of_march_year:
  assumes "n < 366"
  obtains k d where "k < 12" "d < march_len k" "n = march_off k + d"
proof -
  have pick: thesis if "k < 12" "march_off k \<le> n" "n < march_off k + march_len k" for k
    using that \<open>\<And>k d. k < 12 \<Longrightarrow> d < march_len k \<Longrightarrow> n = march_off k + d \<Longrightarrow> thesis\<close> [of k "n - march_off k"] by simp
  consider "n < 31" | "31 \<le> n" "n < 61" | "61 \<le> n" "n < 92" | "92 \<le> n" "n < 122" | "122 \<le> n" "n < 153"
    | "153 \<le> n" "n < 184" | "184 \<le> n" "n < 214" | "214 \<le> n" "n < 245" | "245 \<le> n" "n < 275"
    | "275 \<le> n" "n < 306" | "306 \<le> n" "n < 337" | "337 \<le> n" using assms by linarith
  then show thesis
    using assms pick [of 0] pick [of 1] pick [of 2] pick [of 3] pick [of 4] pick [of 5] pick [of 6] pick [of 7]
      pick [of 8] pick [of 9] pick [of 10] pick [of 11]
    by cases (simp_all add: march_off_def march_len_def)
qed

lemma leap_century:
  fixes c z :: nat
  assumes "z < 100"
  shows "leap (100 * c + z) \<longleftrightarrow> (if z \<noteq> 0 then z mod 4 = 0 else c mod 4 = 0)"
proof -
  have h: "100 dvd 100 * c + z \<longleftrightarrow> z = 0" using assms by (auto simp: dvd_eq_mod_eq_0)
  have "4 dvd 100 * c + z \<longleftrightarrow> 4 dvd z" by presburger
  moreover have "400 dvd 100 * c + z \<longleftrightarrow> z = 0 \<and> 4 dvd c"
  proof
    assume a: "400 dvd 100 * c + z"
    then have "100 dvd 100 * c + z" by (rule dvd_trans [rotated]) simp
    with h a show "z = 0 \<and> 4 dvd c" by auto
  qed auto
  ultimately show ?thesis using h by (auto simp: leap_def dvd_eq_mod_eq_0)
qed

lemma leaps_century:
  fixes c z :: nat
  assumes "z < 100"
  shows "365 * (100 * c + z) + leaps (100 * c + z) = 36524 * c + c div 4 + 365 * z + z div 4"
proof -
  have "(100 * c + z) div 4 = 25 * c + z div 4"
    using div_mult_self2 [of 4 z "25 * c"] by (simp add: add.commute)
  moreover have "(100 * c + z) div 100 = c" using assms by simp
  moreover have "(100 * c + z) div 400 = c div 4"
    using div_mult2_eq [of "100 * c + z" 100 4] assms by simp
  ultimately show ?thesis by (simp add: leaps_def)
qed

text \<open>The arithmetic of \<^verbatim>\<open>rtc_time64_to_tm\<close>, on numbers: the year that starts in March and the day in it.\<close>

lemma march_year:
  fixes n :: nat
  defines "c \<equiv> (4 * n + 3) div 146097" and "nc \<equiv> (4 * n + 3) mod 146097 div 4"
  defines "z \<equiv> (4 * nc + 3) div 1461" and "ny \<equiv> (4 * nc + 3) mod 1461 div 4"
  shows "nc < 36525" "z < 100" "ny < 366" "n = 365 * (100 * c + z) + leaps (100 * c + z) + ny"
    "ny = 365 \<Longrightarrow> leap (100 * c + z + 1)"
proof -
  define r where "r = (4 * n + 3) mod 146097"
  note cs = century_split [of n, folded c_def r_def]
  have ncr: "nc = r div 4" by (simp only: nc_def r_def)
  then show nc: "nc < 36525" using cs(3) by simp
  then show z: "z < 100" by (simp add: z_def)
  define q where "q = (4 * nc + 3) mod 1461"
  have p: "4 * nc + 3 = 1461 * z + q" "q < 1461" by (simp_all add: z_def q_def)
  show ny: "ny < 366" using p(2) unfolding ny_def q_def [symmetric] by linarith
  have nyq: "ny = q div 4" by (simp only: ny_def q_def)
  have m: "(z + q) mod 4 = 3" and nce: "nc = 365 * z + z div 4 + ny"
    using split_four [of nc 365 z q] p(1) by (simp_all add: nyq)
  show "n = 365 * (100 * c + z) + leaps (100 * c + z) + ny"
    unfolding leaps_century [OF z] using cs(1) by (simp add: ncr [symmetric] nce)
  assume l: "ny = 365"
  have q: "q = 1460" using l p(2) unfolding nyq by linarith
  with m have z3: "z mod 4 = 3" by presburger
  show "leap (100 * c + z + 1)"
  proof (cases "z = 99")
    case True
    with p(1) q have "nc = 36524" by simp
    with cs(3) have "r = 146096" unfolding ncr by linarith
    with cs(2) have "(c + 4 * 36524) mod 4 = 3" by simp
    then have "(c + 1) mod 4 = 0" by (simp only: mod_mult_self2) (simp add: mod_Suc)
    with True leap_century [of 0 "c + 1"] show ?thesis by simp
  next
    case False
    with z z3 have "z + 1 < 100" "(z + 1) mod 4 = 0" by presburger+
    with leap_century [of "z + 1" c] show ?thesis by simp
  qed
qed

lemma leaps_mono: "x \<le> y \<Longrightarrow> leaps x \<le> leaps y"
  by (rule lift_Suc_mono_le) (simp add: leaps_Suc)

text \<open>The date of a day, counted from the first of March of the year 0.\<close>

definition greg_year :: "nat \<Rightarrow> nat \<Rightarrow> nat" where
  "greg_year y k = y + of_bool (k \<ge> 10)"

definition greg_month :: "nat \<Rightarrow> nat" where
  "greg_month k = (if k \<ge> 10 then k - 10 else k + 2)"

lemma greg_date:
  assumes "n = 365 * y + leaps y + (march_off k + d)" "k < 12" "d < march_len k" "n \<ge> 719468"
    and "march_off k + d = 365 \<Longrightarrow> leap (y + 1)"
  shows "valid_date (greg_year y k) (greg_month k) (d + 1)"
    "epoch_days (greg_year y k) (greg_month k) (d + 1) + 719468 = n"
proof -
  note kk = less_12 [OF assms(2)]
  have off: "march_off k + d < 366" "k < 10 \<Longrightarrow> march_off k + d < 306"
    using kk assms(3) by (elim disjE; simp add: march_off_def march_len_def)+
  have y: "1970 \<le> greg_year y k"
  proof (rule ccontr)
    assume "\<not> 1970 \<le> greg_year y k"
    then have "y \<le> 1968 \<or> y = 1969 \<and> k < 10" 
      by (cases "10 \<le> k") (auto simp: greg_year_def)
    moreover have "leaps 1969 = 477" by (simp add: leaps_def)
    ultimately show False using assms(1,4) off leaps_mono [of y 1969] by auto
  qed
  have "d < 28 \<or> d = 28 \<and> leap (y + 1)" if "k = 11"
    using that assms(3,5) by (cases "d = 28") (auto simp: march_len_def march_off_def)
  then have "d + 1 \<le> month_len (greg_year y k) (greg_month k)"
    using kk assms(3)
    by (elim disjE) (auto simp: month_len_def greg_month_def greg_year_def march_len_def march_off_def)
  moreover have m: "greg_month k < 12" using assms(2) by (auto simp: greg_month_def)
  ultimately show "valid_date (greg_year y k) (greg_month k) (d + 1)" using y by (simp add: valid_date_def)
  show "epoch_days (greg_year y k) (greg_month k) (d + 1) + 719468 = n"
    using epoch_days_march [OF y m, of "d + 1"] assms(1,2) by (auto simp: greg_month_def greg_year_def)
qed

section \<open>The code on words\<close>

text \<open>Words that stand for small numbers.\<close>

named_theorems word_nat \<open>operations on words as operations on small numbers\<close>

lemma u32_of_nat [word_nat]: "n < 2 ^ 32 \<Longrightarrow> unat (of_nat n :: u32) = n"
  by (simp add: unsigned_of_nat take_bit_nat_eq_self)

lemma u64_of_nat [word_nat]: "n < 2 ^ 64 \<Longrightarrow> unat (of_nat n :: u64) = n"
  by (simp add: unsigned_of_nat take_bit_nat_eq_self)

lemma u32_div:
  assumes "a < 2 ^ 32" "k < 2 ^ 32"
  shows "(of_nat a :: u32) div of_nat k = of_nat (a div k)"
proof -
  have "a div k < 2 ^ 32" using assms(1) div_le_dividend [of a k] by linarith
  then show ?thesis using assms by (simp add: word_unat_eq_iff unat_div word_nat)
qed

lemma u32_mod:
  assumes "a < 2 ^ 32" "k < 2 ^ 32"
  shows "(of_nat a :: u32) mod of_nat k = of_nat (a mod k)"
proof -
  have "a mod k < 2 ^ 32" using assms(1) mod_less_eq_dividend [of a k] by linarith
  then show ?thesis using assms by (simp add: word_unat_eq_iff unat_mod word_nat)
qed

lemma u32_to_u64: "a < 2 ^ 32 \<Longrightarrow> (ucast (of_nat a :: u32) :: u64) = of_nat a"
  by (simp add: word_unat_eq_iff unsigned_ucast_eq word_nat take_bit_nat_eq_self)

lemma u32_le: "a < 2 ^ 32 \<Longrightarrow> b < 2 ^ 32 \<Longrightarrow> (of_nat a :: u32) \<le> of_nat b \<longleftrightarrow> a \<le> b"
  by (simp add: word_le_nat_alt word_nat)

lemma u32_eq: "a < 2 ^ 32 \<Longrightarrow> b < 2 ^ 32 \<Longrightarrow> (of_nat a :: u32) = of_nat b \<longleftrightarrow> a = b"
  by (simp add: word_unat_eq_iff word_nat)

lemma upper_32_bits_of_nat: "a < 2 ^ 64 \<Longrightarrow> upper_32_bits (of_nat a) = of_nat (a div 2 ^ 32)"
proof -
  assume a: "a < 2 ^ 64"
  have "unat (drop_bit 16 (drop_bit 16 (of_nat a :: u64))) = drop_bit 16 (drop_bit 16 a)"
    by (simp only: unat_drop_bit_eq u64_of_nat [OF a])
  then have "unat (drop_bit 16 (drop_bit 16 (of_nat a :: u64))) = a div 2 ^ 32"
    by (simp only: drop_bit_drop_bit) (simp add: drop_bit_eq_div)
  moreover have "a div 2 ^ 32 < 2 ^ 32" using a by simp
  ultimately show ?thesis
    by (simp only: upper_32_bits_def word_unat_eq_iff unsigned_ucast_eq u32_of_nat)
      (simp add: take_bit_nat_eq_self)
qed

lemma lower_32_bits_of_nat: "a < 2 ^ 64 \<Longrightarrow> lower_32_bits (of_nat a) = of_nat (a mod 2 ^ 32)"
proof -
  assume a: "a < 2 ^ 64"
  have "(of_nat a :: u64) AND 0xffffffff = take_bit 32 (of_nat a)"
    by (simp add: take_bit_eq_mask mask_eq_exp_minus_1)
  then have u: "unat ((of_nat a :: u64) AND 0xffffffff) = a mod 2 ^ 32"
    unfolding unsigned_take_bit_eq u64_of_nat [OF a] by (simp only: unsigned_take_bit_eq u64_of_nat [OF a])
      (rule take_bit_eq_mod)
  have "a mod 2 ^ 32 < 2 ^ 32" by simp
  then show ?thesis
    by (simp only: lower_32_bits_def word_unat_eq_iff unsigned_ucast_eq u32_of_nat u) (simp add: take_bit_eq_mod)
qed

lemma u32_high_half: "a < 2 ^ 32 \<Longrightarrow> drop_bit 16 (of_nat a :: u32) = of_nat (a div 65536)"
proof -
  assume a: "a < 2 ^ 32"
  then have "a div 65536 < 2 ^ 32" using div_le_dividend [of a 65536] by linarith
  with a show ?thesis
    by (simp only: word_unat_eq_iff unat_drop_bit_eq u32_of_nat) (simp add: drop_bit_eq_div)
qed

lemma u32_low_half: "a < 2 ^ 32 \<Longrightarrow> (ucast (ucast (of_nat a :: u32) :: u16) :: u32) = of_nat (a mod 65536)"
proof -
  assume a: "a < 2 ^ 32"
  have "a mod 65536 < 65536" by simp
  then have "a mod 65536 < 2 ^ 32" by (rule less_trans) simp
  moreover have "unat (ucast (of_nat a :: u32) :: u16) = a mod 65536"
    by (subst unsigned_ucast_eq) (simp add: u32_of_nat [OF a] take_bit_eq_mod)
  then have "unat (ucast (ucast (of_nat a :: u32) :: u16) :: u32) = a mod 65536"
    by (subst unsigned_ucast_eq) (simp add: take_bit_eq_mod)
  ultimately show ?thesis by (simp only: word_unat_eq_iff u32_of_nat)
qed

section \<open>From dates to seconds\<close>

lemma mktime_year_month:
  assumes "m < 12" "1 \<le> y"
  shows "(if 0 \<ge> sint (of_nat (m + 1) - 2 :: u32) then (of_nat (m + 1) - 2 + 12, of_nat y - 1) else (of_nat (m + 1) - 2, of_nat y))
    = (if m < 2 then (of_nat (m + 11), of_nat (y - 1)) else (of_nat (m - 1) :: u32, of_nat y :: u32))"
proof -
  note less_12 [OF assms(1)]
  then show ?thesis using assms(2) by (elim disjE) (simp_all add: of_nat_diff)
qed

lemma mktime_days:
  assumes "Y < 11767033" "M \<in> {1..12}" "d \<le> 31"
  shows "(ucast ((of_nat Y :: u32) div 4 - of_nat Y div 100 + of_nat Y div 400 + 367 * of_nat M div 12 + of_nat d) :: u64)
     + ucast ((of_nat Y :: u32) * 365)
    = of_nat (365 * Y + leaps Y + 367 * M div 12 + d)"
proof -
  have s: "Y < 2 ^ 32" "Y * 365 < 2 ^ 32" "367 * M < 2 ^ 32" "367 * M div 12 \<le> 367"
    using assms by auto
  have div: "(of_nat Y :: u32) div 4 = of_nat (Y div 4)" "(of_nat Y :: u32) div 100 = of_nat (Y div 100)"
    "(of_nat Y :: u32) div 400 = of_nat (Y div 400)"
    using u32_div [OF s(1), of 4] u32_div [OF s(1), of 100] u32_div [OF s(1), of 400] by simp_all
  have m: "(367 * of_nat M :: u32) div 12 = of_nat (367 * M div 12)"
    using u32_div [OF s(3), of 12] by simp
  have "(of_nat Y :: u32) div 4 - of_nat Y div 100 + of_nat Y div 400 + 367 * of_nat M div 12 + of_nat d
      = of_nat (leaps Y + 367 * M div 12 + d)"
    unfolding div m leaps_def using leaps_bounds [of Y] by (simp add: of_nat_diff)
  moreover have "leaps Y \<le> Y" unfolding leaps_def using leaps_bounds [of Y] by linarith
  then have "leaps Y + 367 * M div 12 + d < 2 ^ 32" using s assms(1,3) by simp
  moreover have "(of_nat Y :: u32) * 365 = of_nat (Y * 365)" by simp
  ultimately show ?thesis using s(2) by (simp add: u32_to_u64 del: of_nat_add of_nat_mult)
      (simp add: algebra_simps)
qed

lemma mktime64_correct:
  assumes "valid_date y m d" "y < 11767033"
  shows "mktime64 (of_nat y) (of_nat (m + 1)) (of_nat d) h mi s
    = of_nat (epoch_days y m d * 86400 + unat h * 3600 + unat mi * 60 + unat s)"
proof -
  define Y M where "Y = (if m < 2 then y - 1 else y)" and "M = (if m < 2 then m + 11 else m - 1)"
  have v: "1970 \<le> y" "m < 12" "1 \<le> d" "d \<le> 31"
  proof -
    show v: "1970 \<le> y" "m < 12" "1 \<le> d" using assms(1) by (auto simp: valid_date_def)
    from month_len_le [OF v(2), of y] show "d \<le> 31" using assms(1) by (simp add: valid_date_def)
  qed
  have M: "M \<in> {1..12}" "Y < 11767033" using v(2) assms(2) by (auto simp: M_def Y_def)
  have off: "march_off (M - 1) + 30 = 367 * M div 12"
    using march_off_cases [of "M - 1"] M(1) by (cases M) auto
  have e: "365 * Y + leaps Y + 367 * M div 12 + d = epoch_days y m d + 719499"
  proof -
    have M1: "M - 1 = (if m < 2 then m + 10 else m - 2)" by (simp add: M_def numeral_2_eq_2)
    from epoch_days_march [OF v(1-3)]
    have "epoch_days y m d + 719468 = 365 * Y + leaps Y + march_off (M - 1) + (d - 1)"
      unfolding M1 Y_def by (cases "m < 2") simp_all
    with off v(3) show ?thesis by linarith
  qed
  have "mktime64 (of_nat y) (of_nat (m + 1)) (of_nat d) h mi s =
      (((of_nat (epoch_days y m d + 719499) - 719499) * 24 + ucast h) * 60 + ucast mi) * 60 + ucast s"
    unfolding mktime64_def mktime_days [OF M(2,1) v(4), symmetric] e [symmetric] Let_def
    using mktime_year_month [OF v(2), of y] v(1)
    by (auto simp: Y_def M_def split: if_splits)
  also have "\<dots> = of_nat (epoch_days y m d * 86400 + unat h * 3600 + unat mi * 60 + unat s)"
    by (simp add: algebra_simps)
  finally show ?thesis .
qed

section \<open>From seconds to dates\<close>

text \<open>Up to this many days the 32-bit sums of the conversion do not wrap.\<close>

definition last_day :: nat where
  "last_day = 1073022355"

lemma cdiv_of_nat: "cdiv (int t) 86400 = int (t div 86400)" "cmod (int t) 86400 = int (t mod 86400)"
proof -
  show d: "cdiv (int t) 86400 = int (t div 86400)"
    by (cases "t = 0") (simp_all add: cdiv_def zdiv_int sgn_if)
  have "int (t mod 86400) = int t - 86400 * int (t div 86400)"
    using minus_mult_div_eq_mod [of "int t" 86400] by (simp add: zdiv_int zmod_int)
  then show "cmod (int t) 86400 = int (t mod 86400)" by (simp only: cmod_def d)
qed

lemma cmod7: "cmod (int t) 7 = int (t mod 7)"
proof -
  have "cdiv (int t) 7 = int (t div 7)" by (cases "t = 0") (simp_all add: cdiv_def zdiv_int sgn_if)
  moreover have "int (t mod 7) = int t - 7 * int (t div 7)"
    using minus_mult_div_eq_mod [of "int t" 7] by (simp add: zdiv_int zmod_int)
  ultimately show ?thesis by (simp only: cmod_def)
qed

lemma sint_of_nat64: "n < 2 ^ 63 \<Longrightarrow> sint (of_nat n :: u64) = int n"
  by (simp add: sint_uint uint_nat u64_of_nat signed_take_bit_int_eq_self)

lemma sint_of_nat32: "n < 2 ^ 31 \<Longrightarrow> sint (of_nat n :: u32) = int n"
  by (simp add: sint_uint uint_nat u32_of_nat signed_take_bit_int_eq_self)

text \<open>The time of day.\<close>

lemma time_of_day:
  assumes "s < 86400"
  shows "(of_nat s :: u32) div 3600 = of_nat (s div 3600)"
    "of_nat s - of_nat (s div 3600) * 3600 = (of_nat (s mod 3600) :: u32)"
    "(of_nat (s mod 3600) :: u32) div 60 = of_nat (s mod 3600 div 60)"
    "of_nat (s mod 3600) - of_nat (s mod 3600 div 60) * 60 = (of_nat (s mod 60) :: u32)"
proof -
  have l: "s < 2 ^ 32" "s mod 3600 < 2 ^ 32" using assms less_trans [OF mod_less_divisor, of 3600 "2 ^ 32" s] by simp_all
  show "(of_nat s :: u32) div 3600 = of_nat (s div 3600)" using u32_div [OF l(1), of 3600] by simp
  show "(of_nat (s mod 3600) :: u32) div 60 = of_nat (s mod 3600 div 60)" using u32_div [OF l(2), of 60] by simp
  have "(of_nat s :: u32) = of_nat (s div 3600) * 3600 + of_nat (s mod 3600)"
    by (metis div_mult_mod_eq of_nat_add of_nat_mult of_nat_numeral)
  then show "of_nat s - of_nat (s div 3600) * 3600 = (of_nat (s mod 3600) :: u32)" by simp
  have "(of_nat (s mod 3600) :: u32) = of_nat (s mod 3600 div 60) * 60 + of_nat (s mod 3600 mod 60)"
    by (metis div_mult_mod_eq of_nat_add of_nat_mult of_nat_numeral)
  moreover have "s mod 3600 mod 60 = s mod 60" by (rule mod_mod_cancel) simp
  ultimately show "of_nat (s mod 3600) - of_nat (s mod 3600 div 60) * 60 = (of_nat (s mod 60) :: u32)" by simp
qed

text \<open>The stages of the conversion as numbers.\<close>

lemma century_words:
  assumes "n < 2 ^ 30"
  defines "c \<equiv> (4 * n + 3) div 146097" and "nc \<equiv> (4 * n + 3) mod 146097 div 4"
  shows "(4 * of_nat n + 3 :: u32) div 146097 = of_nat c" "(4 * of_nat n + 3 :: u32) mod 146097 div 4 = of_nat nc"
    "c < 2 ^ 20"
proof -
  have l: "4 * n + 3 < 2 ^ 32" using assms(1) by simp
  have w: "(4 * of_nat n + 3 :: u32) = of_nat (4 * n + 3)" by simp
  show "(4 * of_nat n + 3 :: u32) div 146097 = of_nat c" unfolding w c_def using u32_div [OF l, of 146097] by simp
  have "(4 * n + 3) mod 146097 < 2 ^ 32" by (rule less_trans [OF mod_less_divisor]) simp_all
  from u32_div [OF this, of 4] show "(4 * of_nat n + 3 :: u32) mod 146097 div 4 = of_nat nc"
    unfolding w nc_def using u32_mod [OF l, of 146097] by simp
  show "c < 2 ^ 20" using l unfolding c_def by simp
qed

lemma year_words:
  assumes "nc < 36525"
  defines "p \<equiv> 4 * nc + 3"
  shows "upper_32_bits (2939745 * ucast (4 * of_nat nc + 3 :: u32)) = of_nat (p div 1461)"
    "lower_32_bits (2939745 * ucast (4 * of_nat nc + 3 :: u32)) div 2939745 div 4 = of_nat (p mod 1461 div 4)"
proof -
  have p: "p < 146100" "2939745 * p < 2 ^ 64" using assms(1) by (simp_all add: p_def)
  have "(4 * of_nat nc + 3 :: u32) = of_nat p" by (simp add: p_def)
  then have w: "2939745 * ucast (4 * of_nat nc + 3 :: u32) = (of_nat (2939745 * p) :: u64)"
    using u32_to_u64 [of p] p(1) by simp
  show "upper_32_bits (2939745 * ucast (4 * of_nat nc + 3 :: u32)) = of_nat (p div 1461)"
    unfolding w upper_32_bits_of_nat [OF p(2)] year_split(1) [OF p(1)] ..
  have "2939745 * p mod 2 ^ 32 < 2 ^ 32" by simp
  from u32_div [OF this, of 2939745]
  have "lower_32_bits (of_nat (2939745 * p)) div 2939745 = (of_nat (p mod 1461) :: u32)"
    unfolding lower_32_bits_of_nat [OF p(2)] year_split(2) [OF p(1), symmetric] by simp
  moreover have "p mod 1461 < 2 ^ 32" by (rule less_trans [OF mod_less_divisor]) simp_all
  from u32_div [OF this, of 4] have "(of_nat (p mod 1461) :: u32) div 4 = of_nat (p mod 1461 div 4)" by simp
  ultimately show "lower_32_bits (2939745 * ucast (4 * of_nat nc + 3 :: u32)) div 2939745 div 4 = of_nat (p mod 1461 div 4)"
    unfolding w by simp
qed

lemma month_words:
  assumes "k < 12" "d < march_len k"
  defines "ny \<equiv> march_off k + d"
  shows "drop_bit 16 (2141 * of_nat ny + 132377 :: u32) = of_nat (k + 2)"
    "ucast (ucast (2141 * of_nat ny + 132377 :: u32) :: u16) div 2141 = (of_nat d :: u32)"
    "ny < 366" "(of_nat ny \<ge> (306 :: u32)) \<longleftrightarrow> 10 \<le> k"
proof -
  note kk = less_12 [OF assms(1)]
  show ny: "ny < 366" using kk assms(2) unfolding ny_def by (elim disjE) (simp_all add: march_off_def march_len_def)
  have k10: "306 \<le> ny \<longleftrightarrow> 10 \<le> k"
    using kk assms(2) unfolding ny_def by (elim disjE) (simp_all add: march_off_def march_len_def)
  have w: "(2141 * of_nat ny + 132377 :: u32) = of_nat (2141 * ny + 132377)" by simp
  have l: "2141 * ny + 132377 < 2 ^ 32" using ny by simp
  note md = month_day [OF assms(1,2), folded ny_def]
  show "drop_bit 16 (2141 * of_nat ny + 132377 :: u32) = of_nat (k + 2)"
    unfolding w u32_high_half [OF l] md(1) ..
  have "(2141 * ny + 132377) mod 65536 < 2 ^ 32" by (rule less_trans [OF mod_less_divisor]) simp_all
  from u32_div [OF this, of 2141] show "ucast (ucast (2141 * of_nat ny + 132377 :: u32) :: u16) div 2141 = (of_nat d :: u32)"
    unfolding w u32_low_half [OF l] md(2) by simp
  show "(of_nat ny \<ge> (306 :: u32)) \<longleftrightarrow> 10 \<le> k" using u32_le [of 306 ny] ny k10 by simp
qed

definition date_tm :: "nat \<Rightarrow> nat \<Rightarrow> nat \<Rightarrow> nat \<Rightarrow> rtc_time" where
  "date_tm y m d t =
     \<lparr>tm_sec = of_nat (t mod 60), tm_min = of_nat (t mod 3600 div 60), tm_hour = of_nat (t mod 86400 div 3600),
      tm_mday = of_nat d, tm_mon = of_nat m, tm_year = of_nat (y - 1900),
      tm_wday = of_nat ((t div 86400 + 4) mod 7),
      tm_yday = of_nat (sum_list (map (month_len y) [0..<m]) + d), tm_isdst = 0\<rparr>"

lemma day_of_year_words:
  assumes "k < 12"
  shows "(if 10 \<le> k then of_nat (march_off k + d) - 306 else of_nat (march_off k + d) + 31 + 28 + of_bool (leap y)) + 1
    = (of_nat (sum_list (map (month_len (greg_year y k)) [0..<greg_month k]) + (d + 1)) :: u32)"
proof (cases "10 \<le> k")
  case True
  then have "k = 10 \<or> k = 11" using assms by auto
  then show ?thesis by (auto simp: greg_month_def march_off_def month_len_def)
next
  case False
  then show ?thesis using month_sum [of "k + 2" y] by (simp add: greg_month_def greg_year_def)
qed

lemma leap_words:
  assumes "z < 100" "c < 2 ^ 20"
  shows "(if (of_nat z :: u32) \<noteq> 0 then (of_nat z :: u32) mod 4 = 0 else (of_nat c :: u32) mod 4 = 0) = leap (100 * c + z)"
proof -
  have l: "z < 2 ^ 32" "c < 2 ^ 32" using assms by simp_all
  have "z mod 4 < 2 ^ 32" "c mod 4 < 2 ^ 32" by (rule less_trans [OF mod_less_divisor]; simp)+
  then show ?thesis
    using leap_century [OF assms(1), of c] u32_mod [OF l(1), of 4] u32_mod [OF l(2), of 4]
      u32_eq [OF l(1), of 0] u32_eq [of "z mod 4" 0] u32_eq [of "c mod 4" 0] by simp
qed

lemma greg_words:
  assumes "k < 12" "1970 \<le> greg_year y k"
  shows "of_nat y + of_bool (10 \<le> k) - 1900 = (of_nat (greg_year y k - 1900) :: u32)"
    "(if 10 \<le> k then of_nat (k + 2) - 12 else of_nat (k + 2)) = (of_nat (greg_month k) :: u32)"
proof -
  have "(of_nat (greg_year y k - 1900) :: u32) = of_nat (greg_year y k) - of_nat 1900"
    using assms(2) by (intro of_nat_diff) simp
  then show "of_nat y + of_bool (10 \<le> k) - 1900 = (of_nat (greg_year y k - 1900) :: u32)"
    by (simp add: greg_year_def)
  have "(of_nat (k - 10) :: u32) = of_nat k - of_nat 10" if "10 \<le> k" using that by (rule of_nat_diff)
  then show "(if 10 \<le> k then of_nat (k + 2) - 12 else of_nat (k + 2)) = (of_nat (greg_month k) :: u32)"
    by (simp add: greg_month_def)
qed

lemma rtc_time64_to_tm_date:
  assumes "t < 86400 * last_day"
  shows "\<exists>y m d. valid_date y m d \<and> y < 11767033 \<and> epoch_days y m d = t div 86400
    \<and> rtc_time64_to_tm (of_nat t) = date_tm y m d t"
proof -
  define n where "n = t div 86400 + 719468"
  have days: "t div 86400 < last_day" using assms by (simp add: less_mult_imp_div_less mult.commute)
  have n: "n < 2 ^ 30" "719468 \<le> n" using days by (simp_all add: n_def last_day_def)
  define c where "c = (4 * n + 3) div 146097"
  define nc where "nc = (4 * n + 3) mod 146097 div 4"
  define z where "z = (4 * nc + 3) div 1461"
  define ny where "ny = (4 * nc + 3) mod 1461 div 4"
  define y where "y = 100 * c + z"
  note my = march_year [of n, folded c_def nc_def, folded z_def ny_def, folded y_def]
  from day_of_march_year [OF my(3)] obtain k d where k: "k < 12" "d < march_len k" "ny = march_off k + d" .
  note cw = century_words [OF n(1), folded c_def nc_def]
  note yw = year_words [OF my(1), folded z_def ny_def]
  note mw = month_words [OF k(1,2), folded k(3)]
  have g: "valid_date (greg_year y k) (greg_month k) (d + 1)"
    "epoch_days (greg_year y k) (greg_month k) (d + 1) + 719468 = n"
    using greg_date [of n y k d] my(4,5) k n(2) by simp_all
  have yb: "1970 \<le> greg_year y k" "greg_year y k < 11767033"
  proof -
    show "1970 \<le> greg_year y k" using g(1) by (simp add: valid_date_def)
    have "365 * y \<le> n" using my(4) by simp
    then show "greg_year y k < 11767033" using n(1) by (simp add: greg_year_def)
  qed
  have t63: "t < 2 ^ 63" using assms by (simp add: last_day_def)
  have dw: "word_of_int (cdiv (sint (of_nat t :: u64)) 86400) = (of_nat (t div 86400) :: u32)"
    "word_of_int (cmod (sint (of_nat t :: u64)) 86400) = (of_nat (t mod 86400) :: u32)"
    unfolding sint_of_nat64 [OF t63] cdiv_of_nat by simp_all
  have uw: "(of_nat (t div 86400) + 719468 :: u32) = of_nat n" by (simp add: n_def)
  have ww: "word_of_int (cmod (sint (of_nat (t div 86400) + 4 :: u32)) 7) = (of_nat ((t div 86400 + 4) mod 7) :: u32)"
  proof -
    have "(of_nat (t div 86400) + 4 :: u32) = of_nat (t div 86400 + 4)" by simp
    moreover have "t div 86400 + 4 < 2 ^ 31" using days by (simp add: last_day_def)
    ultimately show ?thesis by (simp only: sint_of_nat32 cmod7) simp
  qed
  have yr: "100 * of_nat c + of_nat z = (of_nat y :: u32)" by (simp add: y_def)
  have mm: "t mod 86400 mod 3600 = t mod 3600" "t mod 86400 mod 60 = t mod 60"
    by (rule mod_mod_cancel; simp)+
  note tod = time_of_day [of "t mod 86400", unfolded mm]
  have "rtc_time64_to_tm (of_nat t) = date_tm (greg_year y k) (greg_month k) (d + 1) t"
    unfolding rtc_time64_to_tm_def Let_def dw ww uw cw(1,2) yw yr mw(1,2,4)
      leap_words [OF my(2) cw(3), folded y_def] greg_words [OF k(1) yb(1)]
      day_of_year_words [OF k(1), of d y, folded k(3)] date_tm_def
    using tod by simp
  with g yb(2) show ?thesis
    by (intro exI [of _ "greg_year y k"] exI [of _ "greg_month k"] exI [of _ "d + 1"]) (simp add: n_def)
qed

section \<open>Every day has one date\<close>

lemma step_unique:
  fixes f :: "nat \<Rightarrow> nat"
  assumes "\<And>i j. i \<le> j \<Longrightarrow> f i \<le> f j" "f x \<le> e" "e < f (Suc x)" "f y \<le> e" "e < f (Suc y)"
  shows "x = y"
proof (rule ccontr)
  assume "x \<noteq> y"
  then have "Suc x \<le> y \<or> Suc y \<le> x" by linarith
  with assms(1) [of "Suc x" y] assms(1) [of "Suc y" x] assms(2-5) show False by linarith
qed

definition years_before :: "nat \<Rightarrow> nat" where
  "years_before y = sum_list (map year_len [1970..<y])"

definition months_before :: "nat \<Rightarrow> nat \<Rightarrow> nat" where
  "months_before y m = sum_list (map (month_len y) [0..<m])"

lemma years_before_mono: "i \<le> j \<Longrightarrow> years_before i \<le> years_before j"
  by (rule lift_Suc_mono_le) (simp add: years_before_def upt_Suc)

lemma months_before_mono: "i \<le> j \<Longrightarrow> months_before y i \<le> months_before y j"
  by (rule lift_Suc_mono_le) (simp_all add: months_before_def)

lemma months_before_12: "months_before y 12 = year_len y"
  by (simp add: months_before_def month_len_def year_len_def eval_nat_numeral)

lemma month_bounds:
  assumes "valid_date y m d"
  shows "months_before y m \<le> months_before y m + (d - 1)" "months_before y m + (d - 1) < months_before y (Suc m)"
  using assms by (auto simp: valid_date_def months_before_def)

lemma epoch_days_unique:
  assumes "valid_date y m d" "valid_date y' m' d'" "epoch_days y m d = epoch_days y' m' d'"
  shows "y = y' \<and> m = m' \<and> d = d'"
proof -
  have e: "epoch_days y m d = years_before y + (months_before y m + (d - 1))" for y m d
    by (simp add: epoch_days_def years_before_def months_before_def)
  have b: "years_before y \<le> epoch_days y m d \<and> epoch_days y m d < years_before (Suc y)" if "valid_date y m d" for y m d
  proof -
    have "Suc m \<le> 12" "1970 \<le> y" using that by (simp_all add: valid_date_def)
    with months_before_mono [of "Suc m" 12 y] month_bounds [OF that] show ?thesis
      by (simp add: e months_before_12) (simp add: years_before_def)
  qed
  have y: "y = y'"
    by (rule step_unique [of years_before]) (use b [OF assms(1)] b [OF assms(2)] assms(3) years_before_mono in auto)
  with assms(3) have s: "months_before y m + (d - 1) = months_before y m' + (d' - 1)" by (simp add: e)
  have m: "m = m'"
    by (rule step_unique [of "months_before y", OF months_before_mono month_bounds [OF assms(1)]])
      (use month_bounds [OF assms(2)] s y in simp_all)
  with s assms(1,2) y show ?thesis by (auto simp: valid_date_def)
qed

section \<open>Valid times and the clock chip\<close>

lemma is_leap_year_of_nat: "y < 2 ^ 32 \<Longrightarrow> is_leap_year (of_nat y) = leap y"
proof -
  assume y: "y < 2 ^ 32"
  have z: "(of_nat (y mod k) :: u32) = 0 \<longleftrightarrow> k dvd y" if "0 < k" "k < 2 ^ 32" for k
  proof -
    have "y mod k < 2 ^ 32" using mod_less_divisor [OF that(1), of y] that(2) by linarith
    with u32_eq [of "y mod k" 0] show ?thesis by (simp add: dvd_eq_mod_eq_0)
  qed
  show ?thesis
    using u32_mod [OF y, of 4] u32_mod [OF y, of 100] u32_mod [OF y, of 400] z [of 4] z [of 100] z [of 400]
    by (simp add: is_leap_year_def leap_def)
qed

lemma rtc_month_days_of_nat:
  assumes "m < 12" "y < 2 ^ 32"
  shows "rtc_month_days (of_nat m) (of_nat y) = Ret (of_nat (month_len y m))"
proof -
  note less_12 [OF assms(1)]
  then show ?thesis
    by (elim disjE) (simp_all add: rtc_month_days_def rtc_days_in_month_def month_len_def is_leap_year_of_nat [OF assms(2)])
qed

lemma rtc_valid_tm_date:
  assumes "valid_date y m d" "y < 11767033"
  shows "rtc_valid_tm (date_tm y m d t) = Ret 0"
proof -
  have v: "1970 \<le> y" "m < 12" "1 \<le> d" "d \<le> month_len y m" "month_len y m \<le> 31"
    using assms(1) month_len_le [of m y] by (auto simp: valid_date_def)
  define q where "q = y - 1900"
  have q: "y = q + 1900" "70 \<le> q" "q < 11767033" using v(1) assms(2) by (simp_all add: q_def)
  then have yr: "(of_nat q + 1900 :: u32) = of_nat y" by simp
  have s: "sint (of_nat q :: u32) = int q" "sint (of_nat d :: u32) = int d"
    "sint (of_nat (month_len y m) :: u32) = int (month_len y m)"
    using q(3) v by (simp_all add: sint_of_nat32)
  have md: "rtc_month_days (of_nat m) (of_nat y) = Ret (of_nat (month_len y m))"
    using v(2) assms(2) by (intro rtc_month_days_of_nat) simp_all
  have lt: "\<not> (12 :: u32) \<le> of_nat m" "\<not> (24 :: u32) \<le> of_nat (t mod 86400 div 3600)"
    "\<not> (60 :: u32) \<le> of_nat (t mod 3600 div 60)" "\<not> (60 :: u32) \<le> of_nat (t mod 60)"
  proof -
    have *: "\<not> (of_nat b :: u32) \<le> of_nat a" if "a < b" "b < 2 ^ 32" for a b using that u32_le [of b a] by simp
    have "t mod 86400 < 3600 * 24" "t mod 3600 < 60 * 60" by simp_all
    then have "t mod 86400 div 3600 < 24" "t mod 3600 div 60 < 60"
      by (simp_all add: less_mult_imp_div_less mult.commute)
    with * [of m 12] * [of "t mod 86400 div 3600" 24] * [of "t mod 3600 div 60" 60] * [of "t mod 60" 60] v(2)
    show "\<not> (12 :: u32) \<le> of_nat m" "\<not> (24 :: u32) \<le> of_nat (t mod 86400 div 3600)"
      "\<not> (60 :: u32) \<le> of_nat (t mod 3600 div 60)" "\<not> (60 :: u32) \<le> of_nat (t mod 60)" by simp_all
  qed
  show ?thesis unfolding date_tm_def q_def [symmetric] using v q(2,3) lt by (simp add: rtc_valid_tm_def s md yr)
qed

lemma bcd_roundtrip:
  assumes "v < 100"
  shows "bcd2bin (bin2bcd (of_nat v)) = of_nat v"
proof -
  define a b where "a = v div 10" and "b = v mod 10"
  have ab: "v = 10 * a + b" "a < 10" "b < 10" using assms by (simp_all add: a_def b_def)
  have dm: "(of_nat v :: u32) div 10 = of_nat a" "(of_nat v :: u32) mod 10 = of_nat b"
    using u32_div [of v 10] u32_mod [of v 10] assms by (simp_all add: a_def b_def)
  have "(push_bit 4 (of_nat a) + of_nat b :: u32) = of_nat (16 * a + b)" by (simp add: push_bit_eq_mult)
  moreover have n: "16 * a + b < 256" using ab by simp
  ultimately have bin: "bin2bcd (of_nat v) = of_nat (16 * a + b)"
    by (simp add: bin2bcd_def dm word_unat_eq_iff unsigned_ucast_eq unsigned_of_nat take_bit_nat_eq_self
        del: of_nat_add of_nat_mult)
  define w where "w = (of_nat (16 * a + b) :: u8)"
  have u: "unat w = 16 * a + b"
    using n by (simp add: w_def unsigned_of_nat take_bit_nat_eq_self del: of_nat_add of_nat_mult)
  have c: "(ucast x :: u32) = of_nat (unat x)" for x :: u8 by simp
  have "w AND 0x0f = take_bit 4 w" by (simp add: take_bit_eq_mask mask_eq_exp_minus_1)
  moreover have "unat (take_bit 4 w) = b"
    unfolding unsigned_take_bit_eq u using ab by (simp add: take_bit_eq_mod)
  ultimately have low: "(ucast (w AND 0x0f) :: u32) = of_nat b" unfolding c by simp
  have high: "(ucast (drop_bit 4 w) :: u32) = of_nat a"
    unfolding c unat_drop_bit_eq u using ab by (simp add: drop_bit_eq_div)
  show ?thesis unfolding bin w_def [symmetric] bcd2bin_def low high by (simp add: ab(1))
qed

section \<open>Properties\<close>

text \<open>
  C15. For every second up to the limit of the 32-bit sums, \<^verbatim>\<open>rtc_time64_to_tm\<close> gives the Gregorian date:
  the date is valid, \<open>epoch_days\<close> of it is the number of whole days since 1970, the time of day, the day
  of the week and the day of the year are right, and \<^verbatim>\<open>rtc_valid_tm\<close> accepts the result.
\<close>

theorem rtc_date_correct:
  assumes "t < 86400 * last_day"
  shows "\<exists>y m d. valid_date y m d \<and> epoch_days y m d = t div 86400
    \<and> rtc_time64_to_tm (of_nat t) = date_tm y m d t \<and> rtc_valid_tm (rtc_time64_to_tm (of_nat t)) = Ret 0"
  using rtc_time64_to_tm_date [OF assms] rtc_valid_tm_date by metis

theorem rtc_date_correct_witness:
  "\<exists>y m d. valid_date y m d \<and> epoch_days y m d = 11016 \<and> rtc_time64_to_tm 951782400 = date_tm y m d 951782400"
  using rtc_date_correct [of 951782400] by (auto simp: last_day_def)

text \<open>
  C21. Dates and seconds are inverse to each other: \<^verbatim>\<open>rtc_tm_to_time64\<close> reads back every second that
  \<^verbatim>\<open>rtc_time64_to_tm\<close> was given, and every valid date on the day of a second is the date that
  \<^verbatim>\<open>rtc_time64_to_tm\<close> finds for that second.
\<close>

theorem rtc_roundtrip:
  assumes "t < 86400 * last_day"
  shows "rtc_tm_to_time64 (rtc_time64_to_tm (of_nat t)) = of_nat t
    \<and> (\<forall>y m d. valid_date y m d \<and> epoch_days y m d = t div 86400 \<longrightarrow> rtc_time64_to_tm (of_nat t) = date_tm y m d t)"
proof -
  from rtc_time64_to_tm_date [OF assms] obtain y' m' d' where
    v: "valid_date y' m' d'" "y' < 11767033" "epoch_days y' m' d' = t div 86400"
    and tm: "rtc_time64_to_tm (of_nat t) = date_tm y' m' d' t" by blast
  define q where "q = y' - 1900"
  have q: "y' = q + 1900" using v(1) by (simp add: q_def valid_date_def)
  have yr: "(of_nat q + 1900 :: u32) = of_nat y'" "(of_nat m' + 1 :: u32) = of_nat (m' + 1)" by (simp_all add: q)
  have less: "t mod 86400 div 3600 < 2 ^ 32" "t mod 3600 div 60 < 2 ^ 32" "t mod 60 < 2 ^ 32"
    by (rule le_less_trans [OF div_le_dividend] less_trans [OF mod_less_divisor]; simp)+
  have "rtc_tm_to_time64 (date_tm y' m' d' t)
      = of_nat (t div 86400 * 86400 + t mod 86400 div 3600 * 3600 + t mod 3600 div 60 * 60 + t mod 60)"
    unfolding rtc_tm_to_time64_def date_tm_def q_def [symmetric]
    using mktime64_correct [OF v(1,2), of "of_nat (t mod 86400 div 3600)" "of_nat (t mod 3600 div 60)" "of_nat (t mod 60)"]
    by (simp only: rtc_time.simps yr v(3) u32_of_nat less)
  moreover have "t div 86400 * 86400 + t mod 86400 div 3600 * 3600 + t mod 3600 div 60 * 60 + t mod 60 = t"
  proof -
    have "t mod 86400 mod 3600 = t mod 3600" "t mod 3600 mod 60 = t mod 60" by (rule mod_mod_cancel; simp)+
    with div_mult_mod_eq [of t 86400] div_mult_mod_eq [of "t mod 86400" 3600] div_mult_mod_eq [of "t mod 3600" 60]
    show ?thesis by linarith
  qed
  ultimately have "rtc_tm_to_time64 (rtc_time64_to_tm (of_nat t)) = of_nat t" by (simp only: tm)
  moreover have "rtc_time64_to_tm (of_nat t) = date_tm y m d t"
    if "valid_date y m d" "epoch_days y m d = t div 86400" for y m d
    using epoch_days_unique [OF that(1) v(1)] that(2) v(3) tm by auto
  ultimately show ?thesis by blast
qed

theorem rtc_roundtrip_witness:
  "rtc_tm_to_time64 (rtc_time64_to_tm 1709210096) = 1709210096"
  using rtc_roundtrip [of 1709210096] by (simp add: last_day_def)

text \<open>
  C31. The clock chip: when its registers hold a valid date of the years 1970 to 2069 in binary coded
  decimals, \<^verbatim>\<open>mc146818_get_time\<close> followed by \<^verbatim>\<open>rtc_tm_to_time64\<close> gives the seconds since 1970.
\<close>

theorem rtc_clock_chip:
  assumes "valid_date y m d" "y < 2070" "h < 24" "mi < 60" "s < 60"
    and "cmos RTC_SECONDS = bin2bcd (of_nat s)" "cmos RTC_MINUTES = bin2bcd (of_nat mi)"
    and "cmos RTC_HOURS = bin2bcd (of_nat h)" "cmos RTC_DAY_OF_MONTH = bin2bcd (of_nat d)"
    and "cmos RTC_MONTH = bin2bcd (of_nat (m + 1))" "cmos RTC_YEAR = bin2bcd (of_nat (y mod 100))"
  shows "rtc_tm_to_time64 (mc146818_get_time cmos tm) = of_nat (epoch_days y m d * 86400 + h * 3600 + mi * 60 + s)"
proof -
  have v: "1970 \<le> y" "m < 12" "d \<le> 31"
    using assms(1) month_len_le [of m y] by (auto simp: valid_date_def)
  have same: "(ucast (ucast (w :: u8) :: u32) :: u8) = w" for w
    by (rule bit_word_eqI) (simp add: bit_simps)
  define q where "q = (if y mod 100 \<le> 69 then y mod 100 + 100 else y mod 100)"
  have q: "q + 1900 = y"
  proof -
    have "19 \<le> y div 100" "y div 100 < 21" using v(1) assms(2) by simp_all
    then have "y div 100 = 19 \<or> y div 100 = 20" by auto
    moreover have "y = y div 100 * 100 + y mod 100" by simp
    ultimately have "y = 1900 + y mod 100 \<or> y = 2000 + y mod 100" by (elim disjE) simp_all
    moreover have "y mod 100 < 100" by simp
    ultimately show ?thesis using v(1) assms(2) unfolding q_def by (auto split: if_splits)
  qed
  have "sint (of_nat (y mod 100) :: u32) = int (y mod 100)"
    by (rule sint_of_nat32) (rule less_trans [OF mod_less_divisor], simp_all)
  then have yr: "(if sint (of_nat (y mod 100) :: u32) \<le> 69 then of_nat (y mod 100) + 100 else of_nat (y mod 100)) = (of_nat q :: u32)"
    unfolding q_def by simp
  let ?t = "mc146818_get_time cmos tm"
  have "tm_sec ?t = of_nat s" "tm_min ?t = of_nat mi" "tm_hour ?t = of_nat h" "tm_mday ?t = of_nat d"
    "tm_mon ?t = of_nat m" "tm_year ?t = of_nat q"
    using assms(2-5) v yr bcd_roundtrip [of s] bcd_roundtrip [of mi] bcd_roundtrip [of h] bcd_roundtrip [of d]
      bcd_roundtrip [of "m + 1"] bcd_roundtrip [of "y mod 100"]
    by (simp_all add: mc146818_get_time_def simple_mc146818_gettime_def Let_def same assms(6-11) split: if_splits)
  moreover have "(of_nat q + 1900 :: u32) = of_nat y" "(of_nat m + 1 :: u32) = of_nat (m + 1)"
    by (simp_all add: q [symmetric])
  moreover have "y < 11767033" using assms(2) by simp
  ultimately show ?thesis
    using mktime64_correct [OF assms(1), of "of_nat h" "of_nat mi" "of_nat s"] assms(3-5)
    by (simp add: rtc_tm_to_time64_def u32_of_nat add.commute)
qed

theorem rtc_clock_chip_witness:
  "rtc_tm_to_time64 (mc146818_get_time (\<lambda>r. if r = 4 then 0x12 else if r = 7 then 0x29 else if r = 8 then 0x02
     else if r = 9 then 0x24 else 0x30) (rtc_time64_to_tm 0)) = 1709209830"
proof -
  have "epoch_days 2024 1 29 + 719468 = 739250"
    using epoch_days_march [of 2024 1 29] by (simp add: leaps_def march_off_def)
  then have e: "epoch_days 2024 (Suc 0) 29 = 19782" by simp
  have "valid_date 2024 1 29" by (simp add: valid_date_def month_len_def leap_def)
  from rtc_clock_chip [OF this, of 12 30 30 "\<lambda>r. if r = 4 then 0x12 else if r = 7 then 0x29 else if r = 8 then 0x02
     else if r = 9 then 0x24 else 0x30" "rtc_time64_to_tm 0"]
  show ?thesis
    by (simp add: e RTC_SECONDS_def RTC_MINUTES_def RTC_HOURS_def RTC_DAY_OF_MONTH_def RTC_MONTH_def RTC_YEAR_def
        bin2bcd_def)
qed

end
